(* ===== verification/Prelude.thy ===== *)
theory Prelude
  imports Main "HOL-Library.AList" "HOL-Library.Char_ord" "HOL-Library.List_Lexorder"
    "HOL-Library.Product_Lexorder" "HOL-Library.Sublist" "HOL-Library.Word"
    "HOL-Library.Code_Target_Numeral"
begin

section \<open>Prelude: shared collections, types and generic lemmas\<close>

text \<open>
  What every component theory shares: the named collections of facts, the names of the
  C++ container types, the contract of an associative container as a locale, and the two
  containers of the standard library the server uses.
  \<^item> \<open>std::map\<close> is an association list kept sorted by key (iteration is in key order);
  \<^item> \<open>std::unordered_map\<close> is an association list with distinct keys whose order is the
    (unspecified) iteration order.
  Keys are compared as C++ compares them: \<open>std::string\<close> lexicographically by unsigned
  character code, \<open>std::pair\<close> lexicographically.
\<close>

subsection \<open>Collections\<close>

named_theorems str_simps \<open>equations of the string library on concrete shapes\<close>
named_theorems step_simps \<open>one-step unfoldings of operations\<close>
named_theorems inv_intros \<open>preservation of component invariants\<close>

subsection \<open>Type names\<close>

type_synonym ('k, 'v) std_map = "('k \<times> 'v) list"
type_synonym ('k, 'v) unordered_map = "('k \<times> 'v) list"
type_synonym u64 = "64 word"
type_synonym i64 = "64 word"

subsection \<open>Generic lemmas on lists and maps\<close>

lemma map_of_eq_None_iff_keys: "map_of ps k = None \<longleftrightarrow> k \<notin> set (map fst ps)"
  by (simp add: map_of_eq_None_iff)

lemma card_dom_map_of: "distinct (map fst ps) \<Longrightarrow> card (dom (map_of ps)) = length ps"
  by (metis distinct_card dom_map_of_conv_image_fst length_map list.set_map)

lemma finite_dom_map_upd: "finite (dom m) \<Longrightarrow> finite (dom (m(k := x)))"
  by (cases x) simp_all

lemma prefix_takeI: "n \<le> length xs \<Longrightarrow> prefix (take n xs) xs"
  by (rule take_is_prefix)

lemma takeWhile_append_Cons:
  assumes "\<forall>x\<in>set xs. P x" and "\<not> P y"
  shows "takeWhile P (xs @ y # ys) = xs"
  using assms by (induction xs) auto

lemma dropWhile_append_Cons:
  assumes "\<forall>x\<in>set xs. P x" and "\<not> P y"
  shows "dropWhile P (xs @ y # ys) = y # ys"
  using assms by (induction xs) auto

subsection \<open>Joining texts with a separator\<close>

fun join :: "'a list \<Rightarrow> 'a list list \<Rightarrow> 'a list" where
  "join sep [] = []"
| "join sep [x] = x"
| "join sep (x # y # xs) = x @ sep @ join sep (y # xs)"

lemma join_Cons: "xs \<noteq> [] \<Longrightarrow> join sep (x # xs) = x @ sep @ join sep xs"
  by (cases xs) auto

subsection \<open>A sequence of calls on an object\<close>

fun calls_run :: "('a \<Rightarrow> 's \<Rightarrow> 'r \<times> 's) \<Rightarrow> 'a list \<Rightarrow> 's \<Rightarrow> 'r list \<times> 's" where
  "calls_run f [] s = ([], s)"
| "calls_run f (x # xs) s =
     (case f x s of (r, s') \<Rightarrow> case calls_run f xs s' of (rs, s'') \<Rightarrow> (r # rs, s''))"

subsection \<open>Labelled transition systems\<close>

text \<open>
  Finite executions of a step relation with their labels, and the rule by which an invariant
  of single steps becomes one of executions; the concurrent components interpret it.
\<close>

inductive steps :: "('s \<Rightarrow> 'e \<Rightarrow> 's \<Rightarrow> bool) \<Rightarrow> 's \<Rightarrow> 'e list \<Rightarrow> 's \<Rightarrow> bool" for step where
  steps_Nil: "steps step s [] s"
| steps_snoc: "steps step s es t \<Longrightarrow> step t e u \<Longrightarrow> steps step s (es @ [e]) u"

inductive_simps steps_Nil_iff: "steps step s [] t"

lemma steps_snoc_iff: "steps step s (es @ [e]) u \<longleftrightarrow> (\<exists>t. steps step s es t \<and> step t e u)"
  by (auto elim: steps.cases intro: steps_snoc)

lemma steps_append: "steps step s es t \<Longrightarrow> steps step t fs u \<Longrightarrow> steps step s (es @ fs) u"
  by (induction fs arbitrary: u rule: rev_induct)
    (auto simp: steps_Nil_iff steps_snoc_iff simp flip: append_assoc)

lemma steps_Cons: "step s e t \<Longrightarrow> steps step t es u \<Longrightarrow> steps step s (e # es) u"
  using steps_append [of step s "[e]" t es u] steps_snoc [OF steps_Nil, of step s e t] by simp

locale step_invariant =
  fixes step :: "'s \<Rightarrow> 'e \<Rightarrow> 's \<Rightarrow> bool"
    and inv :: "'s \<Rightarrow> bool"
  assumes inv_step: "inv s \<Longrightarrow> step s e t \<Longrightarrow> inv t"
begin

lemma inv_steps: "steps step s es t \<Longrightarrow> inv s \<Longrightarrow> inv t"
  by (induction rule: steps.induct) (auto intro: inv_step)

end

subsection \<open>The contract of an associative container\<close>

text \<open>
  What the clients of \<open>std::map\<close> and \<open>std::unordered_map\<close> rely on: \<open>find\<close>,
  \<open>operator[]\<close> with an assignment, \<open>erase\<close> and \<open>size\<close>, under a representation
  invariant.
\<close>

locale assoc_container =
  fixes lookup :: "'m \<Rightarrow> 'k \<Rightarrow> 'v option"
    and update :: "'k \<Rightarrow> 'v \<Rightarrow> 'm \<Rightarrow> 'm"
    and erase :: "'k \<Rightarrow> 'm \<Rightarrow> 'm"
    and size_of :: "'m \<Rightarrow> nat"
    and empty :: 'm
    and inv :: "'m \<Rightarrow> bool"
  assumes lookup_empty: "lookup empty = Map.empty"
    and inv_empty: "inv empty"
    and lookup_update: "inv m \<Longrightarrow> lookup (update k v m) = (lookup m)(k \<mapsto> v)"
    and inv_update: "inv m \<Longrightarrow> inv (update k v m)"
    and lookup_erase: "inv m \<Longrightarrow> lookup (erase k m) = (lookup m)(k := None)"
    and inv_erase: "inv m \<Longrightarrow> inv (erase k m)"
    and finite_lookup: "inv m \<Longrightarrow> finite (dom (lookup m))"
    and size_card: "inv m \<Longrightarrow> size_of m = card (dom (lookup m))"
begin

lemma size_empty: "size_of empty = 0"
  by (simp add: size_card inv_empty lookup_empty)

lemma size_update_new:
  "inv m \<Longrightarrow> lookup m k = None \<Longrightarrow> size_of (update k v m) = Suc (size_of m)"
  by (simp add: size_card inv_update lookup_update finite_lookup domIff)

lemma size_update_old:
  "inv m \<Longrightarrow> lookup m k = Some w \<Longrightarrow> size_of (update k v m) = size_of m"
  by (simp add: size_card inv_update lookup_update insert_absorb domI)

lemma size_update_le: "inv m \<Longrightarrow> size_of (update k v m) \<le> Suc (size_of m)"
  by (cases "lookup m k") (simp_all add: size_update_new size_update_old)

lemma size_erase_present:
  assumes "inv m" and "lookup m k = Some w"
  shows "Suc (size_of (erase k m)) = size_of m"
proof -
  have "k \<in> dom (lookup m)" using assms(2) by blast
  then have "Suc (card (dom (lookup m) - {k})) = card (dom (lookup m))"
    by (rule card_Suc_Diff1 [OF finite_lookup [OF assms(1)]])
  then show ?thesis
    using assms(1) by (simp add: size_card inv_erase lookup_erase)
qed

lemma size_erase_absent:
  "inv m \<Longrightarrow> lookup m k = None \<Longrightarrow> size_of (erase k m) = size_of m"
  by (simp add: size_card inv_erase lookup_erase domIff)

lemma size_erase_le: "inv m \<Longrightarrow> size_of (erase k m) \<le> size_of m"
  by (cases "lookup m k")
    (auto simp: size_erase_absent dest: size_erase_present[of m k])

lemma lookup_update_same: "inv m \<Longrightarrow> lookup (update k v m) k = Some v"
  by (simp add: lookup_update)

lemma lookup_update_other: "inv m \<Longrightarrow> k' \<noteq> k \<Longrightarrow> lookup (update k v m) k' = lookup m k'"
  by (simp add: lookup_update)

lemma lookup_erase_same: "inv m \<Longrightarrow> lookup (erase k m) k = None"
  by (simp add: lookup_erase)

lemma lookup_erase_other: "inv m \<Longrightarrow> k' \<noteq> k \<Longrightarrow> lookup (erase k m) k' = lookup m k'"
  by (simp add: lookup_erase)

end

subsection \<open>std::map\<close>

text \<open>\<open>m[k] = v\<close> on an ordered map: the pair goes where the key order puts it.\<close>

fun map_insert :: "'k::linorder \<Rightarrow> 'v \<Rightarrow> ('k, 'v) std_map \<Rightarrow> ('k, 'v) std_map" where
  "map_insert k v [] = [(k, v)]"
| "map_insert k v (p # ps) =
     (if fst p = k then (k, v) # ps
      else if k < fst p then (k, v) # p # ps
      else p # map_insert k v ps)"

definition map_erase :: "'k \<Rightarrow> ('k, 'v) std_map \<Rightarrow> ('k, 'v) std_map" where
  "map_erase k ps = filter (\<lambda>p. fst p \<noteq> k) ps"

definition map_inv :: "('k::linorder, 'v) std_map \<Rightarrow> bool" where
  "map_inv ps \<longleftrightarrow> sorted (map fst ps) \<and> distinct (map fst ps)"

lemma map_inv_Nil: "map_inv []"
  by (simp add: map_inv_def)

lemma map_inv_sorted: "map_inv ps \<Longrightarrow> distinct (map fst ps)"
  by (simp add: map_inv_def)

lemma map_of_map_insert [simp]: "map_of (map_insert k v ps) = (map_of ps)(k \<mapsto> v)"
  by (induction ps) (auto simp: fun_eq_iff)

lemma set_keys_map_insert [simp]:
  "set (map fst (map_insert k v ps)) = insert k (set (map fst ps))"
  by (induction ps) auto

lemma fst_set_map_insert: "fst ` set (map_insert k v ps) = insert k (fst ` set ps)"
  using set_keys_map_insert [of k v ps] by simp

lemma map_inv_insert: "map_inv ps \<Longrightarrow> map_inv (map_insert k v ps)"
  by (induction ps) (force simp: map_inv_def fst_set_map_insert)+

lemma map_of_map_erase [simp]: "map_of (map_erase k ps) = (map_of ps)(k := None)"
  by (induction ps) (auto simp: map_erase_def fun_eq_iff)

lemma map_inv_erase: "map_inv ps \<Longrightarrow> map_inv (map_erase k ps)"
  unfolding map_inv_def map_erase_def
  by (induction ps) auto

interpretation ordered: assoc_container map_of map_insert map_erase length "[]" map_inv
  by unfold_locales
    (simp_all add: map_inv_insert map_inv_erase card_dom_map_of finite_dom_map_of map_inv_sorted
      map_inv_Nil)

subsection \<open>std::unordered_map\<close>

definition umap_inv :: "('k, 'v) unordered_map \<Rightarrow> bool" where
  "umap_inv ps \<longleftrightarrow> distinct (map fst ps)"

interpretation hashed: assoc_container map_of AList.update AList.delete length "[]" umap_inv
proof unfold_locales
  show "map_of (AList.update k v m) = (map_of m)(k \<mapsto> v)" for k :: 'a and v :: 'b and m
    by (rule update_conv')
  show "map_of (AList.delete k m) = (map_of m)(k := None)" for k :: 'a and m :: "('a \<times> 'b) list"
    by (rule delete_conv')
qed (auto simp: umap_inv_def distinct_update distinct_delete card_dom_map_of finite_dom_map_of)

end
