(* ===== verification/Cpp_String.thy ===== *)
theory Cpp_String
  imports Prelude
begin

section \<open>The parts of the C++ string library the server uses\<close>

text \<open>
  A \<open>std::string\<close> is a list of bytes (\<^typ>\<open>char\<close>); sizes and positions are
  natural numbers and \<open>std::string::npos\<close> is \<^term>\<open>None\<close>. The functions here are
  \<open>find\<close>, \<open>find_first_not_of\<close>, \<open>find_last_not_of\<close>, \<open>find_last_of\<close>, \<open>substr\<close>,
  \<open>std::getline\<close>, the \<open><cctype>\<close> predicates in the C locale, decimal output of
  integers, \<open>strtoll\<close> and \<open>stoi\<close>. Every call of \<open>substr\<close> in the sources has its
  position within the string (the position comes from a successful \<open>find\<close> or a loop
  guard), so the \<open>out_of_range\<close> exception is not reachable and \<^term>\<open>drop\<close> is
  the whole of it.
\<close>

subsection \<open>Characters\<close>

abbreviation CR :: char where "CR \<equiv> CHR 0x0D"
abbreviation LF :: char where "LF \<equiv> CHR 0x0A"
abbreviation TAB :: char where "TAB \<equiv> CHR 0x09"
abbreviation NUL :: char where "NUL \<equiv> CHR 0x00"
abbreviation DQUOTE :: char where "DQUOTE \<equiv> CHR 0x22"
abbreviation BSLASH :: char where "BSLASH \<equiv> CHR 0x5C"
abbreviation crlf :: string where "crlf \<equiv> [CR, LF]"

abbreviation ord_c :: "char \<Rightarrow> nat" where "ord_c c \<equiv> of_char c"

definition isspace :: "char \<Rightarrow> bool" where
  "isspace c \<longleftrightarrow> ord_c c = 32 \<or> (9 \<le> ord_c c \<and> ord_c c \<le> 13)"

definition isdigit :: "char \<Rightarrow> bool" where
  "isdigit c \<longleftrightarrow> 48 \<le> ord_c c \<and> ord_c c \<le> 57"

definition isxdigit :: "char \<Rightarrow> bool" where
  "isxdigit c \<longleftrightarrow> isdigit c \<or> (65 \<le> ord_c c \<and> ord_c c \<le> 70) \<or> (97 \<le> ord_c c \<and> ord_c c \<le> 102)"

definition tolower :: "char \<Rightarrow> char" where
  "tolower c = (if 65 \<le> ord_c c \<and> ord_c c \<le> 90 then char_of (ord_c c + 32) else c)"

definition xdigit_val :: "char \<Rightarrow> nat" where
  "xdigit_val c = (if isdigit c then ord_c c - 48
                   else if ord_c c \<le> 70 then ord_c c - 55 else ord_c c - 87)"

definition xdigit_char :: "nat \<Rightarrow> char" where
  "xdigit_char n = char_of (if n < 10 then 48 + n else 87 + n)"

subsection \<open>find\<close>

fun find_char :: "char \<Rightarrow> string \<Rightarrow> nat option" where
  "find_char c [] = None"
| "find_char c (x # xs) = (if x = c then Some 0 else map_option Suc (find_char c xs))"

definition find_char_from :: "char \<Rightarrow> nat \<Rightarrow> string \<Rightarrow> nat option" where
  "find_char_from c pos s = map_option (\<lambda>i. pos + i) (find_char c (drop pos s))"

fun find_str :: "string \<Rightarrow> string \<Rightarrow> nat option" where
  "find_str p [] = (if p = [] then Some 0 else None)"
| "find_str p (x # xs) =
     (if prefix p (x # xs) then Some 0 else map_option Suc (find_str p xs))"

definition contains_str :: "string \<Rightarrow> string \<Rightarrow> bool" where
  "contains_str p s \<longleftrightarrow> find_str p s \<noteq> None"

fun find_first_not_of :: "(char \<Rightarrow> bool) \<Rightarrow> string \<Rightarrow> nat option" where
  "find_first_not_of P [] = None"
| "find_first_not_of P (x # xs) =
     (if P x then map_option Suc (find_first_not_of P xs) else Some 0)"

definition find_last_not_of :: "(char \<Rightarrow> bool) \<Rightarrow> string \<Rightarrow> nat option" where
  "find_last_not_of P s = map_option (\<lambda>i. length s - 1 - i) (find_first_not_of P (rev s))"

definition find_last_of :: "char \<Rightarrow> string \<Rightarrow> nat option" where
  "find_last_of c s = map_option (\<lambda>i. length s - 1 - i) (find_char c (rev s))"

definition substr :: "string \<Rightarrow> nat \<Rightarrow> nat \<Rightarrow> string" where
  "substr s pos n = take n (drop pos s)"

lemma find_char_None_iff: "find_char c s = None \<longleftrightarrow> c \<notin> set s"
  by (induction s) auto

lemma find_char_append [str_simps]: "c \<notin> set a \<Longrightarrow> find_char c (a @ c # b) = Some (length a)"
  by (induction a) auto

lemma find_char_SomeD:
  "find_char c s = Some i \<Longrightarrow>
     i < length s \<and> c \<notin> set (take i s) \<and> s = take i s @ c # drop (Suc i) s"
  by (induction s arbitrary: i) (auto split: if_splits)

lemma find_char_less: "find_char c s = Some i \<Longrightarrow> i < length s"
  by (blast dest: find_char_SomeD)

lemma find_char_nth: "find_char c s = Some i \<Longrightarrow> s ! i = c"
  by (induction s arbitrary: i) (auto split: if_splits)

lemma find_char_from_SomeD:
  assumes "find_char_from c pos s = Some i"
  shows "pos \<le> i \<and> i < length s \<and> s ! i = c"
proof -
  from assms obtain j where j: "find_char c (drop pos s) = Some j" "i = pos + j"
    by (auto simp: find_char_from_def)
  have "j < length (drop pos s)" and "drop pos s ! j = c"
    using j(1) by (rule find_char_less, rule find_char_nth)
  with j(2) show ?thesis by auto
qed

lemma find_str_append:
  "find_str p s = Some i \<Longrightarrow> find_str p (s @ t) = Some i"
proof (induction s arbitrary: i)
  case Nil
  then show ?case by (cases t) (auto split: if_splits)
next
  case (Cons x xs)
  show ?case
  proof (cases "prefix p (x # xs)")
    case True
    then have "prefix p (x # xs @ t)" by (metis append_Cons prefix_prefix)
    with True Cons.prems show ?thesis by simp
  next
    case False
    with Cons.prems obtain j where j: "find_str p xs = Some j" "i = Suc j" by auto
    have "\<not> prefix p (x # xs @ t)"
    proof
      assume p: "prefix p (x # xs @ t)"
      have "length p \<le> length (x # xs)"
        using j(1) by (induction xs arbitrary: j) (auto split: if_splits dest: prefix_length_le)
      with p have "prefix p (x # xs)"
        by (metis append_Cons prefix_length_prefix prefixI)
      with False show False by simp
    qed
    with Cons.IH [OF j(1)] j(2) show ?thesis by simp
  qed
qed

lemma find_str_None_append: "find_str p (s @ t) = None \<Longrightarrow> find_str p s = None"
  by (cases "find_str p s") (auto dest: find_str_append [where t = t])

lemma find_str_SomeD:
  "find_str p s = Some i \<Longrightarrow>
     i + length p \<le> length s \<and> s = take i s @ p @ drop (i + length p) s"
proof (induction s arbitrary: i)
  case Nil
  then show ?case by (auto split: if_splits)
next
  case (Cons x xs)
  show ?case
  proof (cases "prefix p (x # xs)")
    case True
    with Cons.prems show ?thesis
      by (auto dest: prefix_length_le) (metis append_eq_conv_conj prefixE)
  next
    case False
    with Cons.prems obtain j where "find_str p xs = Some j" "i = Suc j" by auto
    with Cons.IH [of j] show ?thesis by auto
  qed
qed

lemma find_crlf_le: "find_str crlf s = Some i \<Longrightarrow> i + 2 \<le> length s"
  using find_str_SomeD [of crlf s i] by simp

lemma drop_line: "drop (length l + 2) (l @ CR # LF # r) = r"
  by simp

lemma substr_line: "substr (l @ r) 0 (length l) = l"
  by (simp add: substr_def)

text \<open>A late match: what was not found in a prefix ends beyond it.\<close>

lemma find_str_append_late:
  assumes "find_str p s = None" and "find_str p (s @ t) = Some i"
  shows "length s < i + length p"
  using assms
proof (induction s arbitrary: i)
  case Nil
  then show ?case by (cases p) (auto split: if_splits)
next
  case (Cons x xs)
  from Cons.prems(1) have np: "\<not> prefix p (x # xs)" and n: "find_str p xs = None"
    by (auto split: if_splits)
  show ?case
  proof (cases "prefix p (x # xs @ t)")
    case True
    have "length (x # xs) < length p"
    proof (rule ccontr)
      assume "\<not> length (x # xs) < length p"
      with True have "prefix p (x # xs)"
        by (metis append_Cons not_less prefix_length_prefix prefixI)
      with np show False by simp
    qed
    with True Cons.prems(2) show ?thesis by simp
  next
    case False
    with Cons.prems(2) obtain j where "find_str p (xs @ t) = Some j" "i = Suc j" by auto
    with Cons.IH [OF n] show ?thesis by auto
  qed
qed

lemma find_crlf_append [str_simps]:
  "CR \<notin> set a \<Longrightarrow> find_str crlf (a @ CR # LF # b) = Some (length a)"
  by (induction a) auto

lemma find_first_not_of_None_iff: "find_first_not_of P s = None \<longleftrightarrow> (\<forall>c\<in>set s. P c)"
  by (induction s) auto

lemma find_first_not_of_dropWhile:
  "find_first_not_of P s = Some i \<Longrightarrow> drop i s = dropWhile P s \<and> i < length s"
  by (induction s arbitrary: i) (auto split: if_splits)

lemma find_first_not_of_append:
  "\<forall>c\<in>set u. P c \<Longrightarrow> \<not> P x \<Longrightarrow> find_first_not_of P (u @ x # s) = Some (length u)"
  by (induction u) auto

lemma find_last_not_of_append:
  "\<forall>c\<in>set w. P c \<Longrightarrow> \<not> P x \<Longrightarrow> find_last_not_of P (s @ x # w) = Some (length s)"
  by (simp add: find_last_not_of_def find_first_not_of_append)

lemma find_last_of_None_iff: "find_last_of c s = None \<longleftrightarrow> c \<notin> set s"
  by (simp add: find_last_of_def find_char_None_iff)

lemma find_last_of_append [str_simps]:
  "c \<notin> set b \<Longrightarrow> find_last_of c (a @ c # b) = Some (length a)"
  by (simp add: find_last_of_def find_char_append)

subsection \<open>std::getline over an in-memory stream\<close>

text \<open>
  One call extracts up to the delimiter, which it discards, and fails only when nothing is
  left to extract. The loop \<open>while (std::getline(stream, piece, delim))\<close> visits
  \<open>getlines\<close>.
\<close>

definition getline :: "char \<Rightarrow> string \<Rightarrow> (string \<times> string) option" where
  "getline d s = (if s = [] then None
     else Some (takeWhile (\<lambda>c. c \<noteq> d) s, drop 1 (dropWhile (\<lambda>c. c \<noteq> d) s)))"

lemma getline_shorter: "getline d s = Some (l, r) \<Longrightarrow> length r < length s"
  using length_dropWhile_le [of "\<lambda>c. c \<noteq> d" s]
  by (cases s) (auto simp: getline_def split: if_splits)

function getlines :: "char \<Rightarrow> string \<Rightarrow> string list" where
  "getlines d s = (case getline d s of None \<Rightarrow> [] | Some (l, r) \<Rightarrow> l # getlines d r)"
  by pat_completeness auto
termination
  by (relation "measure (\<lambda>(d, s). length s)") (auto dest: getline_shorter)

declare getlines.simps [simp del]

lemma until_delim_all:
  "d \<notin> set l \<Longrightarrow> takeWhile (\<lambda>c. c \<noteq> d) l = l \<and> dropWhile (\<lambda>c. c \<noteq> d) l = []"
  by (induction l) auto

lemma until_delim_append:
  "d \<notin> set l \<Longrightarrow> takeWhile (\<lambda>c. c \<noteq> d) (l @ d # s) = l \<and>
     dropWhile (\<lambda>c. c \<noteq> d) (l @ d # s) = d # s"
  by (induction l) auto

lemma getlines_Nil [simp]: "getlines d [] = []"
  by (simp add: getlines.simps getline_def)

lemma getlines_last: "l \<noteq> [] \<Longrightarrow> d \<notin> set l \<Longrightarrow> getlines d l = [l]"
  by (subst getlines.simps) (simp add: getline_def until_delim_all)

lemma getlines_append: "d \<notin> set l \<Longrightarrow> getlines d (l @ d # s) = l # getlines d s"
  by (subst getlines.simps) (simp add: getline_def until_delim_append)

subsection \<open>Integers to text\<close>

fun dec_nat :: "nat \<Rightarrow> string" where
  "dec_nat n = (if n < 10 then [char_of (48 + n)]
                else dec_nat (n div 10) @ [char_of (48 + n mod 10)])"

declare dec_nat.simps [simp del]

definition dec_int :: "int \<Rightarrow> string" where
  "dec_int i = (if i < 0 then CHR ''-'' # dec_nat (nat (- i)) else dec_nat (nat i))"

lemma dec_nat_nonempty [simp]: "dec_nat n \<noteq> []"
  by (subst dec_nat.simps) simp

lemma isdigit_char_of: "d < 10 \<Longrightarrow> isdigit (char_of (48 + d :: nat))"
  by (simp add: isdigit_def)

lemma dec_nat_digits: "\<forall>c\<in>set (dec_nat n). isdigit c"
proof (induction n rule: dec_nat.induct)
  case (1 n)
  then show ?case
    by (subst dec_nat.simps) (auto simp: isdigit_char_of)
qed

subsection \<open>Text to integers\<close>

definition digits_val :: "string \<Rightarrow> nat" where
  "digits_val ds = foldl (\<lambda>a c. a * 10 + (ord_c c - 48)) 0 ds"

lemma digits_val_snoc: "digits_val (ds @ [c]) = digits_val ds * 10 + (ord_c c - 48)"
  by (simp add: digits_val_def)

lemma digits_val_dec_nat [simp]: "digits_val (dec_nat n) = n"
proof (induction n rule: dec_nat.induct)
  case (1 n)
  show ?case
  proof (cases "n < 10")
    case True
    then show ?thesis by (subst dec_nat.simps) (simp add: digits_val_def)
  next
    case False
    with 1 show ?thesis by (subst dec_nat.simps) (simp add: digits_val_snoc)
  qed
qed

text \<open>
  The integer at the front of a text as \<open>strtol\<close> and its kin read it in base 10: leading
  white space, an optional sign, digits. \<^term>\<open>None\<close> when no digit follows (no
  conversion); otherwise the value and what was not consumed.
\<close>

definition scan_sign :: "string \<Rightarrow> bool \<times> string" where
  "scan_sign s = (case s of [] \<Rightarrow> (False, [])
     | c # r \<Rightarrow> if c = CHR ''-'' then (True, r) else if c = CHR ''+'' then (False, r) else (False, s))"

definition scan_int :: "string \<Rightarrow> (int \<times> string) option" where
  "scan_int s =
     (let (neg, r) = scan_sign (dropWhile isspace s);
          ds = takeWhile isdigit r
      in if ds = [] then None
         else Some (if neg then - int (digits_val ds) else int (digits_val ds), dropWhile isdigit r))"

text \<open>
  \<open>strtoll(s.c_str(), &end, 10)\<close>: the C string stops at the first NUL, the value saturates
  at the bounds of \<open>long long\<close>. The result is the value and, for \<open>end\<close>, \<^term>\<open>None\<close>
  when \<open>end\<close> is the start of the text and else the unconsumed rest.
\<close>

definition c_str :: "string \<Rightarrow> string" where
  "c_str s = takeWhile (\<lambda>c. c \<noteq> NUL) s"

definition llong_max :: int where "llong_max = 2 ^ 63 - 1"
definition llong_min :: int where "llong_min = - (2 ^ 63)"

definition strtoll :: "string \<Rightarrow> int \<times> string option" where
  "strtoll s = (case scan_int (c_str s) of
       None \<Rightarrow> (0, None)
     | Some (v, r) \<Rightarrow> (max llong_min (min llong_max v), Some r))"

text \<open>
  \<open>std::stoi(s)\<close>: \<open>invalid_argument\<close> without a conversion, \<open>out_of_range\<close> beyond
  \<open>int\<close>, both \<^term>\<open>None\<close> (its only caller treats every exception alike).
\<close>

definition stoi :: "string \<Rightarrow> int option" where
  "stoi s = (case scan_int (c_str s) of
       None \<Rightarrow> None
     | Some (v, r) \<Rightarrow> if - (2 ^ 31) \<le> v \<and> v < 2 ^ 31 then Some v else None)"

lemma isdigit_not_space: "isdigit c \<Longrightarrow> \<not> isspace c \<and> c \<noteq> NUL \<and> c \<noteq> CHR ''-'' \<and> c \<noteq> CHR ''+''"
  by (auto simp: isdigit_def isspace_def)

lemma takeWhile_all: "\<forall>c\<in>set ds. P c \<Longrightarrow> takeWhile P ds = ds"
  by simp

lemma scan_int_digits:
  assumes "ds \<noteq> []" and "\<forall>c\<in>set ds. isdigit c"
  shows "scan_int ds = Some (int (digits_val ds), [])"
proof -
  have "dropWhile isspace ds = ds"
    using assms by (cases ds) (auto dest: isdigit_not_space)
  moreover have "scan_sign ds = (False, ds)"
    using assms by (cases ds) (auto simp: scan_sign_def dest: isdigit_not_space)
  ultimately show ?thesis
    using assms by (simp add: scan_int_def Let_def takeWhile_all)
qed

lemma c_str_digits: "\<forall>c\<in>set ds. isdigit c \<Longrightarrow> c_str ds = ds"
  unfolding c_str_def takeWhile_eq_all_conv by (auto dest: isdigit_not_space)

lemma strtoll_dec_nat: "int n \<le> llong_max \<Longrightarrow> strtoll (dec_nat n) = (int n, Some [])"
  using scan_int_digits [OF dec_nat_nonempty dec_nat_digits [of n]]
  by (simp add: strtoll_def c_str_digits [OF dec_nat_digits] llong_min_def)

lemma stoi_dec_nat: "int n < 2 ^ 31 \<Longrightarrow> stoi (dec_nat n) = Some (int n)"
  using scan_int_digits [OF dec_nat_nonempty dec_nat_digits [of n]]
  by (simp add: stoi_def c_str_digits [OF dec_nat_digits])

end
