(* ===== verification/File_System.thy ===== *)
theory File_System
  imports Cpp_String
begin

section \<open>The file system and \<open>std::filesystem\<close>\<close>

text \<open>
  What the static file handler uses of the standard library: path concatenation,
  \<open>is_regular_file\<close>, \<open>canonical\<close>, \<open>weakly_canonical\<close> and \<open>std::ifstream\<close>, over a POSIX
  file system as an explicit tree. A node is named by its components from the root directory;
  name resolution follows symbolic links, at most 40 of them as on Linux, and treats \<open>.\<close>,
  \<open>..\<close>, repeated and trailing slashes as POSIX does. System calls see a path up to its first
  NUL. Search permissions on directories are not modelled.
\<close>

type_synonym fpath = "string list"

datatype inode = Directory | Regular string | Unreadable | Symlink string | Special

record filesystem =
  fs_nodes :: "fpath \<rightharpoonup> inode"
  fs_cwd :: fpath

definition fs_node :: "filesystem \<Rightarrow> fpath \<Rightarrow> inode option" where
  "fs_node fs p = (if p = [] then Some Directory else fs_nodes fs p)"

definition is_dir :: "filesystem \<Rightarrow> fpath \<Rightarrow> bool" where
  "is_dir fs p \<longleftrightarrow> fs_node fs p = Some Directory"

abbreviation slash :: char where "slash \<equiv> CHR ''/''"
abbreviation dot :: string where "dot \<equiv> ''.''"
abbreviation dotdot :: string where "dotdot \<equiv> ''..''"

fun split_on :: "char \<Rightarrow> string \<Rightarrow> string list" where
  "split_on d [] = [[]]"
| "split_on d (c # s) =
     (if c = d then [] # split_on d s
      else case split_on d s of [] \<Rightarrow> [[c]] | x # xs \<Rightarrow> (c # x) # xs)"

text \<open>
  Name resolution. \<open>Missing\<close> stands for \<open>ENOENT\<close> and \<open>ENOTDIR\<close>, which the library reports
  as a file that is not found, and \<open>Failed\<close> for \<open>ELOOP\<close>, which it reports as an error.
\<close>

datatype walk_result = Found fpath | Missing | Failed

definition max_links :: nat where "max_links = 40"

definition absolute_path :: "string \<Rightarrow> bool" where
  "absolute_path s \<longleftrightarrow> (case s of c # _ \<Rightarrow> c = slash | [] \<Rightarrow> False)"

function walk :: "filesystem \<Rightarrow> nat \<Rightarrow> fpath \<Rightarrow> string list \<Rightarrow> walk_result" where
  "walk fs n cur [] = Found cur"
| "walk fs n cur (c # cs) =
     (if \<not> is_dir fs cur then Missing
      else if c = [] \<or> c = dot then walk fs n cur cs
      else if c = dotdot then walk fs n (butlast cur) cs
      else case fs_node fs (cur @ [c]) of
          None \<Rightarrow> Missing
        | Some (Symlink t) \<Rightarrow>
            (case n of
               0 \<Rightarrow> Failed
             | Suc m \<Rightarrow> walk fs m (if absolute_path t then [] else cur) (split_on slash t @ cs))
        | Some _ \<Rightarrow> walk fs n (cur @ [c]) cs)"
  by pat_completeness auto
termination
  by (relation "measures [\<lambda>(fs, n, cur, cs). n, \<lambda>(fs, n, cur, cs). length cs]") auto

definition start_dir :: "filesystem \<Rightarrow> string \<Rightarrow> fpath" where
  "start_dir fs s = (if absolute_path s then [] else fs_cwd fs)"

text \<open>\<open>stat\<close>: the empty name does not exist.\<close>

definition stat :: "filesystem \<Rightarrow> string \<Rightarrow> walk_result" where
  "stat fs p =
     (let s = c_str p
      in if s = [] then Missing else walk fs max_links (start_dir fs s) (split_on slash s))"

definition is_regular_file :: "filesystem \<Rightarrow> string \<Rightarrow> bool" where
  "is_regular_file fs p =
     (case stat fs p of
        Found q \<Rightarrow> (case fs_node fs q of Some (Regular _) \<Rightarrow> True | Some Unreadable \<Rightarrow> True | _ \<Rightarrow> False)
      | _ \<Rightarrow> False)"

text \<open>An input stream: \<^term>\<open>None\<close> when it does not open, else the bytes it delivers.\<close>

definition ifstream_read :: "filesystem \<Rightarrow> string \<Rightarrow> string option" where
  "ifstream_read fs p =
     (case stat fs p of
        Found q \<Rightarrow> (case fs_node fs q of Some (Regular s) \<Rightarrow> Some s | _ \<Rightarrow> None)
      | _ \<Rightarrow> None)"

subsection \<open>Paths\<close>

definition path_append :: "string \<Rightarrow> string \<Rightarrow> string" where
  "path_append p r =
     (if absolute_path r then r
      else if p = [] \<or> last p = slash then p @ r
      else p @ slash # r)"

definition render_path :: "fpath \<Rightarrow> string" where
  "render_path q = (if q = [] then [slash] else concat (map (\<lambda>n. slash # n) q))"

text \<open>The elements of a path after its root, with an empty one for a trailing slash.\<close>

definition path_elems :: "string \<Rightarrow> string list" where
  "path_elems p =
     (let ns = filter (\<lambda>n. n \<noteq> []) (split_on slash p)
      in if ns \<noteq> [] \<and> last p = slash then ns @ [[]] else ns)"

fun norm_step :: "bool \<Rightarrow> string \<Rightarrow> string list \<times> bool \<Rightarrow> string list \<times> bool" where
  "norm_step rooted e (st, trailing) =
     (if e = [] \<or> e = dot then (st, True)
      else if e = dotdot then
        (case st of
           [] \<Rightarrow> (if rooted then ([], trailing) else ([dotdot], False))
         | t # rest \<Rightarrow> (if t = dotdot then (dotdot # st, False) else (rest, True)))
      else (e # st, False))"

definition lexically_normal :: "bool \<Rightarrow> string list \<Rightarrow> string" where
  "lexically_normal rooted es =
     (case fold (norm_step rooted) es ([], False) of
        (st, trailing) \<Rightarrow>
          if st = [] then (if rooted then [slash] else dot)
          else (if rooted then [slash] else []) @ join [slash] (rev st) @
               (if trailing \<and> hd st \<noteq> dotdot then [slash] else []))"

definition canonical :: "filesystem \<Rightarrow> string \<Rightarrow> string option" where
  "canonical fs p =
     (if p = [] then None
      else case walk fs max_links (start_dir fs p) (split_on slash (c_str p)) of
          Found q \<Rightarrow> Some (render_path q)
        | _ \<Rightarrow> None)"

text \<open>
  The loop of \<open>weakly_canonical\<close> over the elements: the longest prefix that exists and the
  elements after it; \<^term>\<open>None\<close> is an error other than a missing file.
\<close>

fun existing_prefix ::
  "filesystem \<Rightarrow> string \<Rightarrow> string list \<Rightarrow> (string \<times> string list) option" where
  "existing_prefix fs p [] = Some (p, [])"
| "existing_prefix fs p (e # es) =
     (case stat fs (path_append p e) of
        Found _ \<Rightarrow> existing_prefix fs (path_append p e) es
      | Missing \<Rightarrow> Some (p, e # es)
      | Failed \<Rightarrow> None)"

definition weakly_canonical :: "filesystem \<Rightarrow> string \<Rightarrow> string option" where
  "weakly_canonical fs p =
     (if p = [] then Some []
      else case stat fs p of
          Found _ \<Rightarrow> canonical fs p
        | Failed \<Rightarrow> None
        | Missing \<Rightarrow>
            (case existing_prefix fs (if absolute_path p then [slash] else []) (path_elems p) of
               None \<Rightarrow> None
             | Some (r, rest) \<Rightarrow>
                 if r = [] then Some (lexically_normal False rest)
                 else (case canonical fs r of
                         None \<Rightarrow> None
                       | Some q \<Rightarrow> Some (lexically_normal True (path_elems q @ rest)))))"

subsection \<open>Splitting and rendering\<close>

lemma split_on_ne [simp]: "split_on d s \<noteq> []"
  by (induction s) (auto split: list.split)

lemma split_on_Cons:
  "split_on d (c # s) =
     (if c = d then [] # split_on d s else (c # hd (split_on d s)) # tl (split_on d s))"
  by (cases "split_on d s") simp_all

lemmas split_on_simps [simp] = split_on.simps(1) split_on_Cons
declare split_on.simps(2) [simp del]

lemma split_on_append: "split_on d (xs @ d # ys) = split_on d xs @ split_on d ys"
  by (induction xs) auto

lemma split_on_prefix:
  "d \<notin> set xs \<Longrightarrow> split_on d (xs @ ys) = (xs @ hd (split_on d ys)) # tl (split_on d ys)"
  by (induction xs) auto

lemma split_on_single: "d \<notin> set xs \<Longrightarrow> split_on d xs = [xs]"
  using split_on_prefix [of d xs "[]"] by simp

lemma split_on_elem: "x \<in> set (split_on d s) \<Longrightarrow> d \<notin> set x"
proof (induction s arbitrary: x)
  case (Cons c s)
  then show ?case
    by (cases "split_on d s") (auto split: if_splits)
qed simp

lemma split_on_slashed:
  "\<forall>n\<in>set q. d \<notin> set n \<Longrightarrow> split_on d (concat (map (\<lambda>n. d # n) q) @ d # v) = [] # q @ split_on d v"
proof (induction q)
  case (Cons n q)
  then have "split_on d (d # n @ concat (map (\<lambda>n. d # n) q) @ d # v) =
      [] # split_on d (n @ concat (map (\<lambda>n. d # n) q) @ d # v)" by simp
  also have "\<dots> = [] # n # q @ split_on d v"
    using Cons by (subst split_on_prefix) simp_all
  finally show ?case by simp
qed simp

lemma split_on_slashed_word:
  "\<forall>n\<in>set q. d \<notin> set n \<Longrightarrow> d \<notin> set w \<Longrightarrow>
     split_on d (concat (map (\<lambda>n. d # n) q) @ d # w) = [] # q @ [w]"
  by (simp add: split_on_slashed split_on_single)

lemma c_str_append: "NUL \<notin> set xs \<Longrightarrow> c_str (xs @ ys) = xs @ c_str ys"
  by (induction xs) (auto simp: c_str_def)

text \<open>Cutting a path at a NUL only affects its last element.\<close>

lemma split_on_takeWhile:
  "P d \<Longrightarrow> prefix (butlast (split_on d (takeWhile P s))) (split_on d s)"
proof (induction s)
  case (Cons c s)
  then show ?case
    by (cases "split_on d (takeWhile P s)"; cases "split_on d s")
      (auto split: if_splits)
qed simp

definition no_up :: "string \<Rightarrow> bool" where
  "no_up s \<longleftrightarrow> dotdot \<notin> set (split_on slash s)"

lemma no_up_c_str: "no_up s \<Longrightarrow> dotdot \<notin> set (butlast (split_on slash (c_str s)))"
  using split_on_takeWhile [of "\<lambda>c. c \<noteq> NUL" slash s] set_mono_prefix
  by (fastforce simp: no_up_def c_str_def)

subsection \<open>Well-formed trees and name resolution\<close>

definition proper_name :: "string \<Rightarrow> bool" where
  "proper_name n \<longleftrightarrow> n \<noteq> [] \<and> n \<noteq> dot \<and> n \<noteq> dotdot \<and> slash \<notin> set n \<and> NUL \<notin> set n"

definition is_link :: "filesystem \<Rightarrow> fpath \<Rightarrow> bool" where
  "is_link fs p \<longleftrightarrow> (\<exists>t. fs_node fs p = Some (Symlink t))"

text \<open>Every node other than the root has a proper name and stands in a directory.\<close>

definition fs_wf :: "filesystem \<Rightarrow> bool" where
  "fs_wf fs \<longleftrightarrow> is_dir fs (fs_cwd fs) \<and>
     (\<forall>p n. fs_nodes fs (p @ [n]) \<noteq> None \<longrightarrow> is_dir fs p \<and> proper_name n)"

definition real_node :: "filesystem \<Rightarrow> fpath \<Rightarrow> bool" where
  "real_node fs p \<longleftrightarrow> fs_node fs p \<noteq> None \<and> \<not> is_link fs p"

lemma is_dir_root [simp]: "is_dir fs []"
  by (simp add: is_dir_def fs_node_def)

lemma is_dir_real: "is_dir fs p \<Longrightarrow> real_node fs p"
  by (simp add: is_dir_def real_node_def is_link_def)

lemma fs_wf_snoc: "fs_wf fs \<Longrightarrow> fs_node fs (p @ [n]) \<noteq> None \<Longrightarrow> is_dir fs p \<and> proper_name n"
  by (simp add: fs_wf_def fs_node_def)

lemma fs_wf_parent: "fs_wf fs \<Longrightarrow> is_dir fs p \<Longrightarrow> is_dir fs (butlast p)"
  using fs_wf_snoc [of fs "butlast p" "last p"]
  by (cases "p = []") (simp_all add: is_dir_def)

lemma fs_wf_names: "fs_wf fs \<Longrightarrow> fs_node fs p \<noteq> None \<Longrightarrow> n \<in> set p \<Longrightarrow> proper_name n"
proof (induction p rule: rev_induct)
  case (snoc m p)
  from fs_wf_snoc [OF snoc.prems(1,2)] snoc show ?case by (auto simp: is_dir_def)
qed simp

lemma walk_Cons_Found:
  assumes "walk fs n cur (c # cs) = Found q"
  obtains "is_dir fs cur" and "walk fs n cur cs = Found q"
  | "is_dir fs cur" and "c = dotdot" and "walk fs n (butlast cur) cs = Found q"
  | "is_dir fs cur" and "c \<noteq> dotdot" and "real_node fs (cur @ [c])" and "walk fs n (cur @ [c]) cs = Found q"
  | m t where "is_dir fs cur" and "is_link fs (cur @ [c])" and "n = Suc m"
      and "walk fs m (if absolute_path t then [] else cur) (split_on slash t @ cs) = Found q"
proof -
  have dir: "is_dir fs cur" using assms by (auto split: if_splits)
  show ?thesis
  proof (cases "c = [] \<or> c = dot \<or> c = dotdot")
    case True
    with assms dir show ?thesis using that(1,2) by (auto split: if_splits)
  next
    case False
    with assms dir obtain x where x: "fs_node fs (cur @ [c]) = Some x"
      by (auto split: option.splits)
    show ?thesis
    proof (cases "is_link fs (cur @ [c])")
      case True
      with assms dir False show ?thesis
        using that(4) by (auto simp: is_link_def split: nat.splits)
    next
      case notlink: False
      with assms dir False x have "walk fs n (cur @ [c]) cs = Found q"
        by (cases x) (auto simp: is_link_def)
      with x notlink dir False show ?thesis using that(3) by (simp add: real_node_def)
    qed
  qed
qed

lemma walk_real:
  assumes "fs_wf fs"
  shows "real_node fs cur \<Longrightarrow> walk fs n cur cs = Found q \<Longrightarrow> real_node fs q"
proof (induction n arbitrary: cur cs rule: less_induct)
  case (less n)
  note outer = less.IH
  from less.prems show ?case
  proof (induction cs arbitrary: cur)
    case (Cons c cs)
    from Cons.prems(2) show ?case
    proof (cases rule: walk_Cons_Found)
      case 1
      with Cons show ?thesis by blast
    next
      case 2
      with Cons.IH is_dir_real [OF fs_wf_parent [OF assms 2(1)]] show ?thesis by blast
    next
      case 3
      with Cons.IH show ?thesis by blast
    next
      case (4 m t)
      then show ?thesis using outer [of m] is_dir_real [of fs cur] is_dir_real [OF is_dir_root]
        by (auto split: if_splits)
    qed
  qed simp
qed

lemma fs_wf_ancestor:
  "fs_wf fs \<Longrightarrow> fs_node fs p \<noteq> None \<Longrightarrow> strict_prefix p' p \<Longrightarrow> is_dir fs p'"
proof (induction p rule: rev_induct)
  case (snoc m p)
  then have "p' = p \<or> strict_prefix p' p" by (auto simp: strict_prefix_def)
  with snoc fs_wf_snoc [OF snoc.prems(1), of p m] show ?case by (auto simp: is_dir_def)
qed simp

text \<open>A canonical path is walked without following a link.\<close>

lemma walk_real_names:
  "fs_wf fs \<Longrightarrow> real_node fs (cur @ q) \<Longrightarrow> walk fs n cur (q @ cs) = walk fs n (cur @ q) cs"
proof (induction q arbitrary: cur)
  case (Cons c q)
  have node: "fs_node fs ((cur @ [c]) @ q) \<noteq> None" using Cons.prems(2) by (simp add: real_node_def)
  have c: "real_node fs (cur @ [c])"
  proof (cases "q = []")
    case False
    with fs_wf_ancestor [OF Cons.prems(1) node, of "cur @ [c]"] is_dir_real show ?thesis
      by (auto simp: strict_prefix_def)
  qed (use Cons.prems in simp)
  then have "is_dir fs cur \<and> proper_name c"
    using fs_wf_snoc [OF Cons.prems(1), of cur c] by (simp add: real_node_def)
  with c have "walk fs n cur (c # (q @ cs)) = walk fs n (cur @ [c]) (q @ cs)"
    by (auto simp: real_node_def is_link_def proper_name_def split: option.split inode.split)
  with Cons show ?case by simp
qed simp

lemma walk_real_path: "fs_wf fs \<Longrightarrow> real_node fs q \<Longrightarrow> walk fs n [] ([] # q @ cs) = walk fs n q cs"
  using walk_real_names [of fs "[]" q] by simp

text \<open>
  Below a directory without symbolic links, a path that climbs with its last element at most
  leads to a directory or to a node below.
\<close>

lemma walk_confined:
  "fs_wf fs \<Longrightarrow> \<forall>r. \<not> is_link fs (root @ r) \<or> r = [] \<Longrightarrow> prefix root cur \<Longrightarrow>
   dotdot \<notin> set (butlast cs) \<Longrightarrow> walk fs n cur cs = Found q \<Longrightarrow> \<not> is_dir fs q \<Longrightarrow> prefix root q"
proof (induction cs arbitrary: cur)
  case (Cons c cs)
  from Cons.prems(5) have dir: "is_dir fs cur" by (auto split: if_splits)
  have rest: "dotdot \<notin> set (butlast cs)" using Cons.prems(4) by (auto split: if_splits)
  show ?case
  proof (cases "c = dotdot")
    case True
    with Cons.prems(4) have "cs = []" by (auto split: if_splits)
    with True Cons.prems(5,6) dir fs_wf_parent [OF Cons.prems(1) dir] show ?thesis by simp
  next
    case False
    have "\<not> is_link fs (cur @ [c])"
      using Cons.prems(2,3) by (auto simp: prefix_def)
    with Cons.prems(5) False have "walk fs n cur cs = Found q \<or> walk fs n (cur @ [c]) cs = Found q"
      by (elim walk_Cons_Found) auto
    with Cons.IH [OF Cons.prems(1,2) _ rest] Cons.prems(3,6) prefix_prefix
    show ?thesis by blast
  qed
qed auto

lemma render_append:
  "q \<noteq> [] \<Longrightarrow> render_path q = concat (map (\<lambda>n. slash # n) (butlast q)) @ slash # last q"
  by (induction q) (auto simp: render_path_def)

lemma render_absolute: "absolute_path (render_path q)"
  by (cases q) (simp_all add: absolute_path_def render_path_def)

lemma absolute_append: "absolute_path s \<Longrightarrow> absolute_path (s @ t)"
  by (cases s) (simp_all add: absolute_path_def)

lemma absolute_c_str: "absolute_path s \<Longrightarrow> absolute_path (c_str s) \<and> c_str s \<noteq> []"
  by (cases s) (auto simp: absolute_path_def c_str_def)

text \<open>
  The string prefix test confines a path without \<open>..\<close> to a directory, when nothing below it
  is a symbolic link and no name beside it extends its name.
\<close>

definition no_links_below :: "filesystem \<Rightarrow> fpath \<Rightarrow> bool" where
  "no_links_below fs root \<longleftrightarrow> (\<forall>r. r = [] \<or> \<not> is_link fs (root @ r))"

definition no_siblings :: "filesystem \<Rightarrow> fpath \<Rightarrow> bool" where
  "no_siblings fs root \<longleftrightarrow>
     (root = [] \<or> (\<forall>x. x = [] \<or> fs_node fs (butlast root @ [last root @ x]) = None))"

lemma split_render:
  assumes "\<forall>n\<in>set q. proper_name n" and "q \<noteq> []"
  shows "split_on slash (render_path q) = [] # q"
    and "split_on slash (render_path q @ slash # v) = [] # q @ split_on slash v"
    and "split_on slash (render_path q @ v) =
           [] # butlast q @ (last q @ hd (split_on slash v)) # tl (split_on slash v)"
proof -
  have plain: "\<forall>n\<in>set q. slash \<notin> set n" "\<forall>n\<in>set (butlast q). slash \<notin> set n" "slash \<notin> set (last q)"
    using assms by (auto simp: proper_name_def dest: in_set_butlastD)
  then show "split_on slash (render_path q) = [] # q"
    using assms(2) by (simp add: render_append split_on_slashed_word)
  show "split_on slash (render_path q @ slash # v) = [] # q @ split_on slash v"
    using plain(1) assms(2) split_on_slashed [of q slash v] by (simp add: render_path_def)
  show "split_on slash (render_path q @ v) =
           [] # butlast q @ (last q @ hd (split_on slash v)) # tl (split_on slash v)"
    using plain(2,3) split_on_slashed [of "butlast q" slash "last q @ v"]
      split_on_prefix [of slash "last q" v]
    by (simp add: render_append [OF assms(2)])
qed

lemma real_names: "fs_wf fs \<Longrightarrow> real_node fs q \<Longrightarrow> \<forall>n\<in>set q. proper_name n"
  using fs_wf_names by (auto simp: real_node_def)

text \<open>A longer name beside the directory does not exist.\<close>

lemma walk_sibling:
  assumes "fs_wf fs" and "real_node fs root" and "no_siblings fs root" and "root \<noteq> []"
    and "v \<noteq> []" and "hd v \<noteq> slash"
  shows "walk fs n [] (split_on slash (render_path root @ v)) = Missing"
proof -
  let ?b = "butlast root" and ?x = "last root @ hd (split_on slash v)"
  have ne: "hd (split_on slash v) \<noteq> []" using assms(5,6) by (cases v) simp_all
  have "real_node fs ?b"
    using fs_wf_snoc [OF assms(1), of ?b "last root"] assms(2,4) is_dir_real
    by (simp add: real_node_def)
  then have "walk fs n [] (split_on slash (render_path root @ v)) =
      walk fs n ?b (?x # tl (split_on slash v))"
    by (simp only: split_render(3) [OF real_names [OF assms(1,2)] assms(4)]
        walk_real_path [OF assms(1)])
  moreover have "proper_name (last root)"
    using real_names [OF assms(1,2)] assms(4) by simp
  then have names: "?x \<noteq> []" "?x \<noteq> dot" "?x \<noteq> dotdot" 
    using ne by (auto simp: proper_name_def append_eq_Cons_conv)
  moreover have none: "fs_node fs (?b @ [?x]) = None"
    using assms(3,4) ne by (auto simp: no_siblings_def)
  have "walk fs n ?b (?x # cs) = Missing" for cs
    by (simp only: walk.simps names none) simp
  ultimately show ?thesis by (simp only:)
qed

lemma prefix_confined:
  assumes wf: "fs_wf fs" and root: "real_node fs root" and links: "no_links_below fs root"
    and sib: "no_siblings fs root" and s: "prefix (render_path root) s" "no_up s"
    and found: "stat fs s = Found q" and reg: "\<not> is_dir fs q"
  shows "prefix root q"
proof (cases "root = []")
  case False
  note names = real_names [OF wf root]
  from s(1) obtain u where u: "s = render_path root @ u" by (auto simp: prefix_def)
  define v where "v = c_str u"
  have "NUL \<notin> set (render_path root)"
    using names by (auto simp: proper_name_def render_path_def)
  then have c: "c_str s = render_path root @ v" by (simp add: u c_str_append v_def)
  have w: "walk fs max_links [] (split_on slash (render_path root @ v)) = Found q"
    using found absolute_append [OF render_absolute [of root], of v]
    by (auto simp: stat_def c Let_def start_dir_def absolute_path_def split: if_splits list.splits)
  consider "v = []" | v' where "v = slash # v'" | "v \<noteq> []" "hd v \<noteq> slash"
    by (cases v) auto
  then show ?thesis
  proof cases
    case 1
    with w walk_real_path [OF wf root, of max_links "[]"] show ?thesis
      by (simp add: split_render(1) [OF names False])
  next
    case 2
    note sp = split_render(2) [OF names False, of v']
    have up: "dotdot \<notin> set (butlast (split_on slash v'))"
      using no_up_c_str [OF s(2)] c 2 sp by (auto simp: butlast_append)
    from w 2 sp walk_real_path [OF wf root]
    have "walk fs max_links root (split_on slash v') = Found q" by simp
    from walk_confined [OF wf _ _ up this reg, of root] links show ?thesis
      by (auto simp: no_links_below_def)
  next
    case 3
    with w walk_sibling [OF wf root sib False] show ?thesis by simp
  qed
qed simp

subsection \<open>Canonical and weakly canonical paths\<close>

lemma render_no_up: "\<forall>n\<in>set q. proper_name n \<Longrightarrow> no_up (render_path q)"
  using split_render(1) [of q]
  by (cases "q = []") (auto simp: no_up_def proper_name_def render_path_def)

lemma canonical_real:
  assumes "fs_wf fs" and "canonical fs p = Some s"
  obtains q where "s = render_path q" and "real_node fs q"
proof -
  from assms(2) obtain q where "walk fs max_links (start_dir fs p) (split_on slash (c_str p)) = Found q"
    and s: "s = render_path q"
    by (auto simp: canonical_def split: if_splits walk_result.splits)
  moreover have "real_node fs (start_dir fs p)"
    using assms(1) by (simp add: start_dir_def fs_wf_def is_dir_real)
  ultimately show ?thesis using that walk_real [OF assms(1)] by blast
qed

lemma canonical_no_up: "fs_wf fs \<Longrightarrow> canonical fs p = Some s \<Longrightarrow> no_up s"
  by (metis canonical_real real_names render_no_up)

lemma path_elems_no_slash: "e \<in> set (path_elems p) \<Longrightarrow> slash \<notin> set e"
  using split_on_elem [of e slash p] by (auto simp: path_elems_def Let_def split: if_splits)

definition norm_name :: "string \<Rightarrow> bool" where
  "norm_name n \<longleftrightarrow> n \<noteq> [] \<and> n \<noteq> dotdot \<and> slash \<notin> set n"

lemma norm_step_names:
  "\<forall>n\<in>set (fst st). norm_name n \<Longrightarrow> slash \<notin> set e \<Longrightarrow>
     \<forall>n\<in>set (fst (norm_step True e st)). norm_name n"
  by (cases st) (auto simp: norm_name_def split: list.split)

lemma norm_fold_names:
  "\<forall>e\<in>set es. slash \<notin> set e \<Longrightarrow> \<forall>n\<in>set (fst st). norm_name n \<Longrightarrow>
     \<forall>n\<in>set (fst (fold (norm_step True) es st)). norm_name n"
proof (induction es arbitrary: st)
  case (Cons e es)
  then have "\<forall>n\<in>set (fst (norm_step True e st)). norm_name n" by (intro norm_step_names) auto
  with Cons show ?case by (simp only: fold_Cons comp_apply list.set) blast
qed simp

lemma join_slash: "ns \<noteq> [] \<Longrightarrow> slash # join [slash] ns = concat (map (\<lambda>n. slash # n) ns)"
proof (induction ns)
  case (Cons n ns)
  then show ?case by (cases "ns = []") (simp_all add: join_Cons)
qed simp

lemma lexically_normal_no_up:
  assumes "\<forall>e\<in>set es. slash \<notin> set e"
  shows "no_up (lexically_normal True es)"
proof -
  obtain st tr where f: "fold (norm_step True) es ([], False) = (st, tr)" by fastforce
  have names: "\<forall>n\<in>set (rev st). norm_name n"
    using norm_fold_names [OF assms, of "([], False)"] by (simp add: f)
  show ?thesis
  proof (cases "st = []")
    case True
    then show ?thesis by (simp add: lexically_normal_def f no_up_def)
  next
    case False
    let ?q = "rev st"
    have "slash # join [slash] ?q = concat (map (\<lambda>n. slash # n) (butlast ?q)) @ slash # last ?q"
      using False join_slash [of ?q] render_append [of ?q] by (simp add: render_path_def)
    moreover have "\<forall>n\<in>set (butlast ?q). slash \<notin> set n" "slash \<notin> set (last ?q)"
      using names False by (auto simp: norm_name_def last_rev dest!: in_set_butlastD list.set_sel(2) [rotated])
    ultimately have sp: "split_on slash (slash # join [slash] ?q) = [] # ?q"
      using split_on_slashed_word [of "butlast ?q" slash "last ?q"] False
      by (simp only: append_butlast_last_id rev_is_Nil_conv not_False_eq_True)
    then have "split_on slash ((slash # join [slash] ?q) @ slash # []) = [] # ?q @ [[]]"
      by (simp only: split_on_append) simp
    with sp names False show ?thesis
      by (auto simp: lexically_normal_def f no_up_def norm_name_def)
  qed
qed

lemma existing_prefix_rest:
  "existing_prefix fs r es = Some (r', rest) \<Longrightarrow> set rest \<subseteq> set es \<and> (r \<noteq> [] \<longrightarrow> r' \<noteq> [])"
proof (induction fs r es rule: existing_prefix.induct)
  case (2 fs p e es)
  have "p \<noteq> [] \<Longrightarrow> path_append p e \<noteq> []"
    by (auto simp: path_append_def absolute_path_def split: list.split)
  with 2 show ?case by (auto split: walk_result.splits)
qed simp

lemma weakly_canonical_no_up:
  assumes "fs_wf fs" and "absolute_path p" and "weakly_canonical fs p = Some s"
  shows "no_up s"
proof -
  have ne: "p \<noteq> []" using assms(2) by (auto simp: absolute_path_def)
  show ?thesis
  proof (cases "stat fs p")
    case (Found q)
    with assms(3) ne canonical_no_up [OF assms(1)] show ?thesis by (simp add: weakly_canonical_def)
  next
    case Missing
    with assms ne obtain r rest q where e: "existing_prefix fs [slash] (path_elems p) = Some (r, rest)"
      and s: "s = lexically_normal True (path_elems q @ rest)"
      by (auto simp: weakly_canonical_def split: option.splits if_splits
          dest: existing_prefix_rest)
    have "\<forall>e\<in>set (path_elems q @ rest). slash \<notin> set e"
      using existing_prefix_rest [OF e] path_elems_no_slash by auto
    then show ?thesis unfolding s by (rule lexically_normal_no_up)
  qed (use assms ne in \<open>simp add: weakly_canonical_def\<close>)
qed

end
