(* ===== verification/Codec.thy ===== *)
theory Codec
  imports Cpp_String
begin

section \<open>Text codecs of the API: escaping, percent-decoding, forms, flat JSON\<close>

text \<open>
  The free functions of \<open>src/src/api.cpp\<close>: \<open>jsonEscape\<close>, \<open>urlDecode\<close>,
  \<open>parseFormEncoded\<close>, \<open>skipSpace\<close>, \<open>readString\<close> and \<open>parseFlatJson\<close>.
  The source walks a text with an index \<open>i\<close>; the model walks the rest of the text from
  \<open>i\<close> on, so \<open>i + k < text.size()\<close> reads "at least \<open>k + 1\<close> characters are left".
  The lemmas give the round trips with an encoder, the error branches, and the two inputs
  on which \<open>jsonEscape\<close> does not produce JSON.
\<close>

subsection \<open>jsonEscape\<close>

text \<open>\<open>std::hex << n\<close>: lower case, no leading zero.\<close>

fun hex_nat :: "nat \<Rightarrow> string" where
  "hex_nat n = (if n < 16 then [xdigit_char n] else hex_nat (n div 16) @ [xdigit_char (n mod 16)])"

declare hex_nat.simps [simp del]

definition jsonEscape_char :: "char \<Rightarrow> string" where
  "jsonEscape_char c =
     (if c = DQUOTE then [BSLASH, DQUOTE]
      else if c = BSLASH then [BSLASH, BSLASH]
      else if c = LF then [BSLASH, CHR ''n'']
      else if c = CR then [BSLASH, CHR ''r'']
      else if c = TAB then [BSLASH, CHR ''t'']
      else if ord_c c < 32 then BSLASH # ''u00'' @ hex_nat (ord_c c)
      else [c])"

definition jsonEscape :: "string \<Rightarrow> string" where
  "jsonEscape text = concat (map jsonEscape_char text)"

subsection \<open>urlDecode\<close>

fun urlDecode :: "string \<Rightarrow> string" where
  "urlDecode [] = []"
| "urlDecode (c # s) =
     (if c = CHR ''+'' then CHR '' '' # urlDecode s
      else case s of
          a # b # r \<Rightarrow>
            if c = CHR ''%'' \<and> isxdigit a \<and> isxdigit b
            then char_of (16 * xdigit_val a + xdigit_val b) # urlDecode r
            else c # urlDecode s
        | _ \<Rightarrow> c # urlDecode s)"

subsection \<open>parseFormEncoded\<close>

definition parseFormPair ::
  "string \<Rightarrow> (string, string) std_map \<Rightarrow> (string, string) std_map" where
  "parseFormPair pair fields =
     (case find_char (CHR ''='') pair of
        None \<Rightarrow> fields
      | Some equals \<Rightarrow>
          map_insert (urlDecode (substr pair 0 equals)) (urlDecode (drop (equals + 1) pair)) fields)"

definition parseFormEncoded :: "string \<Rightarrow> (string, string) std_map" where
  "parseFormEncoded text = fold parseFormPair (getlines (CHR ''&'') text) []"

subsection \<open>parseFlatJson\<close>

definition skipSpace :: "string \<Rightarrow> string" where
  "skipSpace text = dropWhile isspace text"

definition unescape :: "char \<Rightarrow> char" where
  "unescape c = (if c = CHR ''n'' then LF else if c = CHR ''t'' then TAB
                 else if c = CHR ''r'' then CR else c)"

text \<open>The loop of \<open>readString\<close>: \<^term>\<open>None\<close> is the return of \<open>false\<close>.\<close>

fun readChars :: "string \<Rightarrow> string \<Rightarrow> (string \<times> string) option" where
  "readChars out [] = None"
| "readChars out (c # s) =
     (if c = DQUOTE then Some (out, s)
      else if c = BSLASH then
        (case s of d # r \<Rightarrow> readChars (out @ [unescape d]) r | [] \<Rightarrow> readChars (out @ [c]) s)
      else readChars (out @ [c]) s)"

definition readString :: "string \<Rightarrow> (string \<times> string) option" where
  "readString text = (case text of c # s \<Rightarrow> if c = DQUOTE then readChars [] s else None | [] \<Rightarrow> None)"

lemma readChars_shorter: "readChars out s = Some (v, r) \<Longrightarrow> length r < length s"
  by (induction out s rule: readChars.induct) (force split: if_splits list.splits)+

lemma readString_shorter: "readString s = Some (v, r) \<Longrightarrow> length r < length s"
  by (auto simp: readString_def split: list.splits if_splits dest: readChars_shorter)

lemma skipSpace_le: "length (skipSpace s) \<le> length s"
  by (simp add: skipSpace_def length_dropWhile_le)

text \<open>One field of the object: key, colon, value, and what follows.\<close>

definition readField :: "string \<Rightarrow> (string \<times> string \<times> string) option" where
  "readField s =
     (case readString (skipSpace s) of
        None \<Rightarrow> None
      | Some (key, s1) \<Rightarrow>
          (case skipSpace s1 of
             c # s2 \<Rightarrow>
               if c = CHR '':'' then
                 (case readString (skipSpace s2) of
                    None \<Rightarrow> None
                  | Some (val, s3) \<Rightarrow> Some (key, val, skipSpace s3))
               else None
           | [] \<Rightarrow> None))"

lemma readField_shorter: "readField s = Some (k, v, r) \<Longrightarrow> length r < length s"
proof -
  assume a: "readField s = Some (k, v, r)"
  then obtain s1 s2 s3 c where s: "readString (skipSpace s) = Some (k, s1)" "skipSpace s1 = c # s2"
    "readString (skipSpace s2) = Some (v, s3)" "r = skipSpace s3"
    by (auto simp: readField_def split: option.splits list.splits if_splits)
  have "length s1 < length s" "length s2 < length s1" "length s3 < length s2"
    using readString_shorter [OF s(1)] readString_shorter [OF s(3)] skipSpace_le [of s]
      skipSpace_le [of s1] skipSpace_le [of s2] s(2) by auto
  with s(4) skipSpace_le [of s3] show ?thesis by simp
qed

text \<open>
  The loop over the fields. The result is the map and the \<open>ok\<close> flag; every early
  \<open>return {}\<close> is the empty map with \<open>ok\<close> false.
\<close>

function parseFields ::
  "(string, string) std_map \<Rightarrow> string \<Rightarrow> (string, string) std_map \<times> bool" where
  "parseFields fields s =
     (if s = [] then ([], False)
      else case readField s of
          None \<Rightarrow> ([], False)
        | Some (key, val, r) \<Rightarrow>
            (case r of
               c # r' \<Rightarrow>
                 if c = CHR '','' then parseFields (map_insert key val fields) r'
                 else if c = CHR ''}'' then (map_insert key val fields, True)
                 else ([], False)
             | [] \<Rightarrow> ([], False)))"
  by pat_completeness auto
termination
  by (relation "measure (\<lambda>(f, s). length s)") (auto dest: readField_shorter)

declare parseFields.simps [simp del]

definition parseFlatJson :: "string \<Rightarrow> (string, string) std_map \<times> bool" where
  "parseFlatJson text =
     (case skipSpace text of
        c # r \<Rightarrow>
          if c = CHR ''{'' then
            (case skipSpace r of
               d # r' \<Rightarrow> if d = CHR ''}'' then ([], True) else parseFields [] (d # r')
             | [] \<Rightarrow> parseFields [] [])
          else ([], False)
      | [] \<Rightarrow> ([], False))"

subsection \<open>Percent-decoding inverts percent-encoding\<close>

text \<open>
  A client's encoder: letters and digits as they are, every other byte as \<open>%xx\<close>. It is
  the specification the decoder is measured against; the server itself never encodes.
\<close>

definition url_plain :: "char \<Rightarrow> bool" where
  "url_plain c \<longleftrightarrow> isdigit c \<or> (65 \<le> ord_c c \<and> ord_c c \<le> 90) \<or> (97 \<le> ord_c c \<and> ord_c c \<le> 122)"

definition urlEncode_char :: "char \<Rightarrow> string" where
  "urlEncode_char c = (if url_plain c then [c]
     else [CHR ''%'', xdigit_char (ord_c c div 16), xdigit_char (ord_c c mod 16)])"

definition urlEncode :: "string \<Rightarrow> string" where
  "urlEncode s = concat (map urlEncode_char s)"

lemma ord_c_xdigit: "n < 16 \<Longrightarrow> ord_c (xdigit_char n) = (if n < 10 then 48 + n else 87 + n)"
  by (simp add: xdigit_char_def)

lemma xdigit_char_isxdigit: "n < 16 \<Longrightarrow> isxdigit (xdigit_char n)"
  by (auto simp: isxdigit_def isdigit_def ord_c_xdigit)

lemma xdigit_val_char: "n < 16 \<Longrightarrow> xdigit_val (xdigit_char n) = n"
  by (auto simp: xdigit_val_def isdigit_def ord_c_xdigit)

lemma ord_c_less: "ord_c c < 256"
  by (rule nat_of_char_less_256)

lemma urlDecode_plain: "c \<noteq> CHR ''+'' \<Longrightarrow> c \<noteq> CHR ''%'' \<Longrightarrow> urlDecode (c # s) = c # urlDecode s"
  by (simp split: list.split)

lemma urlDecode_escape:
  assumes "isxdigit a" and "isxdigit b"
  shows "urlDecode (CHR ''%'' # a # b # s) = char_of (16 * xdigit_val a + xdigit_val b) # urlDecode s"
  using assms by simp

lemma url_plain_not_special: "url_plain c \<Longrightarrow> c \<noteq> CHR ''+'' \<and> c \<noteq> CHR ''%''"
  by (auto simp: url_plain_def isdigit_def)

lemma urlDecode_encode_char: "urlDecode (urlEncode_char c @ t) = c # urlDecode t"
proof (cases "url_plain c")
  case True
  then show ?thesis
    using urlDecode_plain [of c t] url_plain_not_special [of c] by (simp add: urlEncode_char_def)
next
  case False
  have hi: "ord_c c div 16 < 16" and lo: "ord_c c mod 16 < 16"
    using ord_c_less [of c] by (simp_all add: less_mult_imp_div_less)
  have "char_of (16 * (ord_c c div 16) + ord_c c mod 16) = c"
    by (simp add: mult_div_mod_eq)
  with False urlDecode_escape [OF xdigit_char_isxdigit [OF hi] xdigit_char_isxdigit [OF lo], of t]
  show ?thesis
    by (simp add: urlEncode_char_def xdigit_val_char [OF hi] xdigit_val_char [OF lo]
        del: urlDecode.simps)
qed

lemma urlDecode_encode_append: "urlDecode (urlEncode s @ t) = s @ urlDecode t"
proof (induction s)
  case (Cons c s)
  then show ?case
    using urlDecode_encode_char [of c "urlEncode s @ t"] by (simp add: urlEncode_def)
qed (simp add: urlEncode_def)

lemma urlDecode_encode_id [simp]: "urlDecode (urlEncode s) = s"
  using urlDecode_encode_append [of s "[]"] by simp

lemma urlEncode_chars:
  "c \<in> set (urlEncode s) \<Longrightarrow> c \<noteq> CHR ''&'' \<and> c \<noteq> CHR ''='' \<and> c \<noteq> CHR ''+'' \<and> c \<noteq> CR"
proof -
  assume "c \<in> set (urlEncode s)"
  then obtain d where d: "c \<in> set (urlEncode_char d)"
    by (auto simp: urlEncode_def)
  have "ord_c d div 16 < 16" and "ord_c d mod 16 < 16"
    using ord_c_less [of d] by (simp_all add: less_mult_imp_div_less)
  then have "isxdigit (xdigit_char (ord_c d div 16))" "isxdigit (xdigit_char (ord_c d mod 16))"
    by (simp_all add: xdigit_char_isxdigit)
  with d have "url_plain c \<or> isxdigit c \<or> c = CHR ''%''"
    by (auto simp: urlEncode_char_def split: if_splits)
  then show ?thesis
    by (auto simp: url_plain_def isxdigit_def isdigit_def)
qed

subsection \<open>Form bodies\<close>

definition renderFormPair :: "string \<times> string \<Rightarrow> string" where
  "renderFormPair p = urlEncode (fst p) @ CHR ''='' # urlEncode (snd p)"

definition renderForm :: "(string \<times> string) list \<Rightarrow> string" where
  "renderForm ps = join ''&'' (map renderFormPair ps)"

definition fields_of :: "(string \<times> string) list \<Rightarrow> (string, string) std_map" where
  "fields_of ps = fold (\<lambda>p. map_insert (fst p) (snd p)) ps []"

lemma parseFormPair_render:
  "parseFormPair (renderFormPair p) = map_insert (fst p) (snd p)"
proof
  have "CHR ''='' \<notin> set (urlEncode (fst p))" using urlEncode_chars by blast
  then show "parseFormPair (renderFormPair p) fields = map_insert (fst p) (snd p) fields" for fields
    by (simp add: parseFormPair_def renderFormPair_def find_char_append substr_def)
qed

lemma renderFormPair_no_amp: "CHR ''&'' \<notin> set (renderFormPair p)"
  using urlEncode_chars by (auto simp: renderFormPair_def)

lemma getlines_join:
  "\<forall>p\<in>set ps. p \<noteq> [] \<and> d \<notin> set p \<Longrightarrow> getlines d (join [d] ps) = ps"
proof (induction ps)
  case (Cons p ps)
  then show ?case
    by (cases "ps = []") (auto simp: join_Cons getlines_last getlines_append)
qed simp

lemma parseFormEncoded_fold:
  "parseFormEncoded (renderForm ps) = fold (\<lambda>p. map_insert (fst p) (snd p)) ps []"
proof -
  have "getlines (CHR ''&'') (renderForm ps) = map renderFormPair ps"
    unfolding renderForm_def
    by (rule getlines_join) (auto simp: renderFormPair_no_amp, simp add: renderFormPair_def)
  then show ?thesis
    by (simp add: parseFormEncoded_def fold_map comp_def parseFormPair_render)
qed

lemma parseFormEncoded_inv: "map_inv (parseFormEncoded text)"
proof -
  have "map_inv m \<Longrightarrow> map_inv (fold parseFormPair ls m)" for ls m
    by (induction ls arbitrary: m)
      (simp_all add: parseFormPair_def map_inv_insert split: option.split)
  then show ?thesis by (simp add: parseFormEncoded_def map_inv_Nil)
qed

subsection \<open>JSON string bodies\<close>

text \<open>The characters \<open>jsonEscape\<close> renders so that \<open>readString\<close> reads them back.\<close>

definition json_plain :: "char \<Rightarrow> bool" where
  "json_plain c \<longleftrightarrow> 32 \<le> ord_c c \<or> c = LF \<or> c = CR \<or> c = TAB"

lemma readChars_escape_char:
  "json_plain c \<Longrightarrow> readChars out (jsonEscape_char c @ s) = readChars (out @ [c]) s"
  by (auto simp: jsonEscape_char_def json_plain_def unescape_def)

lemma readChars_escape:
  "\<forall>c\<in>set v. json_plain c \<Longrightarrow>
     readChars out (jsonEscape v @ DQUOTE # r) = Some (out @ v, r)"
  by (induction v arbitrary: out) (simp_all add: jsonEscape_def readChars_escape_char)

lemma readString_escape:
  "\<forall>c\<in>set v. json_plain c \<Longrightarrow> readString (DQUOTE # jsonEscape v @ DQUOTE # r) = Some (v, r)"
  by (simp add: readString_def readChars_escape)

lemma jsonEscape_inj_plain:
  assumes "\<forall>c\<in>set v. json_plain c" and "\<forall>c\<in>set w. json_plain c" and "jsonEscape v = jsonEscape w"
  shows "v = w"
proof -
  have "Some (v, []) = readString (DQUOTE # jsonEscape w @ DQUOTE # [])"
    by (simp only: readString_escape [OF assms(1)] flip: assms(3))
  also have "\<dots> = Some (w, [])"
    by (rule readString_escape [OF assms(2)])
  finally show ?thesis by simp
qed

text \<open>RFC 8259, section 7, byte by byte: what may stand between the quotes of a JSON string.\<close>

fun valid_json_body :: "string \<Rightarrow> bool" where
  "valid_json_body [] = True"
| "valid_json_body (c # s) =
     (if c = BSLASH then
        (case s of
           d # r \<Rightarrow>
             if d = CHR ''u'' then
               (case r of
                  h1 # h2 # h3 # h4 # r' \<Rightarrow>
                    isxdigit h1 \<and> isxdigit h2 \<and> isxdigit h3 \<and> isxdigit h4 \<and> valid_json_body r'
                | _ \<Rightarrow> False)
             else d \<in> set [DQUOTE, BSLASH, CHR ''/'', CHR ''b'', CHR ''f'', CHR ''n'', CHR ''r'', CHR ''t'']
                  \<and> valid_json_body r
         | [] \<Rightarrow> False)
      else c \<noteq> DQUOTE \<and> 32 \<le> ord_c c \<and> valid_json_body s)"

lemma hex_nat_two: "16 \<le> n \<Longrightarrow> n < 256 \<Longrightarrow> hex_nat n = [xdigit_char (n div 16), xdigit_char (n mod 16)]"
  by (subst hex_nat.simps, subst hex_nat.simps) (simp add: less_mult_imp_div_less)

lemma valid_json_escape_char:
  assumes "16 \<le> ord_c c \<or> json_plain c"
  shows "valid_json_body (jsonEscape_char c @ s) = valid_json_body s"
proof (cases "ord_c c < 32 \<and> c \<noteq> LF \<and> c \<noteq> CR \<and> c \<noteq> TAB")
  case True
  with assms have n: "16 \<le> ord_c c" by (auto simp: json_plain_def)
  from True have "c \<noteq> DQUOTE" "c \<noteq> BSLASH" by auto
  moreover have "isxdigit (CHR ''0'')" by (simp add: isxdigit_def isdigit_def)
  ultimately show ?thesis
    using True n ord_c_less [of c]
    by (simp add: jsonEscape_char_def hex_nat_two xdigit_char_isxdigit less_mult_imp_div_less)
next
  case False
  then show ?thesis by (auto simp: jsonEscape_char_def)
qed

lemma valid_json_escape:
  "\<forall>c\<in>set v. 16 \<le> ord_c c \<or> json_plain c \<Longrightarrow> valid_json_body (jsonEscape v)"
  by (induction v) (simp_all add: jsonEscape_def valid_json_escape_char)

subsection \<open>Flat JSON objects\<close>

definition renderField :: "string \<times> string \<Rightarrow> string" where
  "renderField p = DQUOTE # jsonEscape (fst p) @ [DQUOTE, CHR '':'', DQUOTE] @
     jsonEscape (snd p) @ [DQUOTE]"

definition renderObject :: "(string \<times> string) list \<Rightarrow> string" where
  "renderObject ps = CHR ''{'' # join '','' (map renderField ps) @ ''}''"

definition fields_plain :: "(string \<times> string) list \<Rightarrow> bool" where
  "fields_plain ps \<longleftrightarrow> (\<forall>p\<in>set ps. (\<forall>c\<in>set (fst p). json_plain c) \<and> (\<forall>c\<in>set (snd p). json_plain c))"

lemma skipSpace_nonspace: "\<not> isspace c \<Longrightarrow> skipSpace (c # s) = c # s"
  by (simp add: skipSpace_def)

lemma isspace_consts [simp]:
  "\<not> isspace DQUOTE" "\<not> isspace (CHR '':'')" "\<not> isspace (CHR '','')"
  "\<not> isspace (CHR ''{'')" "\<not> isspace (CHR ''}'')"
  by (simp_all add: isspace_def)

lemma readField_render:
  assumes "\<forall>c\<in>set (fst p). json_plain c" and "\<forall>c\<in>set (snd p). json_plain c"
  shows "readField (renderField p @ r) = Some (fst p, snd p, skipSpace r)"
  using readString_escape [OF assms(1), of "CHR '':'' # DQUOTE # jsonEscape (snd p) @ DQUOTE # r"]
    readString_escape [OF assms(2), of r]
  by (simp add: readField_def renderField_def skipSpace_nonspace)

lemma parseFields_render:
  assumes "ps \<noteq> []" and "fields_plain ps"
  shows "parseFields m (join '','' (map renderField ps) @ CHR ''}'' # junk) =
           (fold (\<lambda>p. map_insert (fst p) (snd p)) ps m, True)"
  using assms
proof (induction ps arbitrary: m)
  case (Cons p ps)
  from Cons.prems have p: "\<forall>c\<in>set (fst p). json_plain c" "\<forall>c\<in>set (snd p). json_plain c"
    by (auto simp: fields_plain_def)
  have ne: "renderField p @ r \<noteq> []" for r by (simp add: renderField_def)
  show ?case
  proof (cases "ps = []")
    case True
    then show ?thesis
      by (subst parseFields.simps) (simp add: ne readField_render [OF p] skipSpace_nonspace)
  next
    case False
    with Cons.IH [OF False] Cons.prems(2) show ?thesis
      by (subst parseFields.simps)
        (simp add: ne join_Cons readField_render [OF p] skipSpace_nonspace fields_plain_def)
  qed
qed simp

lemma parseFlatJson_render:
  assumes "fields_plain ps"
  shows "parseFlatJson (renderObject ps @ junk) =
           (fold (\<lambda>p. map_insert (fst p) (snd p)) ps [], True)"
proof (cases ps)
  case Nil
  then show ?thesis
    by (simp add: parseFlatJson_def renderObject_def skipSpace_nonspace)
next
  case (Cons p qs)
  let ?t = "join '','' (map renderField ps) @ CHR ''}'' # junk"
  from Cons obtain s where s: "?t = DQUOTE # s"
    by (cases qs) (auto simp: renderField_def join_Cons)
  have "parseFlatJson (renderObject ps @ junk) = parseFields [] ?t"
    by (simp add: parseFlatJson_def renderObject_def skipSpace_nonspace s)
  with Cons parseFields_render [OF _ assms, of "[]" junk] show ?thesis by simp
qed

lemma parseFlatJson_inv: "map_inv (fst (parseFlatJson text))"
proof -
  have "map_inv m \<Longrightarrow> map_inv (fst (parseFields m s))" for m s
  proof (induction m s rule: parseFields.induct)
    case (1 m s)
    show ?case
      by (subst parseFields.simps)
        (auto simp: map_inv_Nil map_inv_insert 1 split: option.split list.split)
  qed
  then show ?thesis
    by (auto simp: parseFlatJson_def map_inv_Nil split: list.split)
qed

lemma map_of_fields_of: "map_of (fields_of ps) = map_of (rev ps)"
proof -
  have "map_of (fold (\<lambda>p. map_insert (fst p) (snd p)) ps m) = map_of m ++ map_of (rev ps)" for m
    by (induction ps arbitrary: m) (simp_all add: fun_eq_iff map_add_def split: option.split)
  then show ?thesis by (simp add: fields_of_def)
qed

section \<open>Properties of the codecs\<close>

text \<open>
  C34: Form bodies round-trip. Whatever bytes the names and values have, the form a client
  encodes from them decodes to exactly these fields, in key order, the last value of a
  repeated name winning.
\<close>

theorem form_roundtrip:
  "parseFormEncoded (renderForm ps) = fields_of ps \<and>
   map_of (parseFormEncoded (renderForm ps)) = map_of (rev ps) \<and>
   map_inv (parseFormEncoded (renderForm ps))"
proof -
  have "parseFormEncoded (renderForm ps) = fields_of ps"
    by (simp add: parseFormEncoded_fold fields_of_def)
  with parseFormEncoded_inv [of "renderForm ps"] show ?thesis by (simp add: map_of_fields_of)
qed

text \<open>
  C33: Flat JSON objects round-trip through \<open>jsonEscape\<close> and \<open>parseFlatJson\<close>: fields without
  control characters other than tab, line feed and carriage return are read back exactly,
  quotes and backslashes included, and the object is accepted.
\<close>

theorem json_object_roundtrip:
  assumes "fields_plain ps"
  shows "parseFlatJson (renderObject ps) = (fields_of ps, True)"
  using parseFlatJson_render [OF assms, of "[]"] by (simp add: fields_of_def)

definition sample_fields :: "(string \<times> string) list" where
  "sample_fields = [(''key'', [DQUOTE, BSLASH, LF]), (''value'', ''a,b}'')]"

theorem json_object_roundtrip_witness:
  "parseFlatJson (renderObject sample_fields) =
     ([(''key'', [DQUOTE, BSLASH, LF]), (''value'', ''a,b}'')], True)"
proof -
  have "fields_plain sample_fields" by code_simp
  from json_object_roundtrip [OF this] show ?thesis
    by (simp add: fields_of_def sample_fields_def)
qed

text \<open>
  The parser accepts more than flat JSON objects, although \<open>api.h\<close> says that it refuses
  anything it does not fully understand: any bytes may follow the closing brace, and an
  escape it does not know, as a \<open>\\u\<close> escape, is read as the escaped character alone.
\<close>

theorem parseFlatJson_accepts_garbage:
  "parseFlatJson (renderObject [] @ junk) = ([], True) \<and>
   parseFlatJson ('' {'' @ [DQUOTE] @ ''k'' @ [DQUOTE] @ '':'' @ [DQUOTE, BSLASH] @ ''u0041'' @ [DQUOTE] @
     ''} trailing'') = ([(''k'', ''u0041'')], True)"
proof -
  have "fields_plain []" by (simp add: fields_plain_def)
  from parseFlatJson_render [OF this, of junk]
  have "parseFlatJson (renderObject [] @ junk) = ([], True)" by simp
  moreover have "parseFlatJson ('' {'' @ [DQUOTE] @ ''k'' @ [DQUOTE] @ '':'' @ [DQUOTE, BSLASH] @
     ''u0041'' @ [DQUOTE] @ ''} trailing'') = ([(''k'', ''u0041'')], True)"
    by code_simp
  ultimately show ?thesis ..
qed

lemma escape_low_control:
  assumes "ord_c c < 16" and "\<not> json_plain c"
  shows "jsonEscape_char c = [BSLASH, CHR ''u'', CHR ''0'', CHR ''0'', xdigit_char (ord_c c)]"
proof -
  have "c \<noteq> DQUOTE" "c \<noteq> BSLASH" using assms(1) by auto
  moreover have "hex_nat (ord_c c) = [xdigit_char (ord_c c)]"
    using assms(1) by (subst hex_nat.simps) simp
  ultimately show ?thesis using assms by (subst jsonEscape_char_def) (auto simp: json_plain_def)
qed

text \<open>
  C37: Which escapes are JSON. The escape of one byte is a valid JSON string body exactly when
  the byte is at least \<open>0x10\<close> or tab, line feed or carriage return: the control characters
  below \<open>0x10\<close> are rendered with three hexadecimal digits instead of four, and so the two
  texts \<open>01 'a'\<close> and \<open>1A\<close> have the same escape.
\<close>

theorem jsonEscape_valid_iff:
  "(valid_json_body (jsonEscape [c]) \<longleftrightarrow> 16 \<le> ord_c c \<or> json_plain c) \<and>
   jsonEscape [CHR 0x01, CHR ''a''] = jsonEscape [CHR 0x1A]"
proof (intro conjI)
  show "valid_json_body (jsonEscape [c]) \<longleftrightarrow> 16 \<le> ord_c c \<or> json_plain c"
  proof (cases "16 \<le> ord_c c \<or> json_plain c")
    case True
    with valid_json_escape [of "[c]"] show ?thesis by simp
  next
    case False
    with escape_low_control [of c] show ?thesis by (auto simp: jsonEscape_def)
  qed
  show "jsonEscape [CHR 0x01, CHR ''a''] = jsonEscape [CHR 0x1A]" by code_simp
qed

end
