(* ===== verification/Http.thy ===== *)
theory Http
  imports Codec
begin

section \<open>HTTP messages\<close>

text \<open>
  \<open>src/include/http.h\<close> and the first half of \<open>src/src/http.cpp\<close>: the request and the
  response as records, the status table, \<open>header\<close>, \<open>queryParam\<close>, the response
  factories and \<open>serialize\<close>. Field names carry the prefixes \<open>rq_\<close> and \<open>rs_\<close>,
  since both structs have a \<open>body\<close> and a \<open>keepAlive\<close>. The lemmas show what a client
  that frames a response by its blank line and its \<open>Content-Length\<close> gets back.
\<close>

subsection \<open>toLower and trim\<close>

definition toLower :: "string \<Rightarrow> string" where
  "toLower text = map tolower text"

definition blank :: "char \<Rightarrow> bool" where
  "blank c \<longleftrightarrow> c = CHR '' '' \<or> c = TAB"

definition trim :: "string \<Rightarrow> string" where
  "trim text =
     (case find_first_not_of blank text of
        None \<Rightarrow> []
      | Some first \<Rightarrow>
          (case find_last_not_of blank text of
             None \<Rightarrow> []
           | Some final \<Rightarrow> substr text first (final - first + 1)))"

subsection \<open>The status table\<close>

definition statusMessage :: "int \<Rightarrow> string" where
  "statusMessage statusCode =
     (if statusCode = 200 then ''OK''
      else if statusCode = 201 then ''Created''
      else if statusCode = 204 then ''No Content''
      else if statusCode = 400 then ''Bad Request''
      else if statusCode = 403 then ''Forbidden''
      else if statusCode = 404 then ''Not Found''
      else if statusCode = 405 then ''Method Not Allowed''
      else if statusCode = 408 then ''Request Timeout''
      else if statusCode = 413 then ''Payload Too Large''
      else if statusCode = 414 then ''URI Too Long''
      else if statusCode = 431 then ''Request Header Fields Too Large''
      else if statusCode = 500 then ''Internal Server Error''
      else if statusCode = 501 then ''Not Implemented''
      else if statusCode = 505 then ''HTTP Version Not Supported''
      else if statusCode = 507 then ''Insufficient Storage''
      else ''Unknown'')"

subsection \<open>HttpRequest\<close>

record HttpRequest =
  rq_method :: string
  rq_target :: string
  rq_path :: string
  rq_query :: string
  rq_version :: string
  rq_headers :: "(string, string) unordered_map"
  rq_body :: string
  rq_keepAlive :: bool

definition HttpRequest_init :: HttpRequest where
  "HttpRequest_init = \<lparr>rq_method = [], rq_target = [], rq_path = [], rq_query = [],
     rq_version = [], rq_headers = [], rq_body = [], rq_keepAlive = True\<rparr>"

definition header :: "HttpRequest \<Rightarrow> string \<Rightarrow> string" where
  "header rq name = (case map_of (rq_headers rq) (toLower name) of None \<Rightarrow> [] | Some v \<Rightarrow> v)"

text \<open>The loop of \<open>queryParam\<close> over the part of the query from \<open>position\<close> on.\<close>

function queryParam_loop :: "string \<Rightarrow> string \<Rightarrow> string" where
  "queryParam_loop name q =
     (if q = [] then []
      else
        let amp = find_char (CHR ''&'') q;
            pair = (case amp of None \<Rightarrow> q | Some a \<Rightarrow> substr q 0 a);
            equals = find_char (CHR ''='') pair
        in if (case equals of None \<Rightarrow> False | Some e \<Rightarrow> substr pair 0 e = name)
           then urlDecode (drop (the equals + 1) pair)
           else (case amp of None \<Rightarrow> [] | Some a \<Rightarrow> queryParam_loop name (drop (a + 1) q)))"
  by pat_completeness auto
termination
  by (relation "measure (\<lambda>(n, q). length q)") (auto dest: find_char_less)

declare queryParam_loop.simps [simp del]

definition queryParam :: "HttpRequest \<Rightarrow> string \<Rightarrow> string" where
  "queryParam rq name = queryParam_loop name (rq_query rq)"

subsection \<open>HttpResponse\<close>

record HttpResponse =
  rs_status :: int
  rs_contentType :: string
  rs_body :: string
  rs_extraHeaders :: "(string \<times> string) list"
  rs_keepAlive :: bool

definition HttpResponse_init :: HttpResponse where
  "HttpResponse_init = \<lparr>rs_status = 200, rs_contentType = ''text/html'', rs_body = [],
     rs_extraHeaders = [], rs_keepAlive = True\<rparr>"

definition response_json :: "string \<Rightarrow> int \<Rightarrow> HttpResponse" where
  "response_json payload status = HttpResponse_init
     \<lparr>rs_status := status, rs_contentType := ''application/json'', rs_body := payload\<rparr>"

definition response_text :: "string \<Rightarrow> int \<Rightarrow> HttpResponse" where
  "response_text payload status = HttpResponse_init
     \<lparr>rs_status := status, rs_contentType := ''text/plain'', rs_body := payload\<rparr>"

definition response_error :: "int \<Rightarrow> HttpResponse" where
  "response_error status =
     (let response = HttpResponse_init
            \<lparr>rs_status := status, rs_contentType := ''text/html'',
             rs_body := ''<html><body><h1>'' @ dec_int status @ '' '' @ statusMessage status @
               ''</h1></body></html>''\<rparr>
      in if status = 400 \<or> status = 408 \<or> status = 413 \<or> status = 431 \<or> status = 505
         then response\<lparr>rs_keepAlive := False\<rparr> else response)"

definition header_line :: "string \<Rightarrow> string \<Rightarrow> string" where
  "header_line name v = name @ '': '' @ v @ crlf"

definition response_head :: "HttpResponse \<Rightarrow> string" where
  "response_head r =
     ''HTTP/1.1 '' @ dec_int (rs_status r) @ '' '' @ statusMessage (rs_status r) @ crlf @
     header_line ''Content-Length'' (dec_nat (length (rs_body r))) @
     header_line ''Content-Type'' (rs_contentType r) @
     header_line ''Connection'' (if rs_keepAlive r then ''keep-alive'' else ''close'') @
     concat (map (\<lambda>h. header_line (fst h) (snd h)) (rs_extraHeaders r))"

definition serialize :: "HttpResponse \<Rightarrow> bool \<Rightarrow> string" where
  "serialize r omitBody = response_head r @ crlf @ (if omitBody then [] else rs_body r)"

subsection \<open>trim removes exactly the blanks at both ends\<close>

lemma trim_blank: "\<forall>c\<in>set text. blank c \<Longrightarrow> trim text = []"
  by (simp add: trim_def find_first_not_of_None_iff [THEN iffD2])

lemma trim_core:
  assumes "\<forall>c\<in>set u. blank c" and "\<forall>c\<in>set w. blank c"
    and "v \<noteq> []" and "\<not> blank (hd v)" and "\<not> blank (last v)"
  shows "trim (u @ v @ w) = v"
proof -
  have f: "find_first_not_of blank (u @ v @ w) = Some (length u)"
    using find_first_not_of_append [OF assms(1,4), of "tl v @ w"] assms(3) by (cases v) auto
  have l: "find_last_not_of blank (u @ v @ w) = Some (length (u @ butlast v))"
    using find_last_not_of_append [OF assms(2,5), of "u @ butlast v"]
      append_butlast_last_id [OF assms(3)]
    by (metis append.assoc append_Cons append_Nil)
  have "length (u @ butlast v) - length u + 1 = length v"
    using assms(3) by (cases v) auto
  then show ?thesis
    by (simp add: trim_def f l substr_def)
qed

text \<open>A value without blanks at its ends, as a header writer puts it after the colon.\<close>

definition trimmed :: "string \<Rightarrow> bool" where
  "trimmed v \<longleftrightarrow> v = [] \<or> (\<not> blank (hd v) \<and> \<not> blank (last v))"

lemma trim_space_trimmed: "trimmed v \<Longrightarrow> trim (CHR '' '' # v) = v"
  using trim_core [of "'' ''" "[]" v] trim_blank [of "'' ''"]
  by (auto simp: trimmed_def blank_def)

lemma trim_trimmed: "trimmed v \<Longrightarrow> trim v = v"
  using trim_core [of "[]" "[]" v] trim_blank [of "[]"] by (auto simp: trimmed_def)

subsection \<open>queryParam\<close>

lemma queryParam_loop_Nil [simp]: "queryParam_loop name [] = []"
  by (simp add: queryParam_loop.simps)

lemma queryParam_loop_hit:
  assumes "CHR ''&'' \<notin> set k" "CHR ''='' \<notin> set k" "CHR ''&'' \<notin> set v"
    and "rest = [] \<or> hd rest = CHR ''&''"
  shows "queryParam_loop k (k @ CHR ''='' # v @ rest) = urlDecode v"
proof (cases rest)
  case Nil
  with assms show ?thesis
    by (subst queryParam_loop.simps)
      (simp add: Let_def find_char_append substr_def find_char_None_iff [THEN iffD2])
next
  case (Cons c r)
  with assms(4) have r: "rest = CHR ''&'' # r" by simp
  have "find_char (CHR ''&'') ((k @ CHR ''='' # v) @ CHR ''&'' # r) = Some (length (k @ CHR ''='' # v))"
    using assms(1,3) by (intro find_char_append) auto
  with assms(2) r show ?thesis
    by (subst queryParam_loop.simps) (simp add: Let_def find_char_append substr_def)
qed

lemma queryParam_loop_skip:
  assumes "CHR ''&'' \<notin> set p" and "\<And>e. find_char (CHR ''='') p = Some e \<Longrightarrow> substr p 0 e \<noteq> k"
  shows "queryParam_loop k (p @ CHR ''&'' # rest) = queryParam_loop k rest"
  using assms
  by (subst queryParam_loop.simps)
    (auto simp: Let_def find_char_append substr_def split: option.split)

subsection \<open>Framing of a serialized response\<close>

text \<open>
  HEAD and GET differ only in the body; the head is the same bytes.
\<close>

lemma serialize_omit: "serialize r False = serialize r True @ rs_body r"
  by (simp add: serialize_def)

text \<open>Lines without a CR of their own: the head is a block of such lines.\<close>

definition line_safe :: "string \<Rightarrow> bool" where
  "line_safe s \<longleftrightarrow> CR \<notin> set s"

definition response_wf :: "HttpResponse \<Rightarrow> bool" where
  "response_wf r \<longleftrightarrow> line_safe (rs_contentType r) \<and>
     (\<forall>h\<in>set (rs_extraHeaders r). line_safe (fst h) \<and> line_safe (snd h) \<and> fst h \<noteq> [])"

lemma dec_int_safe: "CR \<notin> set (dec_int i)"
  using dec_nat_digits [of "nat i"] dec_nat_digits [of "nat (- i)"]
  by (auto simp: dec_int_def isdigit_def)

lemma dec_nat_safe: "CR \<notin> set (dec_nat n)"
  using dec_nat_digits [of n] by (auto simp: isdigit_def)

lemma statusMessage_safe: "CR \<notin> set (statusMessage s)"
  by (simp add: statusMessage_def)

text \<open>
  A client's reader: lines up to the blank line, then as many bytes as the
  \<open>Content-Length\<close> line says. It returns the header lines, the body and what follows.
\<close>

function client_lines :: "string \<Rightarrow> (string list \<times> string) option" where
  "client_lines s =
     (case find_str crlf s of
        None \<Rightarrow> None
      | Some i \<Rightarrow>
          let l = take i s; r = drop (i + 2) s
          in if l = [] then Some ([], r)
             else map_option (\<lambda>(ls, r'). (l # ls, r')) (client_lines r))"
  by pat_completeness auto
termination
  by (relation "measure length") (auto dest: find_str_SomeD)

declare client_lines.simps [simp del]

definition client_length :: "string list \<Rightarrow> nat option" where
  "client_length ls =
     (case filter (\<lambda>l. prefix ''Content-Length: '' l) ls of
        l # _ \<Rightarrow> (case scan_int (drop 16 l) of Some (v, _) \<Rightarrow> Some (nat v) | None \<Rightarrow> None)
      | [] \<Rightarrow> None)"

definition client_read :: "string \<Rightarrow> (string list \<times> string \<times> string) option" where
  "client_read s =
     (case client_lines s of
        None \<Rightarrow> None
      | Some (ls, r) \<Rightarrow>
          (case client_length ls of
             None \<Rightarrow> None
           | Some n \<Rightarrow> if n \<le> length r then Some (ls, take n r, drop n r) else None))"

lemma client_lines_Cons:
  "CR \<notin> set l \<Longrightarrow> l \<noteq> [] \<Longrightarrow>
     client_lines (l @ CR # LF # s) = map_option (\<lambda>(ls, r). (l # ls, r)) (client_lines s)"
  by (subst client_lines.simps) (simp add: find_crlf_append Let_def)

lemma client_lines_end: "client_lines (CR # LF # s) = Some ([], s)"
  by (subst client_lines.simps) simp

definition status_line :: "HttpResponse \<Rightarrow> string" where
  "status_line r = ''HTTP/1.1 '' @ dec_int (rs_status r) @ '' '' @ statusMessage (rs_status r)"

definition head_lines :: "HttpResponse \<Rightarrow> string list" where
  "head_lines r = status_line r # (''Content-Length: '' @ dec_nat (length (rs_body r))) #
     (''Content-Type: '' @ rs_contentType r) #
     (''Connection: '' @ (if rs_keepAlive r then ''keep-alive'' else ''close'')) #
     map (\<lambda>h. fst h @ '': '' @ snd h) (rs_extraHeaders r)"

lemma response_head_lines: "response_head r = concat (map (\<lambda>l. l @ crlf) (head_lines r))"
  by (simp add: response_head_def head_lines_def header_line_def status_line_def comp_def)

lemma client_lines_block:
  assumes "\<forall>l\<in>set ls. CR \<notin> set l \<and> l \<noteq> []"
  shows "client_lines (concat (map (\<lambda>l. l @ crlf) ls) @ crlf @ s) = Some (ls, s)"
  using assms by (induction ls) (simp_all add: client_lines_Cons client_lines_end)

lemma head_lines_safe: "response_wf r \<Longrightarrow> \<forall>l\<in>set (head_lines r). CR \<notin> set l \<and> l \<noteq> []"
  using dec_int_safe [of "rs_status r"] dec_nat_safe [of "length (rs_body r)"]
    statusMessage_safe [of "rs_status r"]
  by (auto simp: head_lines_def status_line_def response_wf_def line_safe_def)

lemma scan_int_dec_nat: "scan_int (dec_nat n) = Some (int n, [])"
  using scan_int_digits [OF dec_nat_nonempty dec_nat_digits] by simp

lemma client_length_head: "client_length (head_lines r) = Some (length (rs_body r))"
  by (simp add: client_length_def head_lines_def status_line_def scan_int_dec_nat)

lemma client_read_serialize:
  "response_wf r \<Longrightarrow>
     client_read (serialize r False @ rest) = Some (head_lines r, rs_body r, rest)"
  using client_lines_block [OF head_lines_safe, of r "rs_body r @ rest"]
  by (simp add: client_read_def serialize_def response_head_lines client_length_head)

lemma response_error_wf: "response_wf (response_error s)"
  by (simp add: response_wf_def response_error_def HttpResponse_init_def line_safe_def Let_def)

lemma response_json_wf: "response_wf (response_json p s)"
  by (simp add: response_wf_def response_json_def HttpResponse_init_def line_safe_def)

lemma response_text_wf: "response_wf (response_text p s)"
  by (simp add: response_wf_def response_text_def HttpResponse_init_def line_safe_def)

lemma response_error_status [simp]: "rs_status (response_error s) = s"
  by (simp add: response_error_def HttpResponse_init_def Let_def)

lemma response_json_simps [simp]:
  "rs_status (response_json p s) = s" "rs_body (response_json p s) = p"
  "rs_keepAlive (response_json p s) = True"
  by (simp_all add: response_json_def HttpResponse_init_def)

subsection \<open>Query parameters\<close>

lemma urlEncode_plain: "list_all url_plain s \<Longrightarrow> urlEncode s = s"
  by (induction s) (simp_all add: urlEncode_def urlEncode_char_def)

lemma urlEncode_no_sep: "CHR ''&'' \<notin> set (urlEncode s)" "CHR ''='' \<notin> set (urlEncode s)"
  using urlEncode_chars by blast+

lemma queryParam_loop_pair:
  assumes "list_all url_plain (fst p)"
  shows "queryParam_loop name (renderFormPair p @ CHR ''&'' # rest) =
           (if fst p = name then snd p else queryParam_loop name rest)"
    and "queryParam_loop name (renderFormPair p) = (if fst p = name then snd p else [])"
proof -
  note enc = urlEncode_plain [OF assms(1)] urlEncode_no_sep [of "fst p"] urlEncode_no_sep [of "snd p"]
  have eq: "find_char (CHR ''='') (renderFormPair p) = Some (length (fst p))"
    using enc by (simp add: renderFormPair_def find_char_append)
  have amp: "CHR ''&'' \<notin> set (renderFormPair p)" by (rule renderFormPair_no_amp)
  have sub: "substr (renderFormPair p) 0 (length (fst p)) = fst p"
    using enc by (simp add: renderFormPair_def substr_def)
  have hit: "urlDecode (drop (length (fst p) + 1) (renderFormPair p)) = snd p"
    using enc by (simp add: renderFormPair_def)
  have ne: "renderFormPair p \<noteq> []" by (simp add: renderFormPair_def)
  show "queryParam_loop name (renderFormPair p @ CHR ''&'' # rest) =
           (if fst p = name then snd p else queryParam_loop name rest)"
    using eq sub hit
    by (subst queryParam_loop.simps) (auto simp: find_char_append amp substr_def)
  show "queryParam_loop name (renderFormPair p) = (if fst p = name then snd p else [])"
    using eq sub hit ne
    by (subst queryParam_loop.simps) (auto simp: find_char_None_iff [THEN iffD2] amp)
qed

lemma queryParam_loop_form:
  assumes "list_all (\<lambda>p. list_all url_plain (fst p)) ps"
  shows "queryParam_loop name (renderForm ps) = (case map_of ps name of None \<Rightarrow> [] | Some v \<Rightarrow> v)"
  using assms
proof (induction ps)
  case Nil
  then show ?case by (simp add: renderForm_def queryParam_loop.simps)
next
  case (Cons p ps)
  with queryParam_loop_pair [of p name] show ?case
    by (cases ps) (simp_all add: renderForm_def)
qed

section \<open>Properties of requests and responses\<close>

text \<open>
  C32: A query parameter is read back. For a query string that a client builds from names of
  letters and digits and arbitrary values, \<open>queryParam\<close> returns the value of the first pair
  with the name, percent-decoded to the bytes the client meant, and the empty string when
  there is none.
\<close>

theorem queryParam_roundtrip:
  assumes "list_all (\<lambda>p. list_all url_plain (fst p)) ps"
    and "rq_query rq = renderForm ps"
  shows "queryParam rq name = (case map_of ps name of None \<Rightarrow> [] | Some v \<Rightarrow> v)"
  using queryParam_loop_form [OF assms(1)] by (simp add: queryParam_def assms(2))

theorem queryParam_roundtrip_witness:
  "queryParam (HttpRequest_init\<lparr>rq_query := renderForm [(''k'', ''1 & 2''), (''key'', ''a=b+c'')]\<rparr>) ''key'' =
     ''a=b+c''"
proof -
  have "list_all (\<lambda>p. list_all url_plain (fst p)) [(''k'', ''1 & 2''), (''key'', ''a=b+c'')]" by code_simp
  from queryParam_roundtrip [OF this] show ?thesis by simp
qed

text \<open>
  C31: Responses are framed. A client that reads lines up to the blank line and then
  \<open>Content-Length\<close> bytes gets from a serialized response the status line and the header
  lines, exactly the body, and is left with exactly the bytes that follow, so responses on a
  persistent connection never run into each other, whatever bytes a body has. The
  serialization for HEAD is the same head with the body left out.
\<close>

theorem response_framing:
  assumes "response_wf r"
  shows "client_read (serialize r False @ rest) = Some (head_lines r, rs_body r, rest) \<and>
     client_lines (serialize r True @ rest) = Some (head_lines r, rest) \<and>
     serialize r False = serialize r True @ rs_body r"
  using client_read_serialize [OF assms] client_lines_block [OF head_lines_safe [OF assms], of rest]
  by (simp add: serialize_omit) (simp add: serialize_def response_head_lines)

theorem response_framing_witness:
  "client_read (serialize (response_error 404) False @ ''HTTP/1.1 200 OK'') =
     Some (head_lines (response_error 404), ''<html><body><h1>404 Not Found</h1></body></html>'',
       ''HTTP/1.1 200 OK'')"
proof -
  have b: "rs_body (response_error 404) = ''<html><body><h1>404 Not Found</h1></body></html>''"
    by code_simp
  from response_framing [OF response_error_wf, of 404 "''HTTP/1.1 200 OK''"] show ?thesis
    unfolding b by (rule conjunct1)
qed

end
