(* ===== verification/Request_Parser.thy ===== *)
theory Request_Parser
  imports Http
begin

section \<open>The incremental request parser\<close>

text \<open>
  \<open>RequestParser\<close> of \<open>src/include/http.h\<close> and \<open>src/src/http.cpp\<close>. The parser's
  fields are a record; one turn of the \<open>while (true) switch (state)\<close> loop of \<open>parse\<close>
  is \<open>parse_step\<close>, whose first component is \<^term>\<open>None\<close> for \<open>break\<close> (go round
  again) and \<^term>\<open>Some r\<close> for \<open>return r\<close>; \<open>parse\<close> is the loop, total by the
  measure "bytes left plus states left". The buffer is passed in and returned, as the source
  mutates it.
\<close>

subsection \<open>Data\<close>

datatype Result = NeedMore | Complete | Error

datatype State = RequestLine | Headers | Body | Done

record RequestParser =
  rp_state :: State
  rp_req :: HttpRequest
  rp_contentLength :: nat
  rp_headerBytes :: nat
  rp_error :: int

definition maxRequestLine :: nat where "maxRequestLine = 8 * 1024"
definition maxHeaderBlock :: nat where "maxHeaderBlock = 16 * 1024"
definition maxBody :: nat where "maxBody = 1024 * 1024"

definition RequestParser_init :: RequestParser where
  "RequestParser_init = \<lparr>rp_state = RequestLine, rp_req = HttpRequest_init,
     rp_contentLength = 0, rp_headerBytes = 0, rp_error = 400\<rparr>"

definition reset :: "RequestParser \<Rightarrow> RequestParser" where
  "reset p = p\<lparr>rp_state := RequestLine, rp_req := HttpRequest_init,
     rp_contentLength := 0, rp_headerBytes := 0, rp_error := 400\<rparr>"

subsection \<open>The request line\<close>

definition fail :: "int \<Rightarrow> RequestParser \<Rightarrow> bool \<times> RequestParser" where
  "fail code p = (False, p\<lparr>rp_error := code\<rparr>)"

definition split_target :: "HttpRequest \<Rightarrow> HttpRequest" where
  "split_target rq =
     (case find_char (CHR ''?'') (rq_target rq) of
        None \<Rightarrow> rq\<lparr>rq_path := rq_target rq\<rparr>
      | Some queryStart \<Rightarrow>
          rq\<lparr>rq_path := substr (rq_target rq) 0 queryStart,
             rq_query := drop (queryStart + 1) (rq_target rq)\<rparr>)"

definition parseRequestLine :: "string \<Rightarrow> RequestParser \<Rightarrow> bool \<times> RequestParser" where
  "parseRequestLine line p =
     (case find_char (CHR '' '') line of
        None \<Rightarrow> fail 400 p
      | Some firstSpace \<Rightarrow>
          (case find_char_from (CHR '' '') (firstSpace + 1) line of
             None \<Rightarrow> fail 400 p
           | Some secondSpace \<Rightarrow>
               let rq = (rp_req p)\<lparr>rq_method := substr line 0 firstSpace,
                          rq_target := substr line (firstSpace + 1) (secondSpace - firstSpace - 1),
                          rq_version := drop (secondSpace + 1) line\<rparr>;
                   p1 = p\<lparr>rp_req := rq\<rparr>
               in if rq_method rq = [] \<or> rq_target rq = [] \<or> rq_target rq ! 0 \<noteq> CHR ''/''
                  then fail 400 p1
                  else if rq_version rq \<noteq> ''HTTP/1.1'' \<and> rq_version rq \<noteq> ''HTTP/1.0''
                  then fail 505 p1
                  else (True, p1\<lparr>rp_req := (split_target rq)
                          \<lparr>rq_keepAlive := (rq_version rq = ''HTTP/1.1'')\<rparr>\<rparr>)))"

subsection \<open>The header block\<close>

definition set_keepAlive :: "HttpRequest \<Rightarrow> HttpRequest" where
  "set_keepAlive rq =
     (let connectionHeader = toLower (header rq ''connection'')
      in if contains_str ''close'' connectionHeader then rq\<lparr>rq_keepAlive := False\<rparr>
         else if contains_str ''keep-alive'' connectionHeader then rq\<lparr>rq_keepAlive := True\<rparr>
         else rq)"

definition finishHeaders :: "RequestParser \<Rightarrow> bool \<times> RequestParser" where
  "finishHeaders p =
     (let rq = rp_req p; lengthHeader = header rq ''content-length''
      in if header rq ''transfer-encoding'' \<noteq> [] then fail 501 p
         else if lengthHeader = [] then (True, p\<lparr>rp_req := set_keepAlive rq\<rparr>)
         else (case strtoll lengthHeader of (parsed, rest) \<Rightarrow>
           if rest \<noteq> Some [] \<or> parsed < 0 then fail 400 p
           else if nat parsed > maxBody then fail 413 p
           else (True, p\<lparr>rp_contentLength := nat parsed, rp_req := set_keepAlive rq\<rparr>)))"

text \<open>\<open>emplace\<close>, and appending to what was there when the name is repeated.\<close>

definition add_header ::
  "string \<Rightarrow> string \<Rightarrow> (string, string) unordered_map \<Rightarrow> (string, string) unordered_map" where
  "add_header name v hs =
     (case map_of hs name of
        None \<Rightarrow> AList.update name v hs
      | Some old \<Rightarrow> AList.update name (old @ '', '' @ v) hs)"

subsection \<open>parse\<close>

definition step_RequestLine ::
  "RequestParser \<Rightarrow> string \<Rightarrow> Result option \<times> RequestParser \<times> string" where
  "step_RequestLine p buffer =
     (case find_str crlf buffer of
        None \<Rightarrow>
          if length buffer > maxRequestLine then (Some Error, p\<lparr>rp_error := 414\<rparr>, buffer)
          else (Some NeedMore, p, buffer)
      | Some lineEnd \<Rightarrow>
          if lineEnd > maxRequestLine then (Some Error, p\<lparr>rp_error := 414\<rparr>, buffer)
          else (case parseRequestLine (substr buffer 0 lineEnd) p of (ok, p') \<Rightarrow>
            if ok then (None, p'\<lparr>rp_state := Headers\<rparr>, drop (lineEnd + 2) buffer)
            else (Some Error, p', drop (lineEnd + 2) buffer)))"

definition step_Headers ::
  "RequestParser \<Rightarrow> string \<Rightarrow> Result option \<times> RequestParser \<times> string" where
  "step_Headers p buffer =
     (case find_str crlf buffer of
        None \<Rightarrow>
          if length buffer + rp_headerBytes p > maxHeaderBlock
          then (Some Error, p\<lparr>rp_error := 431\<rparr>, buffer)
          else (Some NeedMore, p, buffer)
      | Some lineEnd \<Rightarrow>
          let line = substr buffer 0 lineEnd;
              buffer' = drop (lineEnd + 2) buffer;
              p1 = p\<lparr>rp_headerBytes := rp_headerBytes p + lineEnd + 2\<rparr>
          in if rp_headerBytes p1 > maxHeaderBlock then (Some Error, p1\<lparr>rp_error := 431\<rparr>, buffer')
             else if line = [] then
               (case finishHeaders p1 of (ok, p2) \<Rightarrow>
                  if ok then (None, p2\<lparr>rp_state := (if rp_contentLength p2 > 0 then Body else Done)\<rparr>, buffer')
                  else (Some Error, p2, buffer'))
             else
               (case find_char (CHR '':'') line of
                  None \<Rightarrow> (Some Error, p1\<lparr>rp_error := 400\<rparr>, buffer')
                | Some colon \<Rightarrow>
                    if colon = 0 then (Some Error, p1\<lparr>rp_error := 400\<rparr>, buffer')
                    else
                      let name = toLower (trim (substr line 0 colon));
                          v = trim (drop (colon + 1) line)
                      in (None, p1\<lparr>rp_req := (rp_req p1)
                            \<lparr>rq_headers := add_header name v (rq_headers (rp_req p1))\<rparr>\<rparr>, buffer')))"

definition step_Body ::
  "RequestParser \<Rightarrow> string \<Rightarrow> Result option \<times> RequestParser \<times> string" where
  "step_Body p buffer =
     (if length buffer < rp_contentLength p then (Some NeedMore, p, buffer)
      else (None, p\<lparr>rp_req := (rp_req p)\<lparr>rq_body := substr buffer 0 (rp_contentLength p)\<rparr>,
                    rp_state := Done\<rparr>, drop (rp_contentLength p) buffer))"

definition parse_step ::
  "RequestParser \<Rightarrow> string \<Rightarrow> Result option \<times> RequestParser \<times> string" where
  "parse_step p buffer =
     (case rp_state p of
        RequestLine \<Rightarrow> step_RequestLine p buffer
      | Headers \<Rightarrow> step_Headers p buffer
      | Body \<Rightarrow> step_Body p buffer
      | Done \<Rightarrow> (Some Complete, p, buffer))"

lemmas step_defs = parse_step_def step_RequestLine_def step_Headers_def step_Body_def

fun states_left :: "State \<Rightarrow> nat" where
  "states_left RequestLine = 3"
| "states_left Headers = 2"
| "states_left Body = 1"
| "states_left Done = 0"

lemma parseRequestLine_state: "rp_state (snd (parseRequestLine line p)) = rp_state p"
  by (auto simp: parseRequestLine_def fail_def Let_def split: option.split)

lemma finishHeaders_state: "rp_state (snd (finishHeaders p)) = rp_state p"
  by (auto simp: finishHeaders_def fail_def Let_def split: prod.split)

lemma parse_step_measure:
  "parse_step p b = (None, p', b') \<Longrightarrow>
     length b' + states_left (rp_state p') < length b + states_left (rp_state p)"
  by (cases "rp_state p")
    (auto simp: step_defs Let_def split: option.splits prod.splits if_splits dest!: find_crlf_le
      dest: arg_cong [where f = "\<lambda>x. rp_state (snd x)"] simp: finishHeaders_state)

function parse :: "RequestParser \<Rightarrow> string \<Rightarrow> Result \<times> RequestParser \<times> string" where
  "parse p buffer =
     (case parse_step p buffer of
        (Some r, p', buffer') \<Rightarrow> (r, p', buffer')
      | (None, p', buffer') \<Rightarrow> parse p' buffer')"
  by pat_completeness auto
termination
  by (relation "measure (\<lambda>(p, b). length b + states_left (rp_state p))")
    (auto dest: parse_step_measure [OF sym])

declare parse.simps [simp del]

subsection \<open>More bytes do not change what is decided\<close>

lemma substr_prefix_append: "i \<le> length b \<Longrightarrow> substr (b @ t) 0 i = substr b 0 i"
  by (simp add: substr_def)

text \<open>The step on a longer buffer, when its line is already there.\<close>

definition extend_step ::
  "string \<Rightarrow> Result option \<times> RequestParser \<times> string \<Rightarrow> Result option \<times> RequestParser \<times> string" where
  "extend_step t x = (fst x, fst (snd x), snd (snd x) @ t)"

lemma extend_step_simps [simp]:
  "extend_step t (r, p, b) = (r, p, b @ t)"
  "extend_step t (if c then x else y) = (if c then extend_step t x else extend_step t y)"
  "extend_step t (case q of (ok, p') \<Rightarrow> f ok p') = (case q of (ok, p') \<Rightarrow> extend_step t (f ok p'))"
  "extend_step t (case z of None \<Rightarrow> x | Some n \<Rightarrow> g n) =
     (case z of None \<Rightarrow> extend_step t x | Some n \<Rightarrow> extend_step t (g n))"
  by (simp_all add: extend_step_def split: prod.split option.split)

lemma parse_step_line_append:
  assumes "find_str crlf b = Some i" and "rp_state p = RequestLine \<or> rp_state p = Headers"
  shows "parse_step p (b @ t) = extend_step t (parse_step p b)"
  using assms find_crlf_le [OF assms(1)] find_str_append [OF assms(1), of t]
  by (elim disjE)
    (simp_all add: step_defs Let_def substr_prefix_append cong: if_cong option.case_cong)

lemma parse_step_continue_line:
  "parse_step p b = (None, p', b') \<Longrightarrow> rp_state p = RequestLine \<or> rp_state p = Headers \<Longrightarrow>
     \<exists>i. find_str crlf b = Some i"
  by (cases "find_str crlf b") (auto simp: step_defs split: if_splits)

lemma parse_step_continue_append:
  assumes "parse_step p b = (None, p', b')"
  shows "parse_step p (b @ t) = (None, p', b' @ t)"
proof (cases "rp_state p = RequestLine \<or> rp_state p = Headers")
  case True
  with parse_step_continue_line [OF assms] parse_step_line_append [of b _ p t] assms
  show ?thesis by auto
next
  case False
  with assms show ?thesis
    by (cases "rp_state p") (auto simp: step_defs substr_def split: if_splits)
qed

lemma parse_step_NeedMore: "parse_step p b = (Some NeedMore, p', b') \<Longrightarrow> p' = p \<and> b' = b"
  by (cases "rp_state p")
    (auto simp: step_defs Let_def split: option.splits prod.splits if_splits)

lemma parse_step_Complete:
  "parse_step p b = (Some Complete, p', b') \<Longrightarrow> p' = p \<and> b' = b \<and> rp_state p = Done"
  by (cases "rp_state p")
    (auto simp: step_defs Let_def split: option.splits prod.splits if_splits)

text \<open>
  An error keeps its status when more bytes are there, with one exception: a request line
  whose CR is the byte just beyond the limit.
\<close>

definition line_limit_gap :: "RequestParser \<Rightarrow> string \<Rightarrow> string \<Rightarrow> bool" where
  "line_limit_gap p b t \<longleftrightarrow> rp_state p = RequestLine \<and> find_str crlf b = None \<and>
     length b = maxRequestLine + 1 \<and> find_str crlf (b @ t) = Some maxRequestLine"

lemma parse_step_Error_append:
  assumes "parse_step p b = (Some Error, p', b')" and "\<not> line_limit_gap p b t"
  shows "\<exists>p'' b''. parse_step p (b @ t) = (Some Error, p'', b'') \<and> rp_error p'' = rp_error p'"
proof (cases "find_str crlf b")
  case None
  note late = find_str_append_late [OF None, of t]
  show ?thesis
  proof (cases "rp_state p")
    case RequestLine
    with None assms(1) have long: "length b > maxRequestLine" and e: "rp_error p' = 414"
      by (auto simp: step_defs split: if_splits)
    with assms(2) late RequestLine None show ?thesis
      by (cases "find_str crlf (b @ t)")
        (fastforce simp: step_defs line_limit_gap_def dest: late)+
  next
    case Headers
    with None assms(1) have long: "length b + rp_headerBytes p > maxHeaderBlock" and e: "rp_error p' = 431"
      by (auto simp: step_defs split: if_splits)
    with late Headers show ?thesis
      by (cases "find_str crlf (b @ t)") (fastforce simp: step_defs Let_def dest: late)+
  qed (use assms(1) in \<open>auto simp: step_defs split: if_splits\<close>)
next
  case (Some i)
  moreover have "rp_state p = RequestLine \<or> rp_state p = Headers"
    using assms(1) by (cases "rp_state p") (auto simp: step_defs split: if_splits)
  ultimately show ?thesis
    using parse_step_line_append [of b i p t] assms(1) by simp
qed

subsection \<open>Resumption\<close>

text \<open>
  A run of the loop, as an induction rule: the last turn returns, every other turn goes on.
\<close>

lemma parse_run_induct [consumes 1, case_names continue stop]:
  assumes "parse p b = (r, p', b')"
    and "\<And>p b q c. parse_step p b = (None, q, c) \<Longrightarrow> parse q c = (r, p', b') \<Longrightarrow> P q c \<Longrightarrow> P p b"
    and "\<And>p b. parse_step p b = (Some r, p', b') \<Longrightarrow> P p b"
  shows "P p b"
  using assms(1)
proof (induction p b rule: parse.induct)
  case (1 p b)
  obtain x q c where st: "parse_step p b = (x, q, c)" by (cases "parse_step p b") auto
  show ?case
  proof (cases x)
    case None
    with st "1.prems" have go: "parse q c = (r, p', b')" by (simp add: parse.simps [of p b])
    with "1.IH" st None have "P q c" by auto
    with assms(2) [OF st [unfolded None] go] show ?thesis .
  next
    case (Some y)
    with st "1.prems" have "y = r" "q = p'" "c = b'" by (simp_all add: parse.simps [of p b])
    with st Some assms(3) show ?thesis by simp
  qed
qed

lemma parse_continue: "parse_step p b = (None, q, c) \<Longrightarrow> parse p b = parse q c"
  by (simp add: parse.simps [of p b])

lemma parse_stop: "parse_step p b = (Some r, q, c) \<Longrightarrow> parse p b = (r, q, c)"
  by (simp add: parse.simps [of p b])

lemma parse_resume:
  "parse p b = (NeedMore, p', b') \<Longrightarrow> parse p (b @ t) = parse p' (b' @ t)"
proof (induction rule: parse_run_induct)
  case (continue p b q c)
  then show ?case using parse_continue [OF parse_step_continue_append] by simp
next
  case (stop p b)
  then show ?case using parse_step_NeedMore by blast
qed

lemma parse_Complete_append:
  "parse p b = (Complete, p', b') \<Longrightarrow> parse p (b @ t) = (Complete, p', b' @ t)"
proof (induction rule: parse_run_induct)
  case (continue p b q c)
  then show ?case using parse_continue [OF parse_step_continue_append] by simp
next
  case (stop p b)
  then have "p' = p" "b' = b" "rp_state p = Done" using parse_step_Complete by blast+
  then show ?case by (simp add: parse.simps [of p "b @ t"] parse_step_def)
qed

lemma parse_step_not_RequestLine:
  "parse_step p b = (None, p', b') \<Longrightarrow> rp_state p' \<noteq> RequestLine"
  by (cases "rp_state p")
    (auto simp: step_defs Let_def split: option.splits prod.splits if_splits
      dest: arg_cong [where f = "\<lambda>x. rp_state (snd x)"] simp: finishHeaders_state)

lemma parse_Error_append:
  "parse p b = (Error, p', b') \<Longrightarrow> \<not> line_limit_gap p b t \<Longrightarrow>
     \<exists>p'' b''. parse p (b @ t) = (Error, p'', b'') \<and> rp_error p'' = rp_error p'"
proof (induction rule: parse_run_induct)
  case (continue p b q c)
  have "\<not> line_limit_gap q c t"
    using parse_step_not_RequestLine [OF continue.hyps(1)] by (simp add: line_limit_gap_def)
  with continue.IH show ?case
    using parse_continue [OF parse_step_continue_append [OF continue.hyps(1)]] by simp
next
  case (stop p b)
  then show ?case using parse_step_Error_append parse_stop by blast
qed

lemma parse_RequestLine_NeedMore:
  "parse p b = (NeedMore, p', b') \<Longrightarrow> rp_state p' = RequestLine \<Longrightarrow> p' = p \<and> b' = b"
proof (induction rule: parse_run_induct)
  case (continue p b q c)
  then show ?case using parse_step_not_RequestLine by blast
next
  case (stop p b)
  then show ?case using parse_step_NeedMore by blast
qed

subsection \<open>Arrival in chunks\<close>

text \<open>
  What the reading side does with a request that arrives in pieces: append each piece to the
  buffer, parse, and go on while the answer is \<open>NeedMore\<close>. Pieces not yet looked at stay
  behind the buffer.
\<close>

fun feed :: "RequestParser \<Rightarrow> string \<Rightarrow> string list \<Rightarrow> Result \<times> RequestParser \<times> string" where
  "feed p buffer [] = (NeedMore, p, buffer)"
| "feed p buffer (c # cs) =
     (case parse p (buffer @ c) of
        (NeedMore, p', buffer') \<Rightarrow> feed p' buffer' cs
      | (r, p', buffer') \<Rightarrow> (r, p', buffer' @ concat cs))"

definition same_outcome ::
  "Result \<times> RequestParser \<times> string \<Rightarrow> Result \<times> RequestParser \<times> string \<Rightarrow> bool" where
  "same_outcome x y \<longleftrightarrow>
     (if fst x = Error then fst y = Error \<and> rp_error (fst (snd x)) = rp_error (fst (snd y))
      else x = y)"

lemma same_outcome_feed:
  assumes "rp_state p = RequestLine \<Longrightarrow> find_str crlf (b @ concat cs) \<noteq> Some maxRequestLine"
    and "cs \<noteq> []"
  shows "same_outcome (feed p b cs) (parse p (b @ concat cs))"
  using assms
proof (induction cs arbitrary: p b)
  case (Cons c cs)
  obtain r p' b' where pr: "parse p (b @ c) = (r, p', b')" by (cases "parse p (b @ c)") auto
  show ?case
  proof (cases r)
    case NeedMore
    note resume = parse_resume [OF pr [unfolded NeedMore], of "concat cs"]
    show ?thesis
    proof (cases "cs = []")
      case True
      with pr NeedMore show ?thesis by (simp add: same_outcome_def)
    next
      case False
      have "rp_state p' = RequestLine \<Longrightarrow> find_str crlf (b' @ concat cs) \<noteq> Some maxRequestLine"
        using parse_RequestLine_NeedMore [OF pr [unfolded NeedMore]] Cons.prems(1) by auto
      from Cons.IH [OF this False] pr NeedMore resume show ?thesis by simp
    qed
  next
    case Complete
    with pr parse_Complete_append [of p "b @ c" p' b' "concat cs"] show ?thesis
      by (simp add: same_outcome_def)
  next
    case Error
    have "\<not> line_limit_gap p (b @ c) (concat cs)"
      using Cons.prems(1) by (auto simp: line_limit_gap_def)
    with parse_Error_append [OF pr [unfolded Error], of "concat cs"] pr Error show ?thesis
      by (auto simp: same_outcome_def)
  qed
qed simp

subsection \<open>The invariant of a parser that has not failed\<close>

definition request_ok :: "HttpRequest \<Rightarrow> bool" where
  "request_ok rq \<longleftrightarrow>
     rq_method rq \<noteq> [] \<and> CHR '' '' \<notin> set (rq_method rq) \<and>
     CHR '' '' \<notin> set (rq_target rq) \<and>
     rq_path rq \<noteq> [] \<and> hd (rq_path rq) = CHR ''/'' \<and> CHR ''?'' \<notin> set (rq_path rq) \<and>
     (rq_target rq = rq_path rq \<and> rq_query rq = [] \<or>
      rq_target rq = rq_path rq @ CHR ''?'' # rq_query rq) \<and>
     rq_version rq \<in> {''HTTP/1.1'', ''HTTP/1.0''} \<and>
     umap_inv (rq_headers rq)"

definition parser_inv :: "RequestParser \<Rightarrow> bool" where
  "parser_inv p \<longleftrightarrow>
     rp_headerBytes p \<le> maxHeaderBlock \<and> rp_contentLength p \<le> maxBody \<and>
     (case rp_state p of
        RequestLine \<Rightarrow> p = RequestParser_init
      | Headers \<Rightarrow> request_ok (rp_req p) \<and> rq_body (rp_req p) = [] \<and> rp_contentLength p = 0
      | Body \<Rightarrow> request_ok (rp_req p) \<and> rq_body (rp_req p) = [] \<and> 0 < rp_contentLength p
      | Done \<Rightarrow> request_ok (rp_req p) \<and> length (rq_body (rp_req p)) = rp_contentLength p)"

lemma parser_inv_init: "parser_inv RequestParser_init"
  by (simp add: parser_inv_def RequestParser_init_def)

lemma parser_inv_reset: "reset p = RequestParser_init"
  by (simp add: reset_def RequestParser_init_def)

lemma add_header_inv: "umap_inv hs \<Longrightarrow> umap_inv (add_header n v hs)"
  by (simp add: add_header_def hashed.inv_update split: option.split)

lemma request_ok_headers: "request_ok rq \<Longrightarrow> umap_inv hs \<Longrightarrow> request_ok (rq\<lparr>rq_headers := hs\<rparr>)"
  by (simp add: request_ok_def)

lemma request_ok_keepAlive: "request_ok (set_keepAlive rq) = request_ok rq"
  by (simp add: request_ok_def set_keepAlive_def Let_def)

lemma split_target_ok:
  assumes "rq_target rq \<noteq> []" and "rq_target rq ! 0 = CHR ''/''" and "rq_query rq = []"
  shows "let rq' = split_target rq in
     rq_path rq' \<noteq> [] \<and> hd (rq_path rq') = CHR ''/'' \<and> CHR ''?'' \<notin> set (rq_path rq') \<and>
     (rq_target rq' = rq_path rq' \<and> rq_query rq' = [] \<or>
      rq_target rq' = rq_path rq' @ CHR ''?'' # rq_query rq')"
proof (cases "find_char (CHR ''?'') (rq_target rq)")
  case None
  then have "CHR ''?'' \<notin> set (rq_target rq)" by (simp add: find_char_None_iff)
  with None assms show ?thesis
    by (simp add: split_target_def hd_conv_nth Let_def)
next
  case (Some i)
  note d = find_char_SomeD [OF Some]
  have "i \<noteq> 0"
  proof
    assume "i = 0"
    with find_char_nth [OF Some] assms(2) show False by simp
  qed
  with Some d assms(1,2) show ?thesis
    by (cases "rq_target rq") (auto simp: split_target_def substr_def Let_def hd_take)
qed

lemma parseRequestLine_ok:
  assumes "parseRequestLine line RequestParser_init = (True, p)"
  shows "request_ok (rp_req p) \<and> rq_body (rp_req p) = [] \<and> rp_contentLength p = 0 \<and>
    rp_headerBytes p = 0"
proof -
  obtain i j where i: "find_char (CHR '' '') line = Some i"
    and j: "find_char_from (CHR '' '') (i + 1) line = Some j"
    using assms by (auto simp: parseRequestLine_def fail_def split: option.splits)
  define rq where "rq = HttpRequest_init\<lparr>rq_method := substr line 0 i,
     rq_target := substr line (i + 1) (j - i - 1), rq_version := drop (j + 1) line\<rparr>"
  have ok: "rq_method rq \<noteq> []" "rq_target rq \<noteq> []" "rq_target rq ! 0 = CHR ''/''"
    "rq_version rq \<in> {''HTTP/1.1'', ''HTTP/1.0''}" and
    p: "p = RequestParser_init\<lparr>rp_req := (split_target rq)\<lparr>rq_keepAlive := (rq_version rq = ''HTTP/1.1'')\<rparr>\<rparr>"
    using assms i j
    by (auto simp: parseRequestLine_def fail_def rq_def RequestParser_init_def Let_def split: if_splits)
  have m: "CHR '' '' \<notin> set (rq_method rq)"
    using find_char_SomeD [OF i] by (simp add: rq_def substr_def)
  from j obtain k where k: "find_char (CHR '' '') (drop (i + 1) line) = Some k" "j = i + 1 + k"
    by (auto simp: find_char_from_def)
  have t: "CHR '' '' \<notin> set (rq_target rq)"
    using find_char_SomeD [OF k(1)] k(2) by (simp add: rq_def substr_def)
  have q: "rq_query rq = []" "rq_headers rq = []" "rq_body rq = []"
    by (simp_all add: rq_def HttpRequest_init_def)
  have fr: "rq_method (split_target rq) = rq_method rq" "rq_target (split_target rq) = rq_target rq"
    "rq_version (split_target rq) = rq_version rq" "rq_headers (split_target rq) = rq_headers rq"
    "rq_body (split_target rq) = rq_body rq"
    by (simp_all add: split_target_def split: option.split)
  from split_target_ok [OF ok(2,3) q(1)] ok(1,4) m t show ?thesis
    by (auto simp: p request_ok_def Let_def fr q umap_inv_def RequestParser_init_def)
qed

lemma finishHeaders_ok:
  assumes "finishHeaders p = (True, p')"
  shows "rp_contentLength p' \<le> max maxBody (rp_contentLength p) \<and> rp_headerBytes p' = rp_headerBytes p \<and>
    rp_req p' = set_keepAlive (rp_req p)"
  using assms by (auto simp: finishHeaders_def fail_def Let_def split: if_splits prod.splits)

lemma set_keepAlive_body [simp]: "rq_body (set_keepAlive rq) = rq_body rq"
  by (simp add: set_keepAlive_def Let_def)

lemma parser_inv_step:
  assumes "parser_inv p" and "parse_step p b = (None, p', b')"
  shows "parser_inv p'"
proof (cases "rp_state p")
  case RequestLine
  with assms(1) have p: "p = RequestParser_init" by (simp add: parser_inv_def)
  from assms(2) RequestLine obtain i p1 where
    "parseRequestLine (substr b 0 i) p = (True, p1)" "p' = p1\<lparr>rp_state := Headers\<rparr>"
    by (auto simp: step_defs split: option.splits prod.splits if_splits)
  with parseRequestLine_ok p show ?thesis by (simp add: parser_inv_def)
next
  case Headers
  from assms(1) Headers have inv: "request_ok (rp_req p)" "rq_body (rp_req p) = []" "rp_contentLength p = 0"
    by (auto simp: parser_inv_def)
  from inv(1) have hs: "umap_inv (rq_headers (rp_req p))" by (simp add: request_ok_def)
  from assms(2) Headers obtain i where i: "find_str crlf b = Some i"
    and le: "rp_headerBytes p + i + 2 \<le> maxHeaderBlock"
    by (auto simp: step_defs Let_def split: option.splits if_splits)
  define p1 where "p1 = p\<lparr>rp_headerBytes := rp_headerBytes p + i + 2\<rparr>"
  show ?thesis
  proof (cases "substr b 0 i = []")
    case True
    with assms(2) Headers i obtain p2 where "finishHeaders p1 = (True, p2)"
      "p' = p2\<lparr>rp_state := (if rp_contentLength p2 > 0 then Body else Done)\<rparr>"
      by (auto simp: step_defs Let_def p1_def split: if_splits prod.splits)
    with finishHeaders_ok [of p1 p2] inv le show ?thesis
      by (auto simp: parser_inv_def p1_def request_ok_keepAlive)
  next
    case False
    with assms(2) Headers i obtain n v where
      "p' = p1\<lparr>rp_req := (rp_req p)\<lparr>rq_headers := add_header n v (rq_headers (rp_req p))\<rparr>\<rparr>"
      by (auto simp: step_defs Let_def p1_def split: if_splits option.splits)
    with Headers inv le show ?thesis
      by (simp add: parser_inv_def p1_def request_ok_headers add_header_inv [OF hs])
  qed
next
  case Body
  with assms show ?thesis
    by (auto simp: parser_inv_def step_defs substr_def request_ok_def split: if_splits)
next
  case Done
  with assms show ?thesis by (simp add: step_defs)
qed

lemma parser_inv_parse:
  "parse p b = (r, p', b') \<Longrightarrow> parser_inv p \<Longrightarrow> r \<noteq> Error \<Longrightarrow> parser_inv p'"
proof (induction rule: parse_run_induct)
  case (continue p b q c)
  then show ?case using parser_inv_step by blast
next
  case (stop p b)
  then show ?case using parse_step_NeedMore parse_step_Complete by (cases r) blast+
qed

lemma parse_Complete_state: "parse p b = (Complete, p', b') \<Longrightarrow> rp_state p' = Done"
proof (induction rule: parse_run_induct)
  case (stop p b)
  then show ?case using parse_step_Complete by blast
qed simp

text \<open>What a parser that asks for more keeps in memory.\<close>

fun pending_limit :: "State \<Rightarrow> nat" where
  "pending_limit RequestLine = maxRequestLine"
| "pending_limit Headers = maxHeaderBlock"
| "pending_limit Body = maxBody - 1"
| "pending_limit Done = 0"

lemma parse_NeedMore_bounded:
  "parse p b = (NeedMore, p', b') \<Longrightarrow> parser_inv p \<Longrightarrow> length b' \<le> pending_limit (rp_state p')"
proof (induction rule: parse_run_induct)
  case (continue p b q c)
  then show ?case using parser_inv_step by blast
next
  case (stop p b)
  then have "p' = p" "b' = b" using parse_step_NeedMore by blast+
  with stop show ?case
    by (cases "rp_state p")
      (auto simp: parser_inv_def step_defs Let_def split: option.splits prod.splits if_splits)
qed






subsection \<open>What a client writes is what the parser reads\<close>

text \<open>A request as a client writes it, and the request the server should see.\<close>

definition header_block :: "(string \<times> string) list \<Rightarrow> string" where
  "header_block hs = concat (map (\<lambda>h. header_line (fst h) (snd h)) hs)"

definition render_request ::
  "string \<Rightarrow> string \<Rightarrow> string \<Rightarrow> (string \<times> string) list \<Rightarrow> string \<Rightarrow> string" where
  "render_request m t v hs body =
     (m @ '' '' @ t @ '' '' @ v) @ crlf @ header_block hs @ crlf @ body"

definition collect_headers ::
  "(string \<times> string) list \<Rightarrow> (string, string) unordered_map \<Rightarrow> (string, string) unordered_map" where
  "collect_headers hs = fold (\<lambda>h. add_header (toLower (fst h)) (snd h)) hs"

definition seen_request ::
  "string \<Rightarrow> string \<Rightarrow> string \<Rightarrow> (string \<times> string) list \<Rightarrow> string \<Rightarrow> HttpRequest" where
  "seen_request m t v hs body =
     (set_keepAlive ((split_target (HttpRequest_init\<lparr>rq_method := m, rq_target := t, rq_version := v\<rparr>))
        \<lparr>rq_keepAlive := (v = ''HTTP/1.1''), rq_headers := collect_headers hs []\<rparr>))
     \<lparr>rq_body := body\<rparr>"

definition client_header_ok :: "string \<times> string \<Rightarrow> bool" where
  "client_header_ok h \<longleftrightarrow> fst h \<noteq> [] \<and> trimmed (fst h) \<and> trimmed (snd h) \<and>
     CHR '':'' \<notin> set (fst h) \<and> CR \<notin> set (fst h) \<and> CR \<notin> set (snd h)"

definition client_request_ok ::
  "string \<Rightarrow> string \<Rightarrow> string \<Rightarrow> (string \<times> string) list \<Rightarrow> string \<Rightarrow> bool" where
  "client_request_ok m t v hs body \<longleftrightarrow>
     m \<noteq> [] \<and> CHR '' '' \<notin> set m \<and> CR \<notin> set m \<and>
     t \<noteq> [] \<and> hd t = CHR ''/'' \<and> CHR '' '' \<notin> set t \<and> CR \<notin> set t \<and>
     (v = ''HTTP/1.1'' \<or> v = ''HTTP/1.0'') \<and>
     length m + length t + 10 \<le> maxRequestLine \<and>
     list_all client_header_ok hs \<and> length (header_block hs) + 2 \<le> maxHeaderBlock \<and>
     length body \<le> maxBody \<and>
     map_of (collect_headers hs []) ''transfer-encoding'' = None \<and>
     map_of (collect_headers hs []) ''content-length'' =
       (if body = [] then None else Some (dec_nat (length body)))"

lemma parseRequestLine_render:
  assumes "m \<noteq> []" "CHR '' '' \<notin> set m" "t \<noteq> []" "hd t = CHR ''/''" "CHR '' '' \<notin> set t"
    and "v = ''HTTP/1.1'' \<or> v = ''HTTP/1.0''"
  shows "parseRequestLine (m @ '' '' @ t @ '' '' @ v) p =
     (True, p\<lparr>rp_req := (split_target ((rp_req p)\<lparr>rq_method := m, rq_target := t, rq_version := v\<rparr>))
       \<lparr>rq_keepAlive := (v = ''HTTP/1.1'')\<rparr>\<rparr>)"
proof -
  have i: "find_char (CHR '' '') (m @ '' '' @ t @ '' '' @ v) = Some (length m)"
    using find_char_append [OF assms(2)] by simp
  have j: "find_char_from (CHR '' '') (length m + 1) (m @ '' '' @ t @ '' '' @ v) =
      Some (length m + 1 + length t)"
    using find_char_append [OF assms(5)] by (simp add: find_char_from_def)
  have "t ! 0 = CHR ''/''" using assms(3,4) by (simp add: hd_conv_nth)
  with assms(1,3,6) show ?thesis
    unfolding parseRequestLine_def i option.case j
    by (auto simp: Let_def substr_def)
qed

lemma step_header_line:
  assumes "rp_state p = Headers" and "client_header_ok h"
    and "rp_headerBytes p + length (header_line (fst h) (snd h)) \<le> maxHeaderBlock"
  shows "parse_step p (header_line (fst h) (snd h) @ r) =
     (None, p\<lparr>rp_headerBytes := rp_headerBytes p + length (header_line (fst h) (snd h)),
              rp_req := (rp_req p)\<lparr>rq_headers :=
                add_header (toLower (fst h)) (snd h) (rq_headers (rp_req p))\<rparr>\<rparr>, r)"
proof -
  let ?l = "fst h @ '': '' @ snd h"
  have e: "header_line (fst h) (snd h) @ r = ?l @ CR # LF # r" by (simp add: header_line_def)
  have f: "find_str crlf (?l @ CR # LF # r) = Some (length ?l)"
    using assms(2) by (intro find_crlf_append) (auto simp: client_header_ok_def)
  have c: "find_char (CHR '':'') ?l = Some (length (fst h))"
    using find_char_append [of "CHR '':''" "fst h"] assms(2) by (simp add: client_header_ok_def)
  have t: "trim (fst h) = fst h" "trim (CHR '' '' # snd h) = snd h"
    using assms(2) by (simp_all add: client_header_ok_def trim_trimmed trim_space_trimmed)
  show ?thesis
    unfolding e parse_step_def assms(1) State.case step_Headers_def f option.case substr_line
      drop_line Let_def c
    using assms(2,3) t
    by (simp add: client_header_ok_def substr_def header_line_def add.assoc)
qed

lemma parse_header_block:
  assumes "rp_state p = Headers" and "list_all client_header_ok hs"
    and "rp_headerBytes p + length (header_block hs) \<le> maxHeaderBlock"
  shows "parse p (header_block hs @ r) =
     parse (p\<lparr>rp_headerBytes := rp_headerBytes p + length (header_block hs),
              rp_req := (rp_req p)\<lparr>rq_headers := collect_headers hs (rq_headers (rp_req p))\<rparr>\<rparr>) r"
  using assms
proof (induction hs arbitrary: p)
  case Nil
  then show ?case by (simp add: header_block_def collect_headers_def)
next
  case (Cons h hs)
  let ?q = "p\<lparr>rp_headerBytes := rp_headerBytes p + length (header_line (fst h) (snd h)),
      rp_req := (rp_req p)\<lparr>rq_headers :=
        add_header (toLower (fst h)) (snd h) (rq_headers (rp_req p))\<rparr>\<rparr>"
  have e: "header_block (h # hs) = header_line (fst h) (snd h) @ header_block hs"
    by (simp add: header_block_def)
  have "parse p (header_block (h # hs) @ r) = parse ?q (header_block hs @ r)"
    using step_header_line [of p h "header_block hs @ r"] Cons.prems
    by (intro parse_continue) (simp add: e)
  also have "\<dots> = parse (?q\<lparr>rp_headerBytes := rp_headerBytes ?q + length (header_block hs),
      rp_req := (rp_req ?q)\<lparr>rq_headers := collect_headers hs (rq_headers (rp_req ?q))\<rparr>\<rparr>) r"
    using Cons.prems by (intro Cons.IH) (simp_all add: e)
  finally show ?case by (simp add: e collect_headers_def add.assoc)
qed

lemma toLower_lengths:
  "toLower ''content-length'' = ''content-length''"
  "toLower ''transfer-encoding'' = ''transfer-encoding''"
  by (simp_all add: toLower_def tolower_def)

lemma finishHeaders_length:
  assumes "map_of (rq_headers (rp_req p)) ''transfer-encoding'' = None"
    and "map_of (rq_headers (rp_req p)) ''content-length'' =
      (if n = 0 then None else Some (dec_nat n))"
    and "rp_contentLength p = 0" and "n \<le> maxBody"
  shows "finishHeaders p = (True, p\<lparr>rp_contentLength := n, rp_req := set_keepAlive (rp_req p)\<rparr>)"
proof (cases "n = 0")
  case True
  with assms show ?thesis by (simp add: finishHeaders_def header_def toLower_lengths)
next
  case False
  have "int n \<le> llong_max" using assms(4) by (simp add: llong_max_def maxBody_def)
  with False assms show ?thesis
    by (simp add: finishHeaders_def header_def toLower_lengths strtoll_dec_nat)
qed

lemma parse_blank_line:
  assumes "rp_state p = Headers" and "rp_headerBytes p + 2 \<le> maxHeaderBlock"
    and "finishHeaders (p\<lparr>rp_headerBytes := rp_headerBytes p + 2\<rparr>) = (True, p2)"
  shows "parse p (crlf @ r) =
     parse (p2\<lparr>rp_state := (if rp_contentLength p2 > 0 then Body else Done)\<rparr>) r"
  using assms by (intro parse_continue) (simp add: step_defs Let_def substr_def)

lemma parse_body:
  assumes "rp_state p = Body"
  and "rp_contentLength p = length body"
  shows "parse p (body @ r) = (Complete, p\<lparr>rp_req := (rp_req p)\<lparr>rq_body := body\<rparr>, rp_state := Done\<rparr>, r)"
  using assms
  by (subst parse_continue [of p _ "p\<lparr>rp_req := (rp_req p)\<lparr>rq_body := body\<rparr>, rp_state := Done\<rparr>" r])
    (simp_all add: step_defs substr_def parse.simps)

lemma parse_Done: "rp_state p = Done \<Longrightarrow> parse p b = (Complete, p, b)"
  by (simp add: parse.simps parse_step_def)

lemma rq_body_same: "rq_body rq = b \<Longrightarrow> rq\<lparr>rq_body := b\<rparr> = rq"
  by (cases rq) simp

lemma parse_request_line:
  assumes "m \<noteq> []" "CHR '' '' \<notin> set m" "t \<noteq> []" "hd t = CHR ''/''" "CHR '' '' \<notin> set t"
    and "v = ''HTTP/1.1'' \<or> v = ''HTTP/1.0''" and "CR \<notin> set m" "CR \<notin> set t"
    and "length m + length t + 10 \<le> maxRequestLine" and "rp_state p = RequestLine"
  shows "parse p ((m @ '' '' @ t @ '' '' @ v) @ CR # LF # s) =
     parse (p\<lparr>rp_req := (split_target ((rp_req p)\<lparr>rq_method := m, rq_target := t, rq_version := v\<rparr>))
       \<lparr>rq_keepAlive := (v = ''HTTP/1.1'')\<rparr>, rp_state := Headers\<rparr>) s"
proof (rule parse_continue)
  let ?line = "m @ '' '' @ t @ '' '' @ v"
  have cr: "CR \<notin> set ?line" and len: "length ?line \<le> maxRequestLine"
    using assms(6-9) by auto
  show "parse_step p (?line @ CR # LF # s) = (None, p\<lparr>rp_req :=
      (split_target ((rp_req p)\<lparr>rq_method := m, rq_target := t, rq_version := v\<rparr>))
       \<lparr>rq_keepAlive := (v = ''HTTP/1.1'')\<rparr>, rp_state := Headers\<rparr>, s)"
    unfolding parse_step_def assms(10) State.case step_RequestLine_def find_crlf_append [OF cr]
      option.case substr_line drop_line parseRequestLine_render [OF assms(1-6)]
    using len by simp
qed

lemma parse_render:
  assumes "client_request_ok m t v hs body"
  shows "\<exists>p. parse RequestParser_init (render_request m t v hs body @ rest) = (Complete, p, rest) \<and>
     rp_req p = seen_request m t v hs body"
proof -
  note ok = assms [unfolded client_request_ok_def]
  let ?rq = "(split_target (HttpRequest_init\<lparr>rq_method := m, rq_target := t, rq_version := v\<rparr>))
       \<lparr>rq_keepAlive := (v = ''HTTP/1.1'')\<rparr>"
  let ?p1 = "RequestParser_init\<lparr>rp_req := ?rq, rp_state := Headers\<rparr>"
  let ?rq2 = "?rq\<lparr>rq_headers := collect_headers hs []\<rparr>"
  let ?p2 = "?p1\<lparr>rp_headerBytes := length (header_block hs), rp_req := ?rq2\<rparr>"
  let ?p3 = "?p2\<lparr>rp_headerBytes := length (header_block hs) + 2,
      rp_contentLength := length body, rp_req := set_keepAlive ?rq2\<rparr>"
  let ?p4 = "?p3\<lparr>rp_state := (if length body > 0 then Body else Done)\<rparr>"
  have p1: "rp_headerBytes ?p1 = 0" "rq_headers ?rq = []" "rq_body ?rq = []"
    by (simp_all add: RequestParser_init_def HttpRequest_init_def split_target_def split: option.split)
  have fin: "finishHeaders (?p2\<lparr>rp_headerBytes := rp_headerBytes ?p2 + 2\<rparr>) = (True, ?p3)"
    using finishHeaders_length [of "?p2\<lparr>rp_headerBytes := rp_headerBytes ?p2 + 2\<rparr>" "length body"] ok
    by (simp add: RequestParser_init_def)
  have "parse RequestParser_init (render_request m t v hs body @ rest) =
      parse ?p1 (header_block hs @ crlf @ body @ rest)"
    using parse_request_line [of m t v RequestParser_init] ok
    by (simp add: render_request_def RequestParser_init_def)
  also have "\<dots> = parse ?p2 (crlf @ body @ rest)"
    using parse_header_block [of ?p1 hs] ok p1 by simp
  also have "\<dots> = parse ?p4 (body @ rest)"
    using parse_blank_line [OF _ _ fin] ok by simp
  finally have all: "parse RequestParser_init (render_request m t v hs body @ rest) = parse ?p4 (body @ rest)" .
  show ?thesis
  proof (cases "body = []")
    case True
    with all p1(3) show ?thesis by (simp add: parse_Done seen_request_def rq_body_same)
  next
    case False
    with all show ?thesis
      using parse_body [of "?p3\<lparr>rp_state := Body\<rparr>" body rest] by (simp add: seen_request_def)
  qed
qed

section \<open>Properties of the parser\<close>

text \<open>
  C1: A request may arrive in any number of pieces. When \<open>parse\<close> asks for more, calling it
  again on the kept parser state and the kept bytes followed by the new ones gives exactly
  what one call on all the bytes gives: same result, same parser state, same bytes left over.
\<close>

theorem parse_resumable:
  assumes "parse p b = (NeedMore, p', b')"
  shows "parse p (b @ t) = parse p' (b' @ t)"
  using assms by (rule parse_resume)

theorem parse_resumable_witness:
  "\<exists>p' b'. parse RequestParser_init (''GET /healthz HTTP/1.1'' @ crlf @ ''Ho'') = (NeedMore, p', b')
     \<and> b' = ''Ho''
     \<and> parse RequestParser_init ((''GET /healthz HTTP/1.1'' @ crlf @ ''Ho'') @ ''st: x'' @ crlf @ crlf)
         = parse p' (b' @ ''st: x'' @ crlf @ crlf)
     \<and> fst (parse p' (b' @ ''st: x'' @ crlf @ crlf)) = Complete"
proof -
  let ?b = "''GET /healthz HTTP/1.1'' @ crlf @ ''Ho''" and ?t = "''st: x'' @ crlf @ crlf"
  have r: "fst (parse RequestParser_init ?b) = NeedMore" by code_simp
  have b: "snd (snd (parse RequestParser_init ?b)) = ''Ho''" by code_simp
  have c: "fst (parse RequestParser_init (?b @ ?t)) = Complete" by code_simp
  from r b obtain p' where p': "parse RequestParser_init ?b = (NeedMore, p', ''Ho'')"
    by (metis prod.collapse)
  from parse_resumable [OF p', of ?t] c p' show ?thesis by (metis append.assoc)
qed

text \<open>
  C2: Arrival in chunks. Feeding the parser any non-empty list of chunks, as the reading loop
  does, has the outcome of one call on their concatenation: the same result, and for a result
  other than \<open>Error\<close> also the same parser state and left-over bytes, for \<open>Error\<close> the same
  status. The one exclusion is a request line of exactly the maximal length.
\<close>

theorem feed_chunks_outcome:
  assumes "cs \<noteq> []" and "find_str crlf (concat cs) \<noteq> Some maxRequestLine"
  shows "same_outcome (feed p [] cs) (parse p (concat cs))"
  using same_outcome_feed [of p "[]" cs] assms by simp

theorem feed_chunks_outcome_witness:
  "same_outcome (feed RequestParser_init [] [''GET /a HT'', ''TP/1.1'' @ [CR], LF # crlf])
     (parse RequestParser_init (''GET /a HTTP/1.1'' @ crlf @ crlf))"
proof -
  have h: "find_str crlf (concat [''GET /a HT'', ''TP/1.1'' @ [CR], LF # crlf]) \<noteq> Some maxRequestLine"
    by code_simp
  show ?thesis
    using feed_chunks_outcome [OF _ h, of RequestParser_init] by simp
qed

definition limit_request :: string where
  "limit_request = render_request ''GET'' (CHR ''/'' # replicate 8178 (CHR ''a'')) ''HTTP/1.1'' [] []"

lemma limit_request_ok:
  "client_request_ok ''GET'' (CHR ''/'' # replicate 8178 (CHR ''a'')) ''HTTP/1.1'' [] []"
  by (simp add: client_request_ok_def maxRequestLine_def maxHeaderBlock_def header_block_def
      collect_headers_def)

lemma find_crlf_no_LF: "LF \<notin> set s \<Longrightarrow> find_str crlf s = None"
proof (induction s)
  case (Cons c s)
  then show ?case by (cases s) auto
qed simp

text \<open>
  C35: The exclusion in the chunking property is real. A request line of exactly \<open>maxRequestLine\<close> bytes is
  accepted when its CR and LF arrive together, and the same bytes are answered with status
  414 when a read ends between the CR and the LF: the check for a missing line end counts the
  CR as part of the line.
\<close>

theorem request_line_limit_depends_on_chunking:
  "fst (parse RequestParser_init limit_request) = Complete \<and>
   (\<exists>p b. feed RequestParser_init [] [take 8193 limit_request, drop 8193 limit_request] = (Error, p, b)
      \<and> rp_error p = 414)"
proof
  show "fst (parse RequestParser_init limit_request) = Complete"
    using parse_render [OF limit_request_ok, of "[]"] by (auto simp: limit_request_def)
next
  let ?l = "''GET /'' @ replicate 8178 (CHR ''a'') @ '' HTTP/1.1'' @ [CR]"
  have l: "limit_request = ?l @ LF # crlf"
    by (simp add: limit_request_def render_request_def header_block_def)
  have len: "length ?l = 8193" by simp
  have t: "take 8193 limit_request = ?l" unfolding l using len by (simp only: take_append) simp
  have "find_str crlf ?l = None" by (rule find_crlf_no_LF) simp
  then have "parse_step RequestParser_init ?l = (Some Error, RequestParser_init\<lparr>rp_error := 414\<rparr>, ?l)"
    using len by (simp add: step_defs RequestParser_init_def maxRequestLine_def del: length_append)
  from parse_stop [OF this]
  show "\<exists>p b. feed RequestParser_init [] [take 8193 limit_request, drop 8193 limit_request] =
      (Error, p, b) \<and> rp_error p = 414"
    unfolding t by simp
qed



text \<open>
  C4: Bounded memory and well-formed requests. From a parser that has not failed, every call
  that does not fail keeps the parser's invariant; when it asks for more, the bytes it keeps
  are within the limit of its state (8 KiB, 16 KiB or less than 1 MiB); when it is complete,
  the request has a method, an absolute path, a known version, consistent path and query, and
  a body of exactly the announced length, at most 1 MiB.
\<close>

theorem parse_bounded_and_well_formed:
  assumes "parser_inv p" and "parse p b = (r, p', b')" and "r \<noteq> Error"
  shows "parser_inv p' \<and>
     (if r = NeedMore then length b' \<le> pending_limit (rp_state p')
      else rp_state p' = Done \<and> request_ok (rp_req p') \<and>
           length (rq_body (rp_req p')) = rp_contentLength p' \<and> rp_contentLength p' \<le> maxBody)"
proof -
  have inv: "parser_inv p'" using parser_inv_parse assms by blast
  show ?thesis
  proof (cases r)
    case NeedMore
    with inv parse_NeedMore_bounded assms show ?thesis by auto
  next
    case Complete
    with assms(2) have "rp_state p' = Done" by (auto dest: parse_Complete_state)
    with inv Complete show ?thesis by (auto simp: parser_inv_def)
  qed (use assms in simp)
qed

theorem parse_bounded_and_well_formed_witness:
  "length (snd (snd (parse RequestParser_init (''GET / HTTP/1.1'' @ crlf @ ''Ho'')))) \<le> maxHeaderBlock
   \<and> parser_inv (fst (snd (parse RequestParser_init (''GET / HTTP/1.1'' @ crlf @ ''Ho''))))"
proof -
  let ?x = "parse RequestParser_init (''GET / HTTP/1.1'' @ crlf @ ''Ho'')"
  have r: "fst ?x = NeedMore" and s: "rp_state (fst (snd ?x)) = Headers" by code_simp+
  have e: "?x = (NeedMore, fst (snd ?x), snd (snd ?x))" using r by (metis prod.collapse)
  from parse_bounded_and_well_formed [OF parser_inv_init e] s show ?thesis by simp
qed



end
