(* ===== verification/Router.thy ===== *)
theory Router
  imports Http
begin

section \<open>The router\<close>

text \<open>
  \<open>Router\<close> of \<open>src/include/router.h\<close> and \<open>src/src/router.cpp\<close>. A handler is a
  \<open>std::function\<close> whose closure refers to the objects of the server, so it is a function
  from a request and the server state \<open>'s\<close> to a response and the new state. The routing
  table is a \<open>std::map\<close> ordered by (method, path).
\<close>

type_synonym 's Handler = "HttpRequest \<Rightarrow> 's \<Rightarrow> HttpResponse \<times> 's"

record 's Router =
  routes :: "(string \<times> string, 's Handler) std_map"
  knownPaths :: "string set"
  fallback :: "'s Handler option"

definition Router_init :: "'s Router" where
  "Router_init = \<lparr>routes = [], knownPaths = {}, fallback = None\<rparr>"

definition router_add :: "string \<Rightarrow> string \<Rightarrow> 's Handler \<Rightarrow> 's Router \<Rightarrow> 's Router" where
  "router_add meth path handler r =
     r\<lparr>routes := map_insert (meth, path) handler (routes r),
       knownPaths := insert path (knownPaths r)\<rparr>"

definition setFallback :: "'s Handler \<Rightarrow> 's Router \<Rightarrow> 's Router" where
  "setFallback handler r = r\<lparr>fallback := Some handler\<rparr>"

text \<open>The loop that builds the \<open>Allow\<close> header of a 405 response.\<close>

fun allow_loop :: "string \<Rightarrow> string \<Rightarrow> (string \<times> string, 's Handler) std_map \<Rightarrow> string" where
  "allow_loop path allowed [] = allowed"
| "allow_loop path allowed (e # es) =
     allow_loop path
       (if snd (fst e) = path
        then allowed @ (if allowed \<noteq> [] then '', '' else []) @ fst (fst e) @
             (if fst (fst e) = ''GET'' then '', HEAD'' else [])
        else allowed) es"

definition route :: "'s Router \<Rightarrow> 's Handler" where
  "route r request s =
     (let meth = (if rq_method request = ''HEAD'' then ''GET'' else rq_method request)
      in case map_of (routes r) (meth, rq_path request) of
           Some handler \<Rightarrow> handler request s
         | None \<Rightarrow>
             if rq_path request \<in> knownPaths r then
               let response = response_error 405;
                   allowed = allow_loop (rq_path request) [] (routes r)
               in (response\<lparr>rs_extraHeaders := rs_extraHeaders response @ [(''Allow'', allowed)]\<rparr>, s)
             else case fallback r of
                    Some handler \<Rightarrow> handler request s
                  | None \<Rightarrow> (response_error 404, s))"

subsection \<open>Tables built by registration\<close>

definition router_of :: "(string \<times> string \<times> 's Handler) list \<Rightarrow> 's Router" where
  "router_of adds = fold (\<lambda>(meth, path, handler). router_add meth path handler) adds Router_init"

definition registered :: "(string \<times> string \<times> 's Handler) list \<Rightarrow> string \<Rightarrow> string \<Rightarrow> 's Handler option" where
  "registered adds meth path = map_of (rev (map (\<lambda>(m, p, h). ((m, p), h)) adds)) (meth, path)"

lemma registered_mem: "registered adds m p \<noteq> None \<Longrightarrow> \<exists>h. (m, p, h) \<in> set adds"
  unfolding registered_def by (auto dest!: map_of_SomeD)

lemma router_fold:
  "map_of (routes (fold (\<lambda>(meth, path, handler). router_add meth path handler) adds r)) =
     map_of (routes r) ++ map_of (rev (map (\<lambda>(m, p, h). ((m, p), h)) adds)) \<and>
   knownPaths (fold (\<lambda>(meth, path, handler). router_add meth path handler) adds r) =
     knownPaths r \<union> (fst \<circ> snd) ` set adds \<and>
   fallback (fold (\<lambda>(meth, path, handler). router_add meth path handler) adds r) = fallback r \<and>
   (map_inv (routes r) \<longrightarrow>
     map_inv (routes (fold (\<lambda>(meth, path, handler). router_add meth path handler) adds r)))"
proof (induction adds arbitrary: r)
  case (Cons a adds)
  obtain m p h where a: "a = (m, p, h)" by (cases a)
  show ?case
    using Cons.IH [of "router_add m p h r"]
    by (auto simp: a router_add_def map_inv_insert fun_eq_iff map_add_def split: option.split)
qed simp

lemma router_of_simps:
  "map_of (routes (router_of adds)) (m, p) = registered adds m p"
  "knownPaths (router_of adds) = (fst \<circ> snd) ` set adds"
  "fallback (router_of adds) = None"
  "map_inv (routes (router_of adds))"
  using router_fold [of adds Router_init]
  by (simp_all add: router_of_def registered_def Router_init_def map_inv_Nil)

subsection \<open>The Allow header\<close>

definition allow_methods :: "string \<Rightarrow> string list" where
  "allow_methods m = (if m = ''GET'' then [''GET'', ''HEAD''] else [m])"

definition methods_for :: "string \<Rightarrow> (string \<times> string, 's Handler) std_map \<Rightarrow> string list" where
  "methods_for path es = map (fst \<circ> fst) (filter (\<lambda>e. snd (fst e) = path) es)"

lemma join_append: "xs \<noteq> [] \<Longrightarrow> ys \<noteq> [] \<Longrightarrow> join sep (xs @ ys) = join sep xs @ sep @ join sep ys"
proof (induction xs)
  case (Cons x xs)
  then show ?case by (cases "xs = []") (simp_all add: join_Cons)
qed simp

lemma join_not_Nil: "x \<noteq> [] \<Longrightarrow> join sep (x # xs) \<noteq> []"
  by (cases xs) simp_all

lemma allow_loop_join:
  assumes "\<forall>e\<in>set es. fst (fst e) \<noteq> []" and "\<forall>m\<in>set ms. m \<noteq> []"
  shows "allow_loop path (join '', '' (concat (map allow_methods ms))) es =
     join '', '' (concat (map allow_methods (ms @ methods_for path es)))"
  using assms
proof (induction es arbitrary: ms)
  case (Cons e es)
  let ?m = "fst (fst e)" and ?j = "join '', '' (concat (map allow_methods ms))"
  have j: "?j = [] \<longleftrightarrow> ms = []"
    using Cons.prems(2) by (cases ms) (auto simp: allow_methods_def join_not_Nil)
  have ne: "concat (map allow_methods ms) = [] \<longleftrightarrow> ms = []"
    by (cases ms) (auto simp: allow_methods_def)
  have "join '', '' (concat (map allow_methods (ms @ [?m]))) =
      ?j @ (if ?j \<noteq> [] then '', '' else []) @ ?m @ (if ?m = ''GET'' then '', HEAD'' else [])"
    using j ne by (cases "ms = []") (auto simp: allow_methods_def join_append)
  with Cons.IH [of ms] Cons.IH [of "ms @ [?m]"] Cons.prems show ?case
    by (simp add: methods_for_def)
qed (simp add: methods_for_def)

lemma methods_for_sorted:
  assumes "map_inv es"
  shows "methods_for path es = sorted_list_of_set {m. map_of es (m, path) \<noteq> None}"
proof -
  have "sorted (methods_for path es) \<and> distinct (methods_for path es)"
    using assms
  proof (induction es)
    case (Cons e es)
    then have IH: "sorted (methods_for path es) \<and> distinct (methods_for path es)"
      by (simp add: map_inv_def)
    have "fst e < fst x" if "x \<in> set es" for x
      using Cons.prems that by (force simp: map_inv_def order.order_iff_strict image_iff)
    then have "\<forall>x\<in>set es. snd (fst e) = path \<longrightarrow> snd (fst x) = path \<longrightarrow> fst (fst e) < fst (fst x)"
      by (force simp: less_prod_def)
    with IH show ?case by (fastforce simp: methods_for_def)
  qed (simp add: methods_for_def)
  moreover have "set (methods_for path es) = {m. map_of es (m, path) \<noteq> None}"
    by (force simp: methods_for_def map_of_eq_None_iff)
  ultimately show ?thesis by (metis sorted_list_of_set.idem_if_sorted_distinct)
qed

section \<open>Properties of the router\<close>

definition with_fallback :: "'s Handler option \<Rightarrow> 's Router \<Rightarrow> 's Router" where
  "with_fallback fb r = (case fb of None \<Rightarrow> r | Some h \<Rightarrow> setFallback h r)"

text \<open>
  C23: Routing decides as documented. For every table of registrations (with non-empty
  methods) and every request: the handler registered last for the method (that of GET for a
  HEAD request) and the path runs; failing that, a path registered under another method is
  answered with 405 and an \<open>Allow\<close> header that lists exactly the methods of that path, in
  order, with HEAD after GET; failing that, the fallback runs; and without one the answer is
  404. Only a handler changes the state.
\<close>

theorem route_decides:
  assumes "\<forall>(m, p, h)\<in>set adds. m \<noteq> []"
  shows "route (with_fallback fb (router_of adds)) request s =
     (case registered adds (if rq_method request = ''HEAD'' then ''GET'' else rq_method request)
             (rq_path request) of
        Some h \<Rightarrow> h request s
      | None \<Rightarrow>
          if \<exists>m h. (m, rq_path request, h) \<in> set adds then
            ((response_error 405)\<lparr>rs_extraHeaders := [(''Allow'', join '', '' (concat (map allow_methods
               (sorted_list_of_set {m. registered adds m (rq_path request) \<noteq> None}))))]\<rparr>, s)
          else (case fb of Some h \<Rightarrow> h request s | None \<Rightarrow> (response_error 404, s)))"
proof -
  let ?r = "with_fallback fb (router_of adds)"
  have r: "routes ?r = routes (router_of adds)" "knownPaths ?r = (fst \<circ> snd) ` set adds" "fallback ?r = fb"
    by (auto simp: with_fallback_def setFallback_def router_of_simps split: option.split)
  have "\<forall>e\<in>set (routes (router_of adds)). fst (fst e) \<noteq> []"
  proof
    fix e assume "e \<in> set (routes (router_of adds))"
    then have "registered adds (fst (fst e)) (snd (fst e)) \<noteq> None"
      by (metis imageI map_of_eq_None_iff prod.collapse router_of_simps(1))
    then show "fst (fst e) \<noteq> []"
      using assms registered_mem by blast
  qed
  from allow_loop_join [OF this, of "[]" "rq_path request"]
  have a: "allow_loop (rq_path request) [] (routes (router_of adds)) = join '', '' (concat (map allow_methods
      (sorted_list_of_set {m. registered adds m (rq_path request) \<noteq> None})))"
    by (simp add: methods_for_sorted [OF router_of_simps(4)] router_of_simps(1))
  have k: "rq_path request \<in> (fst \<circ> snd) ` set adds \<longleftrightarrow> (\<exists>m h. (m, rq_path request, h) \<in> set adds)"
    by force
  have e: "rs_extraHeaders (response_error 405) = []"
    by (simp add: response_error_def HttpResponse_init_def Let_def)
  show ?thesis
    by (simp only: route_def r router_of_simps(1) a Let_def k e append_Nil)
qed

definition sample_routes :: "(string \<times> string \<times> nat Handler) list" where
  "sample_routes =
     [(''POST'', ''/kv'', \<lambda>q n. (response_text ''stored'' 201, n + 1)),
      (''GET'', ''/kv'', \<lambda>q n. (response_text ''read'' 200, n))]"

theorem route_decides_witness:
  "rs_extraHeaders (fst (route (router_of sample_routes)
     (HttpRequest_init\<lparr>rq_method := ''PUT'', rq_path := ''/kv''\<rparr>) 7)) = [(''Allow'', ''GET, HEAD, POST'')]"
proof -
  have "{m. registered sample_routes m ''/kv'' \<noteq> None} = {''GET'', ''POST''}"
    by (auto simp: sample_routes_def registered_def)
  moreover have "sorted_list_of_set {''GET'', ''POST''} = [''GET'', ''POST'']" by code_simp
  moreover have "registered sample_routes ''PUT'' ''/kv'' = None"
    by (simp add: sample_routes_def registered_def)
  moreover have "\<exists>m h. (m, ''/kv'', h) \<in> set sample_routes" by (auto simp: sample_routes_def)
  moreover have "\<forall>(m, p, h)\<in>set sample_routes. m \<noteq> []" by (simp add: sample_routes_def)
  ultimately show ?thesis
    using route_decides [of sample_routes None "HttpRequest_init\<lparr>rq_method := ''PUT'', rq_path := ''/kv''\<rparr>" 7]
    by (simp add: with_fallback_def allow_methods_def)
qed

end
