(* ===== verification/Logger.thy ===== *)
theory Logger
  imports Prelude
begin

section \<open>The asynchronous logger\<close>

text \<open>
  \<open>Logger\<close> of \<open>src/include/logger.h\<close> and \<open>src/src/logger.cpp\<close>: callers push formatted
  lines onto a queue, one thread drains it to the file. An execution interleaves the atomic
  steps of the caller threads, of the drain thread and of the destructor. \<open>enqueue\<close> reads
  the flag before it takes the mutex, so it is two steps and a caller can stand between them.
  The current time is an argument of the formatting functions.
\<close>

subsection \<open>Formatting\<close>

datatype LogLevel = DEBUG | INFO | WARNING | ERR

record LogData =
  ld_ip :: string
  ld_level :: LogLevel
  ld_startLine :: string
  ld_responseCode :: string
  ld_responseSize :: string

fun getLogLevelStr :: "LogLevel \<Rightarrow> string" where
  "getLogLevelStr DEBUG = ''[DEBUG]''"
| "getLogLevelStr INFO = ''[INFO]''"
| "getLogLevelStr WARNING = ''[WARNING]''"
| "getLogLevelStr ERR = ''[ERROR]''"

definition log_message_line :: "string \<Rightarrow> LogLevel \<Rightarrow> string \<Rightarrow> string" where
  "log_message_line now level message =
     now @ '' '' @ getLogLevelStr level @ '' '' @ message @ [CHR 0x0A]"

definition log_access_line :: "string \<Rightarrow> LogData \<Rightarrow> string" where
  "log_access_line now d =
     ld_ip d @ '' - '' @ now @ '' '' @ getLogLevelStr (ld_level d) @ '' \"'' @ ld_startLine d @
     ''\" '' @ ld_responseCode d @ '' '' @ ld_responseSize d @ [CHR 0x0A]"

subsection \<open>State\<close>

text \<open>
  Where the drain thread stands: waiting for the condition (the mutex is released), holding a
  line it has taken and has not written yet, or returned; and \<open>NoThread\<close> when the file did
  not open and no thread was started.
\<close>

datatype drainer = NoThread | Waiting | Writing string | Exited

record Logger =
  logQueue :: "string list"
  running :: bool
  logThread :: drainer
  entering :: "string list"  \<comment> \<open>lines of callers between the check of the flag and the push\<close>
  log_file :: string
  file_open :: bool

definition Logger_init :: "bool \<Rightarrow> Logger" where
  "Logger_init opened = \<lparr>logQueue = [], running = opened,
     logThread = (if opened then Waiting else NoThread), entering = [], log_file = [],
     file_open = opened\<rparr>"

subsection \<open>Operations\<close>

text \<open>\<open>enqueue\<close>: the unlocked check, and then the push under the mutex.\<close>

definition enqueue_check :: "string \<Rightarrow> Logger \<Rightarrow> Logger" where
  "enqueue_check logLine g =
     (if \<not> running g then g else g\<lparr>entering := entering g @ [logLine]\<rparr>)"

definition enqueue_push :: "nat \<Rightarrow> Logger \<Rightarrow> Logger option" where
  "enqueue_push i g =
     (if i < length (entering g)
      then Some (g\<lparr>entering := take i (entering g) @ drop (Suc i) (entering g),
                   logQueue := logQueue g @ [entering g ! i]\<rparr>)
      else None)"

text \<open>
  \<open>drainLoop\<close>: with the mutex held and the wait over, return or take the front line; then,
  without the mutex, write and flush it. \<^term>\<open>None\<close> means that the thread waits.
\<close>

definition drain_locked :: "Logger \<Rightarrow> Logger option" where
  "drain_locked g =
     (if logThread g \<noteq> Waiting then None
      else if \<not> (logQueue g \<noteq> [] \<or> \<not> running g) then None
      else if logQueue g = [] \<and> \<not> running g then Some (g\<lparr>logThread := Exited\<rparr>)
      else Some (g\<lparr>logThread := Writing (hd (logQueue g)), logQueue := tl (logQueue g)\<rparr>))"

definition drain_write :: "Logger \<Rightarrow> Logger option" where
  "drain_write g =
     (case logThread g of
        Writing l \<Rightarrow> Some (g\<lparr>log_file := log_file g @ l, logThread := Waiting\<rparr>)
      | _ \<Rightarrow> None)"

text \<open>The destructor: clear the flag under the mutex, join the thread, close the file.\<close>

definition destroy_stop :: "Logger \<Rightarrow> Logger" where
  "destroy_stop g = g\<lparr>running := False\<rparr>"

definition destroy_join :: "Logger \<Rightarrow> Logger option" where
  "destroy_join g =
     (if running g \<or> \<not> (logThread g = Exited \<or> logThread g = NoThread) then None
      else Some (g\<lparr>logThread := NoThread, file_open := False\<rparr>))"

subsection \<open>Executions\<close>

datatype log_event = Check string | Push string | Locked | Write | Stop | Join

inductive log_step :: "Logger \<Rightarrow> log_event \<Rightarrow> Logger \<Rightarrow> bool" where
  check: "log_step g (Check l) (enqueue_check l g)"
| push: "enqueue_push i g = Some g' \<Longrightarrow> log_step g (Push (entering g ! i)) g'"
| locked: "drain_locked g = Some g' \<Longrightarrow> log_step g Locked g'"
| write_line: "drain_write g = Some g' \<Longrightarrow> log_step g Write g'"
| stop: "log_step g Stop (destroy_stop g)"
| joined: "destroy_join g = Some g' \<Longrightarrow> log_step g Join g'"

inductive_simps log_step_iff:
  "log_step g (Check l) g'" "log_step g (Push l) g'" "log_step g Locked g'" "log_step g Write g'"
  "log_step g Stop g'" "log_step g Join g'"

definition pushed :: "log_event list \<Rightarrow> string list" where
  "pushed es = concat (map (\<lambda>e. case e of Push l \<Rightarrow> [l] | _ \<Rightarrow> []) es)"

definition in_flight :: "Logger \<Rightarrow> string" where
  "in_flight g = (case logThread g of Writing l \<Rightarrow> l | _ \<Rightarrow> [])"

definition log_stream :: "Logger \<Rightarrow> string" where
  "log_stream g = log_file g @ in_flight g @ concat (logQueue g)"

lemma log_step_stream: "log_step g e g' \<Longrightarrow> log_stream g' = log_stream g @ concat (pushed [e])"
proof (induction rule: log_step.induct)
  case (locked g g')
  then show ?case
    by (cases "logQueue g") (auto simp: log_stream_def drain_locked_def pushed_def in_flight_def
        split: if_splits)
qed (auto simp: log_stream_def enqueue_check_def enqueue_push_def drain_write_def destroy_stop_def
      destroy_join_def pushed_def in_flight_def split: if_splits drainer.splits)

lemma pushed_append: "pushed (es @ fs) = pushed es @ pushed fs"
  by (simp add: pushed_def)

lemma log_steps_stream: "steps log_step g es g' \<Longrightarrow> log_stream g' = log_stream g @ concat (pushed es)"
  by (induction rule: steps.induct) (auto simp: log_step_stream pushed_append pushed_def [of "[]"])

text \<open>A thread that returned had nothing left to write, and the flag stays cleared.\<close>

definition log_inv :: "Logger \<Rightarrow> bool" where
  "log_inv g \<longleftrightarrow>
     (logThread g = Exited \<longrightarrow> \<not> running g) \<and>
     (logThread g = NoThread \<longrightarrow> \<not> running g \<and> \<not> file_open g) \<and>
     (file_open g \<longrightarrow> logThread g \<noteq> NoThread)"

interpretation logger: step_invariant log_step log_inv
proof
  fix g e g' assume "log_inv g" "log_step g e g'"
  from this(2,1) show "log_inv g'"
    by (induction rule: log_step.induct)
      (auto simp: log_inv_def enqueue_check_def enqueue_push_def drain_locked_def drain_write_def
        destroy_stop_def destroy_join_def split: if_splits drainer.splits)
qed

lemma log_inv_init: "log_inv (Logger_init opened)"
  by (simp add: log_inv_def Logger_init_def)

lemma log_stream_init: "log_stream (Logger_init opened) = []"
  by (simp add: log_stream_def Logger_init_def in_flight_def)

text \<open>The state after the flag was cleared with no caller about to push.\<close>

definition log_quiet :: "Logger \<Rightarrow> bool" where
  "log_quiet g \<longleftrightarrow> \<not> running g \<and> entering g = [] \<and>
     (logThread g = Exited \<or> logThread g = NoThread \<longrightarrow> logQueue g = [])"

interpretation quiet: step_invariant log_step log_quiet
proof
  fix g e g' assume "log_quiet g" "log_step g e g'"
  from this(2,1) show "log_quiet g'"
    by (induction rule: log_step.induct)
      (auto simp: log_quiet_def enqueue_check_def enqueue_push_def drain_locked_def drain_write_def
        destroy_stop_def destroy_join_def split: if_splits drainer.splits)
qed

lemma quiet_pushes_nothing: "steps log_step g es g' \<Longrightarrow> log_quiet g \<Longrightarrow> pushed es = []"
proof (induction rule: steps.induct)
  case (steps_snoc s es t e u)
  then have "log_quiet t" by (blast intro: quiet.inv_steps)
  with steps_snoc show ?case
    by (cases e) (auto simp: pushed_def log_quiet_def log_step_iff enqueue_push_def split: if_splits)
qed (simp add: pushed_def)

lemma quiet_stream: "log_quiet g \<Longrightarrow> logThread g = Exited \<or> logThread g = NoThread \<Longrightarrow> log_stream g = log_file g"
  by (auto simp: log_quiet_def log_stream_def in_flight_def)

text \<open>The drain thread alone empties the queue and returns.\<close>

lemma drain_finishes:
  assumes "log_quiet g" and "logThread g = Waiting"
  shows "\<exists>es g'. set es \<subseteq> {Locked, Write} \<and> steps log_step g es g' \<and> logThread g' = Exited"
  using assms
proof (induction "logQueue g" arbitrary: g)
  case Nil
  then have "log_step g Locked (g\<lparr>logThread := Exited\<rparr>)"
    by (simp add: log_step_iff drain_locked_def log_quiet_def)
  then show ?case
    by (intro exI [of _ "[Locked]"] exI [of _ "g\<lparr>logThread := Exited\<rparr>"])
      (auto intro: steps_Cons steps_Nil)
next
  case (Cons l q)
  let ?g1 = "g\<lparr>logThread := Writing l, logQueue := q\<rparr>"
  let ?g2 = "?g1\<lparr>log_file := log_file ?g1 @ l, logThread := Waiting\<rparr>"
  have s: "log_step g Locked ?g1" "log_step ?g1 Write ?g2"
    using Cons.prems Cons.hyps(2) [symmetric]
    by (simp_all add: log_step_iff drain_locked_def drain_write_def log_quiet_def)
  have "log_quiet ?g2" using Cons.prems(1) by (simp add: log_quiet_def)
  with Cons.hyps(1) [of ?g2] obtain es g'
    where "set es \<subseteq> {Locked, Write}" "steps log_step ?g2 es g'" "logThread g' = Exited"
    by auto
  with s show ?case
    by (intro exI [of _ "Locked # Write # es"] exI [of _ g']) (auto intro: steps_Cons)
qed

section \<open>Properties of the logger\<close>

text \<open>
  C24: The log is written in order, without loss or duplication. In every interleaving of
  callers, drain thread and destructor, the file, the line being written and the queue are
  together exactly the lines pushed so far in the order of their pushes; the file is a
  prefix of them, and without an open file nothing is ever pushed.
\<close>

theorem logger_fifo:
  assumes "steps log_step (Logger_init opened) es g"
  shows "log_file g @ in_flight g @ concat (logQueue g) = concat (pushed es) \<and>
     prefix (log_file g) (concat (pushed es)) \<and> (opened \<or> pushed es = [])"
proof -
  have s: "log_file g @ in_flight g @ concat (logQueue g) = concat (pushed es)"
    using log_steps_stream [OF assms] by (simp add: log_stream_init) (simp add: log_stream_def)
  have "log_quiet (Logger_init False)" by (simp add: log_quiet_def Logger_init_def)
  with quiet_pushes_nothing [OF assms] have "opened \<or> pushed es = []" by (cases opened) auto
  with s show ?thesis by (metis prefixI)
qed

lemmas log_Cons = steps_Cons [where step = log_step]

definition sample_trace :: "log_event list" where
  "sample_trace = [Check ''a'', Check ''b'', Push ''b'', Locked, Push ''a'', Write]"

definition sample_logger :: Logger where
  "sample_logger = (Logger_init True)\<lparr>logQueue := [''a''], log_file := ''b''\<rparr>"

lemma sample_log_run: "steps log_step (Logger_init True) sample_trace sample_logger"
proof -
  let ?g = "Logger_init True"
  let ?g1 = "?g\<lparr>entering := [''a'']\<rparr>" and ?g2 = "?g\<lparr>entering := [''a'', ''b'']\<rparr>"
    and ?g3 = "?g\<lparr>entering := [''a''], logQueue := [''b'']\<rparr>"
    and ?g4 = "?g\<lparr>entering := [''a''], logThread := Writing ''b''\<rparr>"
    and ?g5 = "?g\<lparr>logQueue := [''a''], logThread := Writing ''b''\<rparr>"
  have "log_step ?g (Check ''a'') ?g1" "log_step ?g1 (Check ''b'') ?g2"
    "log_step ?g3 Locked ?g4" "log_step ?g5 Write sample_logger"
    by (simp_all add: log_step_iff enqueue_check_def drain_locked_def drain_write_def
        Logger_init_def sample_logger_def)
  moreover have "log_step ?g2 (Push ''b'') ?g3"
    using log_step.push [of 1 ?g2 ?g3] by (simp add: enqueue_push_def Logger_init_def)
  moreover have "log_step ?g4 (Push ''a'') ?g5"
    using log_step.push [of 0 ?g4 ?g5] by (simp add: enqueue_push_def Logger_init_def)
  ultimately show ?thesis unfolding sample_trace_def by (meson log_Cons steps_Nil)
qed

theorem logger_fifo_witness: "prefix ''b'' (concat (pushed sample_trace))"
  using logger_fifo [OF sample_log_run] by (simp add: sample_logger_def)

text \<open>
  C25: Shutdown flushes the log. When the destructor clears the flag while no caller stands
  between the check and the push, then no line is pushed any more; the drain thread can
  always finish by its own steps; and whenever it has returned, as the destructor waits for,
  the file holds every line that was ever pushed.
\<close>

theorem logger_shutdown_complete:
  assumes "steps log_step (Logger_init True) es g" and "running g" and "entering g = []"
    and "steps log_step (destroy_stop g) fs g'"
  shows "pushed fs = [] \<and>
     (logThread g' = Exited \<or> logThread g' = NoThread \<longrightarrow> log_file g' = concat (pushed es)) \<and>
     (logThread g' = Waiting \<longrightarrow>
        (\<exists>ds g''. set ds \<subseteq> {Locked, Write} \<and> steps log_step g' ds g'' \<and> logThread g'' = Exited))"
proof -
  have "log_inv g" by (rule logger.inv_steps [OF assms(1) log_inv_init])
  with assms(2,3) have q: "log_quiet (destroy_stop g)"
    by (auto simp: log_quiet_def destroy_stop_def log_inv_def)
  then have q': "log_quiet g'" by (rule quiet.inv_steps [OF assms(4)])
  have none: "pushed fs = []" by (rule quiet_pushes_nothing [OF assms(4) q])
  have "steps log_step (Logger_init True) (es @ Stop # fs) g'"
    using steps_append [OF assms(1) steps_Cons [OF log_step.stop assms(4)]] .
  from log_steps_stream [OF this] none have "log_stream g' = concat (pushed es)"
    by (simp add: log_stream_init pushed_def)
  with quiet_stream [OF q'] none drain_finishes [OF q'] show ?thesis by auto
qed

theorem logger_shutdown_complete_witness:
  "log_file ((destroy_stop sample_logger)\<lparr>logQueue := [], log_file := ''ba'', logThread := Exited\<rparr>) =
     concat (pushed sample_trace)"
proof -
  let ?g = "destroy_stop sample_logger"
  have "log_step ?g Locked (?g\<lparr>logQueue := [], logThread := Writing ''a''\<rparr>)"
    "log_step (?g\<lparr>logQueue := [], logThread := Writing ''a''\<rparr>) Write (?g\<lparr>logQueue := [], log_file := ''ba''\<rparr>)"
    "log_step (?g\<lparr>logQueue := [], log_file := ''ba''\<rparr>) Locked
       (?g\<lparr>logQueue := [], log_file := ''ba'', logThread := Exited\<rparr>)"
    by (auto simp: log_step_iff drain_locked_def drain_write_def destroy_stop_def sample_logger_def
        Logger_init_def)
  then have "steps log_step ?g [Locked, Write, Locked]
      (?g\<lparr>logQueue := [], log_file := ''ba'', logThread := Exited\<rparr>)"
    by (meson log_Cons steps_Nil)
  moreover have "running sample_logger" "entering sample_logger = []"
    by (simp_all add: sample_logger_def Logger_init_def)
  ultimately show ?thesis
    using logger_shutdown_complete [OF sample_log_run] by simp
qed

end
