(* ===== verification/Metrics.thy ===== *)
theory Metrics
  imports Cpp_String
begin

section \<open>Server metrics\<close>

text \<open>
  \<open>Metrics\<close> of \<open>src/include/metrics.h\<close> and \<open>src/src/metrics.cpp\<close>. The atomic counters
  are 64-bit words whose arithmetic wraps; every update is a read-modify-write of one counter,
  and updates of different threads commute, so a history is a sequence of calls. The
  percentile and the hit rate are computed in IEEE double precision, modelled exactly below.
\<close>

subsection \<open>Double precision\<close>

text \<open>
  The doubles of this component are zero or between \<open>2 ^ -64\<close> and \<open>2 ^ 72\<close>; such a number
  is the natural number of \<open>2 ^ -120\<close> units it is made of. Every operation rounds the exact
  result to 53 significant bits, to nearest, ties to even.
\<close>

type_synonym double = nat

definition dbl_unit :: nat where "dbl_unit = 2 ^ 120"

definition rne_div :: "nat \<Rightarrow> nat \<Rightarrow> nat" where
  "rne_div a b =
     (let q = a div b; r = a mod b
      in if 2 * r < b \<or> (2 * r = b \<and> even q) then q else q + 1)"

fun bit_length :: "nat \<Rightarrow> nat" where
  "bit_length n = (if n = 0 then 0 else Suc (bit_length (n div 2)))"

declare bit_length.simps [simp del]

definition dbl_round :: "nat \<Rightarrow> nat \<Rightarrow> double" where
  "dbl_round n d = (let s = bit_length (n div d) - 53 in rne_div n (d * 2 ^ s) * 2 ^ s)"

definition dbl_of_u64 :: "u64 \<Rightarrow> double" where
  "dbl_of_u64 w = dbl_round (unat w * dbl_unit) 1"

definition dbl_mult :: "double \<Rightarrow> double \<Rightarrow> double" where
  "dbl_mult a b = dbl_round (a * b) dbl_unit"

definition dbl_div :: "double \<Rightarrow> double \<Rightarrow> double" where
  "dbl_div a b = dbl_round (a * dbl_unit) b"

definition u64_of_dbl :: "double \<Rightarrow> u64" where
  "u64_of_dbl a = of_nat (a div dbl_unit)"

text \<open>The literals 0.50, 0.95 and 0.99, and the output format \<open>fixed\<close> with precision 2.\<close>

definition frac_p50 :: double where "frac_p50 = 4503599627370496 * 2 ^ 67"
definition frac_p95 :: double where "frac_p95 = 8556839292003942 * 2 ^ 67"
definition frac_p99 :: double where "frac_p99 = 8917127262193582 * 2 ^ 67"

definition fixed2 :: "double \<Rightarrow> string" where
  "fixed2 a =
     (let h = rne_div (100 * a) dbl_unit
      in dec_nat (h div 100) @ ''.'' @ dec_nat (h mod 100 div 10) @ dec_nat (h mod 10))"

text \<open>Evaluation of this arithmetic on numerals.\<close>

lemma bit_length_eval:
  "bit_length 0 = 0" "bit_length (Suc 0) = 1" "bit_length 1 = 1"
  "bit_length (numeral k) = Suc (bit_length (numeral k div 2))"
  by (subst bit_length.simps; simp add: bit_length.simps [of 0])+

lemma bit_length_le: "n < 2 ^ k \<Longrightarrow> bit_length n \<le> k"
proof (induction k arbitrary: n)
  case (Suc k)
  have "bit_length (n div 2) \<le> k" by (rule Suc.IH) (use Suc.prems in simp)
  then show ?case by (subst bit_length.simps) simp
qed (simp add: bit_length_eval)

text \<open>Integers of up to 53 bits convert exactly.\<close>

lemma dbl_of_u64_exact:
  assumes "unat w < 2 ^ 53"
  shows "dbl_of_u64 w = unat w * dbl_unit"
proof -
  have "unat w * dbl_unit < 2 ^ 173"
    using assms by (simp add: dbl_unit_def)
  then have "bit_length (unat w * dbl_unit) - 53 \<le> 120"
    using bit_length_le [of _ 173] by fastforce
  then have "2 ^ (bit_length (unat w * dbl_unit) - 53) dvd unat w * dbl_unit"
    unfolding dbl_unit_def by (intro dvd_mult le_imp_power_dvd)
  then show ?thesis
    by (simp add: dbl_of_u64_def dbl_round_def rne_div_def Let_def dvd_eq_mod_eq_0)
qed

lemmas dbl_eval = bit_length_eval dbl_unit_def dbl_round_def rne_div_def dbl_of_u64_exact dbl_mult_def
  dbl_div_def u64_of_dbl_def frac_p50_def frac_p95_def frac_p99_def Let_def

subsection \<open>State and operations\<close>

record Metrics =
  totalRequests :: u64
  bytesOut :: u64
  responses2xx :: u64
  responses4xx :: u64
  responses5xx :: u64
  activeConnections :: i64
  totalConnections :: u64
  latencyBuckets :: "u64 list"

definition bucketCount :: nat where "bucketCount = 15"

definition bucketBounds :: "u64 list" where
  "bucketBounds = [50, 100, 250, 500, 1000, 2500, 5000, 10000, 25000,
     50000, 100000, 250000, 500000, 1000000, - 1]"

definition Metrics_init :: Metrics where
  "Metrics_init = \<lparr>totalRequests = 0, bytesOut = 0, responses2xx = 0, responses4xx = 0,
     responses5xx = 0, activeConnections = 0, totalConnections = 0,
     latencyBuckets = replicate bucketCount 0\<rparr>"

text \<open>The loop over the buckets: the first whose bound is not exceeded counts.\<close>

fun bump_bucket :: "u64 \<Rightarrow> u64 list \<Rightarrow> u64 list \<Rightarrow> u64 list" where
  "bump_bucket lat (b # bs) (c # cs) = (if lat \<le> b then (c + 1) # cs else c # bump_bucket lat bs cs)"
| "bump_bucket lat _ cs = cs"

definition recordRequest :: "int \<Rightarrow> u64 \<Rightarrow> u64 \<Rightarrow> Metrics \<Rightarrow> Metrics" where
  "recordRequest status responseBytes latencyMicros m =
     (let m1 = m\<lparr>totalRequests := totalRequests m + 1, bytesOut := bytesOut m + responseBytes\<rparr>;
          m2 = (if status < 400 then m1\<lparr>responses2xx := responses2xx m1 + 1\<rparr>
                else if status < 500 then m1\<lparr>responses4xx := responses4xx m1 + 1\<rparr>
                else m1\<lparr>responses5xx := responses5xx m1 + 1\<rparr>)
      in m2\<lparr>latencyBuckets := bump_bucket latencyMicros bucketBounds (latencyBuckets m2)\<rparr>)"

definition connectionOpened :: "Metrics \<Rightarrow> Metrics" where
  "connectionOpened m = m\<lparr>activeConnections := activeConnections m + 1,
     totalConnections := totalConnections m + 1\<rparr>"

definition connectionClosed :: "Metrics \<Rightarrow> Metrics" where
  "connectionClosed m = m\<lparr>activeConnections := activeConnections m - 1\<rparr>"

fun percentile_loop :: "u64 list \<Rightarrow> u64 \<Rightarrow> nat \<Rightarrow> u64 \<Rightarrow> u64 list \<Rightarrow> u64" where
  "percentile_loop bounds target i seen [] = bounds ! (bucketCount - 2)"
| "percentile_loop bounds target i seen (c # cs) =
     (let seen' = seen + c
      in if seen' \<ge> target then (if i + 1 = bucketCount then bounds ! (i - 1) else bounds ! i)
         else percentile_loop bounds target (i + 1) seen' cs)"

definition percentile :: "double \<Rightarrow> u64 \<Rightarrow> Metrics \<Rightarrow> double" where
  "percentile fraction tot m =
     (if tot = 0 then 0
      else
        let target = u64_of_dbl (dbl_mult fraction (dbl_of_u64 tot))
        in dbl_div (dbl_of_u64 (percentile_loop bucketBounds target 0 0 (latencyBuckets m)))
             (dbl_of_u64 1000))"

definition hit_rate :: "u64 \<Rightarrow> u64 \<Rightarrow> double" where
  "hit_rate hits misses =
     (let cacheTotal = hits + misses
      in if cacheTotal \<noteq> 0
         then dbl_div (dbl_mult (dbl_of_u64 100) (dbl_of_u64 hits)) (dbl_of_u64 cacheTotal) else 0)"

definition dec_u64 :: "u64 \<Rightarrow> string" where "dec_u64 w = dec_nat (unat w)"

text \<open>\<open>toJson\<close>; \<open>uptime\<close> is the reading of the steady clock, in milliseconds since start.\<close>

definition metrics_toJson :: "int \<Rightarrow> string \<Rightarrow> int \<Rightarrow> u64 \<Rightarrow> u64 \<Rightarrow> Metrics \<Rightarrow> string" where
  "metrics_toJson uptime mode threads hits misses m =
     (let tot = totalRequests m
      in ''{\"mode\":\"'' @ mode @ ''\",\"threads\":'' @ dec_int threads @
         '',\"uptimeMs\":'' @ dec_int uptime @ '',\"totalRequests\":'' @ dec_u64 tot @
         '',\"bytesOut\":'' @ dec_u64 (bytesOut m) @
         '',\"activeConnections\":'' @ dec_int (sint (activeConnections m)) @
         '',\"totalConnections\":'' @ dec_u64 (totalConnections m) @
         '',\"status\":{\"ok\":'' @ dec_u64 (responses2xx m) @
         '',\"clientError\":'' @ dec_u64 (responses4xx m) @
         '',\"serverError\":'' @ dec_u64 (responses5xx m) @
         ''},\"latencyMs\":{\"p50\":'' @ fixed2 (percentile frac_p50 tot m) @
         '',\"p95\":'' @ fixed2 (percentile frac_p95 tot m) @
         '',\"p99\":'' @ fixed2 (percentile frac_p99 tot m) @
         ''},\"cache\":{\"hits\":'' @ dec_u64 hits @ '',\"misses\":'' @ dec_u64 misses @
         '',\"hitRate\":'' @ fixed2 (hit_rate hits misses) @ ''}}'')"

subsection \<open>Histories\<close>

datatype metric_event = Recorded int u64 u64 | Opened | Closed

fun metrics_apply :: "metric_event \<Rightarrow> Metrics \<Rightarrow> Metrics" where
  "metrics_apply (Recorded status bytes lat) m = recordRequest status bytes lat m"
| "metrics_apply Opened m = connectionOpened m"
| "metrics_apply Closed m = connectionClosed m"

definition metrics_run :: "metric_event list \<Rightarrow> Metrics" where
  "metrics_run es = fold metrics_apply es Metrics_init"

lemma metrics_run_snoc: "metrics_run (es @ [e]) = metrics_apply e (metrics_run es)"
  by (simp add: metrics_run_def)

definition recorded :: "metric_event list \<Rightarrow> (int \<times> u64 \<times> u64) list" where
  "recorded es = concat (map (\<lambda>e. case e of Recorded s b l \<Rightarrow> [(s, b, l)] | _ \<Rightarrow> []) es)"

definition latencies :: "metric_event list \<Rightarrow> u64 list" where
  "latencies es = map (\<lambda>(s, b, l). l) (recorded es)"

lemma recorded_snoc: "recorded (es @ [e]) = recorded es @ recorded [e]"
  by (simp add: recorded_def)

lemma latencies_snoc: "latencies (es @ [e]) = latencies es @ latencies [e]"
  by (simp add: latencies_def recorded_snoc)

lemma latencies_single [simp]:
  "latencies [Recorded s b l] = [l]" "latencies [Opened] = []" "latencies [Closed] = []"
  by (simp_all add: latencies_def recorded_def)

subsection \<open>Buckets\<close>

definition count_if :: "('a \<Rightarrow> bool) \<Rightarrow> 'a list \<Rightarrow> nat" where
  "count_if P xs = length (filter P xs)"

lemma count_if_simps [simp]:
  "count_if P [] = 0" "count_if P (xs @ [x]) = count_if P xs + (if P x then 1 else 0)"
  by (simp_all add: count_if_def)

text \<open>The bucket of a latency: how many bounds it exceeds.\<close>

definition bucket_of :: "u64 \<Rightarrow> nat" where
  "bucket_of lat = length (takeWhile (\<lambda>b. b < lat) bucketBounds)"

lemma length_bounds: "length bucketBounds = bucketCount"
  by (simp add: bucketBounds_def bucketCount_def)

lemma bump_bucket_at:
  assumes "length cs = length bs" and "\<exists>b\<in>set bs. lat \<le> b"
  shows "bump_bucket lat bs cs =
           cs[length (takeWhile (\<lambda>b. b < lat) bs) := cs ! length (takeWhile (\<lambda>b. b < lat) bs) + 1]"
  using assms by (induction bs cs rule: list_induct2') auto

lemma bound_last: "- 1 \<in> set bucketBounds" "\<exists>b\<in>set bucketBounds. (lat :: u64) \<le> b"
proof -
  show m: "- 1 \<in> set bucketBounds" by (simp add: bucketBounds_def)
  have "lat \<le> - 1" by (rule word_n1_ge)
  with m show "\<exists>b\<in>set bucketBounds. lat \<le> b" by blast
qed

lemma bucket_of_less: "bucket_of lat < bucketCount"
proof -
  have "takeWhile (\<lambda>b. b < lat) bucketBounds \<noteq> bucketBounds"
    using bound_last(2) [of lat] by (auto simp: takeWhile_eq_all_conv not_less)
  then have "length (takeWhile (\<lambda>b. b < lat) bucketBounds) \<noteq> length bucketBounds"
    by (metis takeWhile_eq_take take_all order_refl)
  then show ?thesis
    using length_takeWhile_le [of "\<lambda>b. b < lat" bucketBounds]
    by (simp add: bucket_of_def length_bounds)
qed

lemma bump_bounds:
  "length cs = bucketCount \<Longrightarrow> bump_bucket lat bucketBounds cs = cs[bucket_of lat := cs ! bucket_of lat + 1]"
  by (simp add: bump_bucket_at length_bounds bound_last bucket_of_def)

lemma recordRequest_buckets:
  "latencyBuckets (recordRequest s b l m) = bump_bucket l bucketBounds (latencyBuckets m)"
  by (simp add: recordRequest_def Let_def)

lemma buckets_count:
  "latencyBuckets (metrics_run es) =
     map (\<lambda>i. of_nat (count_if (\<lambda>l. bucket_of l = i) (latencies es))) [0..<bucketCount]"
proof (induction es rule: rev_induct)
  case Nil
  show ?case
    by (simp add: metrics_run_def Metrics_init_def latencies_def recorded_def map_replicate_const)
next
  case (snoc e es)
  show ?case
  proof (cases e)
    case (Recorded s b l)
    then have "latencyBuckets (metrics_run (es @ [e])) =
        bump_bucket l bucketBounds (latencyBuckets (metrics_run es))"
      by (simp add: metrics_run_snoc recordRequest_buckets)
    with Recorded bucket_of_less [of l] show ?thesis
      by (intro nth_equalityI) (auto simp: snoc bump_bounds latencies_snoc nth_list_update)
  qed (simp_all add: metrics_run_snoc snoc latencies_snoc connectionOpened_def connectionClosed_def)
qed

lemma sum_buckets: "sum_list (latencyBuckets (metrics_run es)) = of_nat (length (latencies es))"
proof (induction es rule: rev_induct)
  case Nil
  show ?case by (simp add: metrics_run_def Metrics_init_def latencies_def recorded_def sum_list_replicate)
next
  case (snoc e es)
  have len: "length (latencyBuckets (metrics_run es)) = bucketCount" by (simp add: buckets_count)
  have upd: "i < length cs \<Longrightarrow> sum_list (cs[i := cs ! i + 1]) = sum_list cs + 1" for i and cs :: "u64 list"
    by (induction cs arbitrary: i) (auto simp: nth_Cons split: nat.splits)
  show ?case
    using snoc upd [of "bucket_of _"] bucket_of_less len
    by (cases e) (simp_all add: metrics_run_snoc latencies_snoc recordRequest_buckets bump_bounds
        connectionOpened_def connectionClosed_def)
qed

subsection \<open>Percentiles\<close>

lemma takeWhile_sorted_le:
  fixes l :: "'a::linorder"
  assumes "sorted xs" and "i < length xs"
  shows "length (takeWhile (\<lambda>b. b < l) xs) \<le> i \<longleftrightarrow> l \<le> xs ! i"
proof
  let ?t = "takeWhile (\<lambda>b. b < l) xs"
  assume le: "length ?t \<le> i"
  then have "l \<le> xs ! length ?t" using assms(2) nth_length_takeWhile [of "\<lambda>b. b < l" xs] by simp
  also have "\<dots> \<le> xs ! i" using assms le by (simp add: sorted_nth_mono)
  finally show "l \<le> xs ! i" .
next
  let ?t = "takeWhile (\<lambda>b. b < l) xs"
  assume "l \<le> xs ! i"
  show "length ?t \<le> i"
  proof (rule ccontr)
    assume "\<not> length ?t \<le> i"
    then have "i < length ?t" by simp
    then have "xs ! i \<in> set ?t" using takeWhile_nth [of i "\<lambda>b. b < l" xs] nth_mem by metis
    then have "xs ! i < l" by (auto dest: set_takeWhileD)
    with \<open>l \<le> xs ! i\<close> show False by simp
  qed
qed

lemma sorted_bounds: "sorted bucketBounds"
  by code_simp

lemma bucket_of_le: "i < bucketCount \<Longrightarrow> bucket_of l \<le> i \<longleftrightarrow> l \<le> bucketBounds ! i"
  using takeWhile_sorted_le [OF sorted_bounds] by (simp add: bucket_of_def length_bounds)

lemma count_if_split:
  "count_if (\<lambda>l. f l < Suc i) ls = count_if (\<lambda>l. f l < i) ls + count_if (\<lambda>l. f l = (i::nat)) ls"
  by (induction ls) (auto simp: count_if_def)

definition bucket_list :: "u64 list \<Rightarrow> u64 list" where
  "bucket_list ls = map (\<lambda>i. of_nat (count_if (\<lambda>l. bucket_of l = i) ls)) [0..<bucketCount]"

lemma bucket_list_drop:
  "i < bucketCount \<Longrightarrow>
     drop i (bucket_list ls) = of_nat (count_if (\<lambda>l. bucket_of l = i) ls) # drop (Suc i) (bucket_list ls)"
  by (subst Cons_nth_drop_Suc [symmetric]) (simp_all add: bucket_list_def)

lemma count_if_le: "count_if P ls \<le> length ls"
  by (simp add: count_if_def)

definition at_most :: "u64 \<Rightarrow> u64 list \<Rightarrow> nat" where
  "at_most b ls = count_if (\<lambda>l. l \<le> b) ls"

lemma seen_at_most:
  assumes "i < bucketCount"
  shows "count_if (\<lambda>l. bucket_of l < Suc i) ls = at_most (bucketBounds ! i) ls"
  using bucket_of_le [OF assms] by (simp add: at_most_def less_Suc_eq_le)

lemma percentile_loop_bound:
  assumes "length ls < 2 ^ 64" and "i \<le> bucketCount"
  shows "\<exists>j<bucketCount - 1.
     percentile_loop bucketBounds tgt i (of_nat (count_if (\<lambda>l. bucket_of l < i) ls))
       (drop i (bucket_list ls)) = bucketBounds ! j \<and>
     (\<forall>j'\<in>{i..<j}. at_most (bucketBounds ! j') ls < unat tgt) \<and>
     (unat tgt \<le> at_most (bucketBounds ! j) ls \<or> j = bucketCount - 2)"
  using assms(2)
proof (induction "bucketCount - i" arbitrary: i)
  case 0
  then have "i = bucketCount" by simp
  then show ?case
    by (intro exI [of _ "bucketCount - 2"]) (simp add: bucket_list_def, simp add: bucketCount_def)
next
  case (Suc n)
  then have i: "i < bucketCount" by simp
  let ?seen = "of_nat (at_most (bucketBounds ! i) ls) :: u64"
  have "of_nat (count_if (\<lambda>l. bucket_of l < i) ls) + of_nat (count_if (\<lambda>l. bucket_of l = i) ls) = ?seen"
    using count_if_split [of bucket_of i ls] seen_at_most [OF i, of ls] by simp
  then have step: "percentile_loop bucketBounds tgt i (of_nat (count_if (\<lambda>l. bucket_of l < i) ls))
      (drop i (bucket_list ls)) =
      (if tgt \<le> ?seen then (if i + 1 = bucketCount then bucketBounds ! (i - 1) else bucketBounds ! i)
       else percentile_loop bucketBounds tgt (Suc i) (of_nat (count_if (\<lambda>l. bucket_of l < Suc i) ls))
              (drop (Suc i) (bucket_list ls)))"
    by (simp add: bucket_list_drop [OF i] Let_def seen_at_most [OF i])
  have "at_most (bucketBounds ! i) ls < 2 ^ 64"
    using assms(1) count_if_le [of "\<lambda>l. l \<le> bucketBounds ! i" ls] by (simp add: at_most_def)
  then have le: "tgt \<le> ?seen \<longleftrightarrow> unat tgt \<le> at_most (bucketBounds ! i) ls"
    by (simp add: word_le_nat_alt unat_of_nat take_bit_nat_eq_self)
  show ?case
  proof (cases "tgt \<le> ?seen")
    case True
    show ?thesis
    proof (cases "i + 1 = bucketCount")
      case True
      with \<open>tgt \<le> ?seen\<close> step show ?thesis
        by (intro exI [of _ "bucketCount - 2"]) (auto simp: bucketCount_def)
    next
      case False
      with True step le i show ?thesis by (intro exI [of _ i]) auto
    qed
  next
    case False
    have "n = bucketCount - Suc i" "Suc i \<le> bucketCount" using Suc.hyps(2) i by simp_all
    from Suc.hyps(1) [OF this] obtain j where j: "j < bucketCount - 1"
      "percentile_loop bucketBounds tgt (Suc i) (of_nat (count_if (\<lambda>l. bucket_of l < Suc i) ls))
         (drop (Suc i) (bucket_list ls)) = bucketBounds ! j"
      "\<forall>j'\<in>{Suc i..<j}. at_most (bucketBounds ! j') ls < unat tgt"
      "unat tgt \<le> at_most (bucketBounds ! j) ls \<or> j = bucketCount - 2"
      by auto
    have "\<forall>j'\<in>{i..<j}. at_most (bucketBounds ! j') ls < unat tgt"
      using j(3) False le by (metis Suc_leI atLeastLessThan_iff le_neq_implies_less not_le)
    with j step False show ?thesis by auto
  qed
qed

section \<open>Properties of the metrics\<close>

text \<open>
  C26: The counters account for every request. After any history, every response is counted in
  exactly one status class and in exactly one latency bucket, so the three classes and the
  fifteen buckets both add up to the number of requests; the bytes and the connections add
  up as well, all modulo \<open>2 ^ 64\<close>.
\<close>

theorem metrics_account:
  "totalRequests (metrics_run es) = of_nat (length (recorded es)) \<and>
   responses2xx (metrics_run es) + responses4xx (metrics_run es) + responses5xx (metrics_run es) =
     totalRequests (metrics_run es) \<and>
   sum_list (latencyBuckets (metrics_run es)) = totalRequests (metrics_run es) \<and>
   bytesOut (metrics_run es) = sum_list (map (\<lambda>(s, b, l). b) (recorded es)) \<and>
   totalConnections (metrics_run es) = of_nat (count_if (\<lambda>e. e = Opened) es) \<and>
   activeConnections (metrics_run es) =
     of_nat (count_if (\<lambda>e. e = Opened) es) - of_nat (count_if (\<lambda>e. e = Closed) es)"
proof -
  have "totalRequests (metrics_run es) = of_nat (length (recorded es)) \<and>
    responses2xx (metrics_run es) + responses4xx (metrics_run es) + responses5xx (metrics_run es) =
      totalRequests (metrics_run es) \<and>
    bytesOut (metrics_run es) = sum_list (map (\<lambda>(s, b, l). b) (recorded es)) \<and>
    totalConnections (metrics_run es) = of_nat (count_if (\<lambda>e. e = Opened) es) \<and>
    activeConnections (metrics_run es) =
      of_nat (count_if (\<lambda>e. e = Opened) es) - of_nat (count_if (\<lambda>e. e = Closed) es)"
  proof (induction es rule: rev_induct)
    case Nil
    show ?case by (simp add: metrics_run_def Metrics_init_def recorded_def)
  next
    case (snoc e es)
    then show ?case
      by (cases e) (auto simp: metrics_run_snoc recorded_snoc recordRequest_def connectionOpened_def
          connectionClosed_def Let_def recorded_def [of "[_]"] algebra_simps)
  qed
  with sum_buckets [of es] show ?thesis by (simp add: latencies_def)
qed

text \<open>
  C27: The histogram locates the target. Over the latencies of any history, the loop of
  \<open>percentile\<close> returns a finite bucket bound such that the target number of requests was
  answered within it (or the requests beyond the last finite bound are needed to reach the
  target), and fewer were answered within every smaller bound.
\<close>

theorem percentile_locates:
  assumes "length (latencies es) < 2 ^ 64"
  shows "\<exists>j<14. percentile_loop bucketBounds tgt 0 0 (latencyBuckets (metrics_run es)) = bucketBounds ! j \<and>
     (\<forall>i<j. at_most (bucketBounds ! i) (latencies es) < unat tgt) \<and>
     (unat tgt \<le> at_most (bucketBounds ! j) (latencies es) \<or> j = 13)"
  using percentile_loop_bound [OF assms, of 0 tgt]
  by (auto simp: buckets_count bucket_list_def count_if_def bucketCount_def)

theorem percentile_locates_witness:
  "\<exists>j<14. percentile_loop bucketBounds 2 0 0
        (latencyBuckets (metrics_run [Recorded 200 10 70, Opened, Recorded 404 20 300])) = bucketBounds ! j \<and>
     (\<forall>i<j. at_most (bucketBounds ! i) [70, 300] < unat (2 :: u64)) \<and>
     (unat (2 :: u64) \<le> at_most (bucketBounds ! j) [70, 300] \<or> j = 13)"
proof -
  have l: "latencies [Recorded 200 10 70, Opened, Recorded 404 20 300] = [70, 300]"
    by (simp add: latencies_def recorded_def)
  show ?thesis
    using percentile_locates [of "[Recorded 200 10 70, Opened, Recorded 404 20 300]" 2]
    unfolding l by simp
qed

lemma targets_of_one:
  "u64_of_dbl (dbl_mult frac_p50 (dbl_of_u64 1)) = 0"
  "u64_of_dbl (dbl_mult frac_p95 (dbl_of_u64 1)) = 0"
  "u64_of_dbl (dbl_mult frac_p99 (dbl_of_u64 1)) = 0"
  by (simp_all add: dbl_eval)

definition hundredths :: "u64 \<Rightarrow> nat" where
  "hundredths u = rne_div (100 * dbl_div (dbl_of_u64 u) (dbl_of_u64 1000)) dbl_unit"

lemma hundredths_bounds:
  "hundredths 50 = 5"
  "hundredths 100 = 10"
  "hundredths 250 = 25"
  "hundredths 500 = 50"
  "hundredths 1000 = 100"
  "hundredths 2500 = 250"
  "hundredths 5000 = 500"
  "hundredths 10000 = 1000"
  "hundredths 25000 = 2500"
  "hundredths 50000 = 5000"
  "hundredths 100000 = 10000"
  "hundredths 250000 = 25000"
  "hundredths 500000 = 50000"
  "hundredths 1000000 = 100000"
  by (simp_all add: hundredths_def dbl_eval)

lemma fixed2_hundredths:
  "fixed2 (dbl_div (dbl_of_u64 u) (dbl_of_u64 1000)) =
     dec_nat (hundredths u div 100) @ ''.'' @ dec_nat (hundredths u mod 100 div 10) @
     dec_nat (hundredths u mod 10)"
  by (simp add: fixed2_def hundredths_def Let_def)

lemma dec_nat_eval:
  "n < 10 \<Longrightarrow> dec_nat n = [char_of (48 + n)]"
  "10 \<le> n \<Longrightarrow> dec_nat n = dec_nat (n div 10) @ [char_of (48 + n mod 10)]"
  by (subst dec_nat.simps; simp)+

lemma printed_bounds:
  "map (\<lambda>u. fixed2 (dbl_div (dbl_of_u64 u) (dbl_of_u64 1000))) (take 14 bucketBounds) =
     [''0.05'', ''0.10'', ''0.25'', ''0.50'', ''1.00'', ''2.50'', ''5.00'', ''10.00'', ''25.00'',
      ''50.00'', ''100.00'', ''250.00'', ''500.00'', ''1000.00'']"
  by (simp add: bucketBounds_def fixed2_hundredths hundredths_bounds dec_nat_eval, code_simp)

lemma percentile_loop_zero:
  "length cs = bucketCount \<Longrightarrow> percentile_loop bucketBounds 0 0 s cs = 50"
  by (cases cs) (simp_all add: bucketCount_def bucketBounds_def Let_def)

text \<open>
  Percentiles are bucket bounds, not interpolated, and the target count is rounded down.
  After a single request, however long it took, all three percentiles are those of the first
  bucket and are reported as 0.05 milliseconds, and the fourteen finite bounds are reported
  as the following texts. The comment in the code announces a linear interpolation inside
  the bucket.
\<close>

theorem percentile_of_single_request:
  "(\<forall>f. f = frac_p50 \<or> f = frac_p95 \<or> f = frac_p99 \<longrightarrow>
     fixed2 (percentile f (totalRequests (metrics_run [Recorded s b l])) (metrics_run [Recorded s b l])) = ''0.05'') \<and>
   map (\<lambda>u. fixed2 (dbl_div (dbl_of_u64 u) (dbl_of_u64 1000))) (take 14 bucketBounds) =
     [''0.05'', ''0.10'', ''0.25'', ''0.50'', ''1.00'', ''2.50'', ''5.00'', ''10.00'', ''25.00'',
      ''50.00'', ''100.00'', ''250.00'', ''500.00'', ''1000.00'']"
proof
  let ?m = "metrics_run [Recorded s b l]"
  have len: "length (latencyBuckets ?m) = bucketCount" by (simp add: buckets_count)
  have one: "totalRequests ?m = 1"
    by (simp add: metrics_run_def recordRequest_def Metrics_init_def Let_def)
  have v: "fixed2 (dbl_div (dbl_of_u64 50) (dbl_of_u64 1000)) = ''0.05''"
    using printed_bounds by (simp add: bucketBounds_def)
  show "\<forall>f. f = frac_p50 \<or> f = frac_p95 \<or> f = frac_p99 \<longrightarrow> fixed2 (percentile f (totalRequests ?m) ?m) = ''0.05''"
    by (auto simp: percentile_def one targets_of_one percentile_loop_zero [OF len] v)
qed (rule printed_bounds)

end
