(* ===== verification/Connection_Handler.thy ===== *)
theory Connection_Handler
  imports Request_Parser Router Logger Metrics
begin

section \<open>Connections and the connection handler\<close>

text \<open>
  \<open>Connection\<close> (\<open>src/include/connection.h\<close>) and \<open>ConnectionHandler\<close>
  (\<open>src/src/connection_handler.cpp\<close>): the protocol logic both event loops share. The
  environment of a call is given explicitly: what each \<open>recv\<close> and each \<open>send\<close> returns, the
  clock, and the measured handler durations. A call whose script of results ends before it
  returns has the value \<^term>\<open>None\<close>. The effects on the rest of the server, that is on the
  objects the route handlers refer to, on the metrics and on the log, are threaded through as
  a server state.
\<close>

subsection \<open>State\<close>

record Connection =
  cn_fd :: int
  readBuffer :: string
  writeBuffer :: string
  writeOffset :: nat
  cn_parser :: RequestParser
  closeAfterWrite :: bool
  busy :: bool
  lastActive :: int

definition Connection_init :: "int \<Rightarrow> int \<Rightarrow> Connection" where
  "Connection_init now fd = \<lparr>cn_fd = fd, readBuffer = [], writeBuffer = [], writeOffset = 0,
     cn_parser = RequestParser_init, closeAfterWrite = False, busy = False, lastActive = now\<rparr>"

record 'a server =
  sv_app :: 'a
  sv_metrics :: Metrics
  sv_log :: "LogData list"

datatype Action = WaitRead | WaitWrite | Close

text \<open>
  What the system calls return. \<open>Accepts w\<close> is a \<open>send\<close> that takes up to \<open>w\<close> of the
  bytes it is given; \<open>Bytes s\<close> a \<open>recv\<close> that delivers \<open>s\<close>, which is not empty.
\<close>

datatype recv_result = Bytes string | Fin | RecvEINTR | RecvEAGAIN | RecvError
datatype send_result = Accepts nat | SendEINTR | SendEAGAIN | SendError

subsection \<open>Operations\<close>

definition access_entry :: "HttpRequest \<Rightarrow> HttpResponse \<Rightarrow> LogData" where
  "access_entry request r = \<lparr>ld_ip = header request ''host'', ld_level = INFO,
     ld_startLine = rq_method request @ '' '' @ rq_target request @ '' '' @ rq_version request,
     ld_responseCode = dec_int (rs_status r), ld_responseSize = dec_nat (length (rs_body r))\<rparr>"

definition appendResponse ::
  "HttpRequest \<Rightarrow> HttpResponse \<Rightarrow> Connection \<Rightarrow> 'a server \<Rightarrow> Connection \<times> 'a server" where
  "appendResponse request response c sv =
     (let r = response\<lparr>rs_keepAlive := rs_keepAlive response \<and> rq_keepAlive request\<rparr>;
          c1 = c\<lparr>writeBuffer := writeBuffer c @ serialize r (rq_method request = ''HEAD'')\<rparr>;
          c2 = (if \<not> rs_keepAlive r then c1\<lparr>closeAfterWrite := True\<rparr> else c1)
      in (c2, sv\<lparr>sv_log := sv_log sv @ [access_entry request r]\<rparr>))"

text \<open>The loop that drains the socket: how it ended, the connection and the results left.\<close>

datatype drained = Drained | Broken

fun recv_loop :: "recv_result list \<Rightarrow> Connection \<Rightarrow> (drained \<times> Connection \<times> recv_result list) option" where
  "recv_loop [] c = None"
| "recv_loop (Bytes s # rs) c = recv_loop rs (c\<lparr>readBuffer := readBuffer c @ s\<rparr>)"
| "recv_loop (Fin # rs) c = Some (Drained, c\<lparr>closeAfterWrite := True\<rparr>, rs)"
| "recv_loop (RecvEINTR # rs) c = recv_loop rs c"
| "recv_loop (RecvEAGAIN # rs) c = Some (Drained, c, rs)"
| "recv_loop (RecvError # rs) c = Some (Broken, c, rs)"

definition record_response :: "HttpResponse \<Rightarrow> u64 \<Rightarrow> 'a server \<Rightarrow> 'a server" where
  "record_response r micros sv =
     sv\<lparr>sv_metrics := recordRequest (rs_status r) (of_nat (length (rs_body r))) micros (sv_metrics sv)\<rparr>"

text \<open>The branch for a request the parser refuses.\<close>

definition answer_error :: "Connection \<Rightarrow> 'a server \<Rightarrow> Connection \<times> 'a server" where
  "answer_error c sv =
     (let bad = (rp_req (cn_parser c))\<lparr>rq_keepAlive := False\<rparr>;
          errorResponse = response_error (rp_error (cn_parser c));
          (c1, sv1) = appendResponse bad errorResponse c (record_response errorResponse 0 sv)
      in (c1\<lparr>closeAfterWrite := True, readBuffer := []\<rparr>, sv1))"

text \<open>The branch for a complete request, up to the reset of the parser.\<close>

definition answer_request ::
  "'a server Router \<Rightarrow> u64 \<Rightarrow> Connection \<Rightarrow> 'a server \<Rightarrow> Connection \<times> 'a server" where
  "answer_request router micros c sv =
     (let request = rp_req (cn_parser c);
          (response, sv1) = route router request sv;
          (c1, sv2) = appendResponse request response c (record_response response micros sv1)
      in (c1\<lparr>cn_parser := reset (cn_parser c1)\<rparr>, sv2))"

lemma parse_step_shorter: "parse_step p b = (x, q, c) \<Longrightarrow> length c \<le> length b"
  by (cases "rp_state p")
    (auto simp: step_defs Let_def split: option.splits prod.splits if_splits)

lemma parse_shorter: "parse p b = (r, q, c) \<Longrightarrow> length c \<le> length b"
proof (induction rule: parse_run_induct)
  case (continue p b q c)
  then show ?case using parse_step_shorter by fastforce
qed (rule parse_step_shorter)

lemma parse_Complete_shorter:
  assumes "parse p b = (Complete, q, c)" and "rp_state p = RequestLine"
  shows "length c < length b"
proof -
  obtain x p' b' where st: "parse_step p b = (x, p', b')" by (metis prod_cases3)
  have x: "x = None" "length b' < length b"
    using st assms find_crlf_le [of b]
    by (auto simp: step_defs parse.simps [of p b] Let_def split: option.splits prod.splits if_splits)
  with parse_continue [of p b] st assms(1) have "parse p' b' = (Complete, q, c)" by simp
  from parse_shorter [OF this] x(2) show ?thesis by simp
qed

lemma answer_request_simps:
  assumes "answer_request router d c sv = (c', sv')"
  shows "cn_parser c' = RequestParser_init" and "readBuffer c' = readBuffer c"
  using assms
  by (auto simp: answer_request_def appendResponse_def Let_def parser_inv_reset split: prod.splits if_splits)

text \<open>The loop over the pipelined requests in the buffer; it returns the durations not used.\<close>

function process_loop ::
  "'a server Router \<Rightarrow> u64 list \<Rightarrow> Connection \<Rightarrow> 'a server \<Rightarrow> Connection \<times> 'a server \<times> u64 list" where
  "process_loop router durs c sv =
     (if readBuffer c = [] then (c, sv, durs)
      else case parse (cn_parser c) (readBuffer c) of
          (NeedMore, p, b) \<Rightarrow> (c\<lparr>cn_parser := p, readBuffer := b\<rparr>, sv, durs)
        | (Error, p, b) \<Rightarrow>
            (case answer_error (c\<lparr>cn_parser := p, readBuffer := b\<rparr>) sv of (c1, sv1) \<Rightarrow> (c1, sv1, durs))
        | (Complete, p, b) \<Rightarrow>
            (case answer_request router (case durs of [] \<Rightarrow> 0 | d # _ \<Rightarrow> d)
                    (c\<lparr>cn_parser := p, readBuffer := b\<rparr>) sv of
               (c1, sv1) \<Rightarrow>
                 if closeAfterWrite c1 then (c1\<lparr>readBuffer := []\<rparr>, sv1, tl durs)
                 else process_loop router (tl durs) c1 sv1))"
  by pat_completeness auto
termination
  by (relation "measure (\<lambda>(router, durs, c, sv).
      2 * length (readBuffer c) + (if rp_state (cn_parser c) = RequestLine then 0 else 1))")
    (auto simp: answer_request_simps RequestParser_init_def less_Suc_eq_le split: prod.split
      dest!: sym [of "(Complete, _, _)"] dest: parse_Complete_shorter parse_shorter)

declare process_loop.simps [simp del]

definition unsent :: "Connection \<Rightarrow> string" where
  "unsent c = drop (writeOffset c) (writeBuffer c)"

text \<open>\<open>flush\<close>: the action, the connection, the bytes handed to the kernel, the results left.\<close>

fun flush :: "send_result list \<Rightarrow> Connection \<Rightarrow> (Action \<times> Connection \<times> string \<times> send_result list) option" where
  "flush ss c =
     (if writeOffset c < length (writeBuffer c) then
        (case ss of
           [] \<Rightarrow> None
         | Accepts w # ss' \<Rightarrow>
             let chunk = take w (drop (writeOffset c) (writeBuffer c))
             in if chunk \<noteq> []
                then map_option (\<lambda>(a, c', out, rest). (a, c', chunk @ out, rest))
                       (flush ss' (c\<lparr>writeOffset := writeOffset c + length chunk\<rparr>))
                else Some (Close, c, [], ss')
         | SendEINTR # ss' \<Rightarrow> flush ss' c
         | SendEAGAIN # ss' \<Rightarrow> Some (WaitWrite, c, [], ss')
         | SendError # ss' \<Rightarrow> Some (Close, c, [], ss'))
      else Some (if closeAfterWrite c then Close else WaitRead,
                 c\<lparr>writeBuffer := [], writeOffset := 0\<rparr>, [], ss))"

declare flush.simps [simp del]

definition onWritable ::
  "send_result list \<Rightarrow> Connection \<Rightarrow> (Action \<times> Connection \<times> string) option" where
  "onWritable sends c = map_option (\<lambda>(a, c', out, rest). (a, c', out)) (flush sends c)"

definition onReadable ::
  "'a server Router \<Rightarrow> int \<Rightarrow> recv_result list \<Rightarrow> send_result list \<Rightarrow> u64 list \<Rightarrow>
     Connection \<Rightarrow> 'a server \<Rightarrow> (Action \<times> Connection \<times> 'a server \<times> string) option" where
  "onReadable router now recvs sends durs c sv =
     (case recv_loop recvs c of
        None \<Rightarrow> None
      | Some (Broken, c1, _) \<Rightarrow> Some (Close, c1, sv, [])
      | Some (Drained, c1, _) \<Rightarrow>
          (case process_loop router durs (c1\<lparr>lastActive := now\<rparr>) sv of
             (c2, sv2, _) \<Rightarrow>
               map_option (\<lambda>(a, c3, out, rest). (a, c3, sv2, out)) (flush sends c2)))"

subsection \<open>Writing\<close>

lemma take_then_drop:
  "take w (drop n xs) @ drop (n + length (take w (drop n xs))) xs = drop n xs"
proof -
  have "drop (n + length (take w (drop n xs))) xs = drop (length (take w (drop n xs))) (drop n xs)"
    by (simp only: drop_drop add.commute)
  moreover have "take w ys @ drop (length (take w ys)) ys = ys" for ys :: "'a list"
    by (cases "w \<le> length ys") simp_all
  ultimately show ?thesis by (simp only:)
qed

definition next_chunk :: "nat \<Rightarrow> Connection \<Rightarrow> string" where
  "next_chunk w c = take w (unsent c)"

lemma flush_done:
  "\<not> writeOffset c < length (writeBuffer c) \<Longrightarrow>
     flush ss c = Some (if closeAfterWrite c then Close else WaitRead,
                        c\<lparr>writeBuffer := [], writeOffset := 0\<rparr>, [], ss)"
  by (subst flush.simps) simp

lemma flush_send:
  assumes "writeOffset c < length (writeBuffer c)"
  shows "flush [] c = None"
    and "flush (Accepts w # ss) c =
      (if next_chunk w c \<noteq> []
       then map_option (\<lambda>(a, c', out, rest). (a, c', next_chunk w c @ out, rest))
              (flush ss (c\<lparr>writeOffset := writeOffset c + length (next_chunk w c)\<rparr>))
       else Some (Close, c, [], ss))"
    and "flush (SendEINTR # ss) c = flush ss c"
    and "flush (SendEAGAIN # ss) c = Some (WaitWrite, c, [], ss)"
    and "flush (SendError # ss) c = Some (Close, c, [], ss)"
  using assms by (subst flush.simps; simp add: Let_def next_chunk_def unsent_def)+

lemma unsent_chunk:
  "unsent c = next_chunk w c @ unsent (c\<lparr>writeOffset := writeOffset c + length (next_chunk w c)\<rparr>)"
  using take_then_drop [of w "writeOffset c" "writeBuffer c"] by (simp add: unsent_def next_chunk_def)

definition conn_inv :: "Connection \<Rightarrow> bool" where
  "conn_inv c \<longleftrightarrow> writeOffset c \<le> length (writeBuffer c)"

text \<open>
  What \<open>flush\<close> guarantees: the bytes it hands over are the next ones of the buffer, it waits
  for the next request only when all are sent, and for the socket only when some are not.
\<close>

definition flush_ok :: "Connection \<Rightarrow> Action \<times> Connection \<times> string \<times> send_result list \<Rightarrow> bool" where
  "flush_ok c = (\<lambda>(a, c', out, rest).
     unsent c = out @ unsent c' \<and> closeAfterWrite c' = closeAfterWrite c \<and>
     readBuffer c' = readBuffer c \<and> cn_parser c' = cn_parser c \<and> (conn_inv c \<longrightarrow> conn_inv c') \<and>
     (a = WaitRead \<longrightarrow> writeBuffer c' = [] \<and> writeOffset c' = 0 \<and> \<not> closeAfterWrite c) \<and>
     (a = WaitWrite \<longrightarrow> unsent c' \<noteq> []))"

lemma flush_facts: "flush ss c = Some r \<Longrightarrow> flush_ok c r"
proof (induction ss arbitrary: c r)
  case Nil
  then show ?case
    by (cases "writeOffset c < length (writeBuffer c)")
      (auto simp: flush_send flush_done flush_ok_def unsent_def conn_inv_def split: if_splits)
next
  case (Cons s ss)
  show ?case
  proof (cases "writeOffset c < length (writeBuffer c)")
    case False
    with Cons.prems show ?thesis by (auto simp: flush_done flush_ok_def unsent_def conn_inv_def split: if_splits)
  next
    case True
    then have ne: "unsent c \<noteq> []" by (simp add: unsent_def)
    show ?thesis
    proof (cases s)
      case (Accepts w)
      let ?c = "c\<lparr>writeOffset := writeOffset c + length (next_chunk w c)\<rparr>"
      from Cons.prems Accepts consider
          a c' out rest where "flush ss ?c = Some (a, c', out, rest)" "r = (a, c', next_chunk w c @ out, rest)"
        | "r = (Close, c, [], ss)"
        by (auto simp: flush_send [OF True] split: if_splits)
      then show ?thesis
      proof cases
        case (1 a c' out rest)
        moreover have "conn_inv ?c"
          using True by (simp add: conn_inv_def next_chunk_def unsent_def)
        ultimately show ?thesis
          using Cons.IH [OF 1(1)] unsent_chunk [of c w] by (auto simp: flush_ok_def)
      qed (simp add: flush_ok_def)
    qed (use Cons ne in \<open>auto simp: flush_send [OF True] flush_ok_def\<close>)
  qed
qed

subsection \<open>Processing\<close>

lemma process_empty: "readBuffer c = [] \<Longrightarrow> process_loop router durs c sv = (c, sv, durs)"
  by (subst process_loop.simps) simp

lemma process_step:
  assumes "readBuffer c \<noteq> []" and "parse (cn_parser c) (readBuffer c) = (r, p, b)"
  shows "process_loop router durs c sv =
     (let c1 = c\<lparr>cn_parser := p, readBuffer := b\<rparr>
      in case r of
           NeedMore \<Rightarrow> (c1, sv, durs)
         | Error \<Rightarrow> (case answer_error c1 sv of (c2, sv2) \<Rightarrow> (c2, sv2, durs))
         | Complete \<Rightarrow>
             (case answer_request router (case durs of [] \<Rightarrow> 0 | d # _ \<Rightarrow> d) c1 sv of
                (c2, sv2) \<Rightarrow> if closeAfterWrite c2 then (c2\<lparr>readBuffer := []\<rparr>, sv2, tl durs)
                              else process_loop router (tl durs) c2 sv2))"
  using assms by (subst process_loop.simps) (simp add: Let_def split: Result.split)

text \<open>More bytes behind what is processed do not matter until it is done.\<close>

lemma answer_request_buffer:
  "answer_request router d (c\<lparr>readBuffer := x\<rparr>) sv =
     (case answer_request router d c sv of (c1, sv1) \<Rightarrow> (c1\<lparr>readBuffer := x\<rparr>, sv1))"
  by (simp add: answer_request_def appendResponse_def Let_def split: prod.split)

lemma answer_error_closes: "closeAfterWrite (fst (answer_error c sv))"
  by (simp add: answer_error_def Let_def split: prod.split)

lemma process_cong:
  assumes "readBuffer c \<noteq> []" and "x \<noteq> []" and "parse (cn_parser c) (readBuffer c) = parse q x"
  shows "process_loop router durs (c\<lparr>cn_parser := q, readBuffer := x\<rparr>) sv = process_loop router durs c sv"
proof -
  obtain r p b where pr: "parse q x = (r, p, b)" by (metis prod_cases3)
  have "readBuffer (c\<lparr>cn_parser := q, readBuffer := x\<rparr>) \<noteq> []" using assms(2) by simp
  from process_step [OF this, of r p b router durs sv] process_step [OF assms(1), of r p b router durs sv]
    assms(3) pr
  show ?thesis by simp
qed

lemma process_answer:
  assumes "readBuffer c \<noteq> []" and "parse (cn_parser c) (readBuffer c) = (Complete, p, b)"
    and "answer_request router (case durs of [] \<Rightarrow> 0 | d # _ \<Rightarrow> d) (c\<lparr>cn_parser := p, readBuffer := b\<rparr>) sv =
           (c2, sv2)"
    and "\<not> closeAfterWrite c2"
  shows "process_loop router durs (c\<lparr>readBuffer := readBuffer c @ t\<rparr>) sv =
           process_loop router (tl durs) (c2\<lparr>readBuffer := b @ t\<rparr>) sv2"
proof -
  let ?d = "case durs of [] \<Rightarrow> 0 | d # _ \<Rightarrow> d"
  have "parse (cn_parser c) (readBuffer c @ t) = (Complete, p, b @ t)"
    using parse_Complete_append assms(2) by simp
  moreover have "answer_request router ?d (c\<lparr>cn_parser := p, readBuffer := b @ t\<rparr>) sv =
      (c2\<lparr>readBuffer := b @ t\<rparr>, sv2)"
    using answer_request_buffer [of router ?d "b @ t" "c\<lparr>cn_parser := p, readBuffer := b\<rparr>" sv] assms(3)
    by simp
  ultimately show ?thesis
    using assms(1,4) by (subst process_loop.simps) simp
qed

lemma process_resume:
  "process_loop router durs c sv = (c1, sv1, durs1) \<Longrightarrow> \<not> closeAfterWrite c1 \<Longrightarrow>
   process_loop router durs (c\<lparr>readBuffer := readBuffer c @ t\<rparr>) sv =
     process_loop router durs1 (c1\<lparr>readBuffer := readBuffer c1 @ t\<rparr>) sv1"
proof (induction router durs c sv rule: process_loop.induct)
  case (1 router durs c sv)
  show ?case
  proof (cases "readBuffer c = []")
    case True
    with "1.prems" show ?thesis by (simp add: process_empty)
  next
    case False
    obtain r p b where pr: "parse (cn_parser c) (readBuffer c) = (r, p, b)" by (metis prod_cases3)
    note here = process_step [OF False pr, of router durs sv]
    show ?thesis
    proof (cases r)
      case NeedMore
      with here "1.prems" have c1: "c1 = c\<lparr>cn_parser := p, readBuffer := b\<rparr>" "sv1 = sv" "durs1 = durs"
        by simp_all
      have go: "parse (cn_parser c) (readBuffer c @ t) = parse p (b @ t)"
        using parse_resume pr NeedMore by simp
      show ?thesis
      proof (cases "b @ t = []")
        case True
        with here NeedMore c1 show ?thesis by (simp add: process_empty)
      next
        case nonempty: False
        have "process_loop router durs (c\<lparr>readBuffer := readBuffer c @ t, cn_parser := p, readBuffer := b @ t\<rparr>) sv =
            process_loop router durs (c\<lparr>readBuffer := readBuffer c @ t\<rparr>) sv"
          by (rule process_cong) (use False nonempty go in simp_all)
        then show ?thesis by (simp add: c1)
      qed
    next
      case Complete
      let ?d = "case durs of [] \<Rightarrow> 0 | d # _ \<Rightarrow> d"
      obtain c2 sv2 where a: "answer_request router ?d (c\<lparr>cn_parser := p, readBuffer := b\<rparr>) sv = (c2, sv2)"
        by fastforce
      have open2: "\<not> closeAfterWrite c2" and rest: "process_loop router (tl durs) c2 sv2 = (c1, sv1, durs1)"
        using here "1.prems" Complete a by (auto split: if_splits)
      have b2: "readBuffer c2 = b" using answer_request_simps(2) [OF a] by simp
      have "process_loop router durs (c\<lparr>readBuffer := readBuffer c @ t\<rparr>) sv =
          process_loop router (tl durs) (c2\<lparr>readBuffer := b @ t\<rparr>) sv2"
        using process_answer [OF False _ a open2] pr Complete by simp
      with "1.IH" [OF False pr [symmetric] Complete refl a [symmetric] open2 rest "1.prems"(2)] b2
      show ?thesis by simp
    next
      case Error
      with here "1.prems" answer_error_closes [of "c\<lparr>cn_parser := p, readBuffer := b\<rparr>" sv]
      show ?thesis by (auto split: prod.splits)
    qed
  qed
qed

subsection \<open>Pipelines\<close>

text \<open>The responses to a sequence of requests, up to the first that closes the connection.\<close>

fun serve_pipeline ::
  "'a server Router \<Rightarrow> u64 list \<Rightarrow> HttpRequest list \<Rightarrow> 'a server \<Rightarrow> string \<times> bool \<times> 'a server" where
  "serve_pipeline router durs [] sv = ([], False, sv)"
| "serve_pipeline router durs (rq # rqs) sv =
     (case route router rq sv of
        (response, sv1) \<Rightarrow>
          let r = response\<lparr>rs_keepAlive := rs_keepAlive response \<and> rq_keepAlive rq\<rparr>;
              out = serialize r (rq_method rq = ''HEAD'');
              sv2 = record_response response (case durs of [] \<Rightarrow> 0 | d # _ \<Rightarrow> d) sv1;
              sv3 = sv2\<lparr>sv_log := sv_log sv2 @ [access_entry rq r]\<rparr>
          in if rs_keepAlive r
             then (case serve_pipeline router (tl durs) rqs sv3 of (outs, cl, sv4) \<Rightarrow> (out @ outs, cl, sv4))
             else (out, True, sv3))"

text \<open>A request of a client: method, target, version, header fields and body.\<close>

type_synonym client_request = "string \<times> string \<times> string \<times> (string \<times> string) list \<times> string"

fun request_bytes :: "client_request \<Rightarrow> string" where
  "request_bytes (m, t, v, hs, body) = render_request m t v hs body"

fun request_seen :: "client_request \<Rightarrow> HttpRequest" where
  "request_seen (m, t, v, hs, body) = seen_request m t v hs body"

fun request_valid :: "client_request \<Rightarrow> bool" where
  "request_valid (m, t, v, hs, body) = client_request_ok m t v hs body"

lemma request_parse:
  "request_valid q \<Longrightarrow> \<exists>p. parse RequestParser_init (request_bytes q @ rest) = (Complete, p, rest) \<and>
     rp_req p = request_seen q"
  by (cases q) (simp add: parse_render)

lemma request_bytes_ne: "request_bytes q \<noteq> []"
  by (cases q) (simp add: render_request_def)

text \<open>One request at the front of the buffer of an idle parser.\<close>

lemma process_request:
  assumes "request_valid q" and "cn_parser c = RequestParser_init"
    and "readBuffer c = request_bytes q @ rest"
    and "serve_pipeline router durs [request_seen q] sv = (out, cl, sv1)"
  shows "process_loop router durs c sv =
     (let c1 = c\<lparr>writeBuffer := writeBuffer c @ out, closeAfterWrite := closeAfterWrite c \<or> cl\<rparr>
      in if closeAfterWrite c \<or> cl then (c1\<lparr>readBuffer := []\<rparr>, sv1, tl durs)
         else process_loop router (tl durs) (c1\<lparr>readBuffer := rest\<rparr>) sv1)"
proof -
  from request_parse [OF assms(1), of rest] assms(2,3) obtain p where
    p: "parse (cn_parser c) (readBuffer c) = (Complete, p, rest)" "rp_req p = request_seen q" by auto
  have ne: "readBuffer c \<noteq> []" using assms(3) request_bytes_ne by simp
  have same:
    "c\<lparr>writeBuffer := w, closeAfterWrite := x, cn_parser := RequestParser_init, readBuffer := r\<rparr> =
       c\<lparr>writeBuffer := w, closeAfterWrite := x, readBuffer := r\<rparr>"
    "c\<lparr>writeBuffer := w, cn_parser := RequestParser_init, readBuffer := r\<rparr> =
       c\<lparr>writeBuffer := w, closeAfterWrite := closeAfterWrite c, readBuffer := r\<rparr>"
    "c\<lparr>readBuffer := r, writeBuffer := w, cn_parser := RequestParser_init\<rparr> =
       c\<lparr>writeBuffer := w, closeAfterWrite := closeAfterWrite c, readBuffer := r\<rparr>" for w x r
    by (rule Connection.equality; simp add: assms(2))+
  obtain response sv' where r: "route router (request_seen q) sv = (response, sv')" by fastforce
  from assms(4) show ?thesis
    by (subst process_step [OF ne p(1)])
      (auto simp: Let_def answer_request_def appendResponse_def p(2) r parser_inv_reset same
        split: if_splits)
qed

lemma serve_pipeline_Cons:
  assumes "serve_pipeline router durs [q] sv = (out1, cl1, sv1)"
  shows "serve_pipeline router durs (q # qs) sv =
     (if cl1 then (out1, True, sv1)
      else case serve_pipeline router (tl durs) qs sv1 of (outs, cl, sv2) \<Rightarrow> (out1 @ outs, cl, sv2))"
  using assms by (auto simp: Let_def split: prod.splits if_splits)

lemma process_pipeline:
  assumes "\<forall>q\<in>set qs. request_valid q" and "cn_parser c = RequestParser_init"
    and "readBuffer c = concat (map request_bytes qs)" and "\<not> closeAfterWrite c"
    and "serve_pipeline router durs (map request_seen qs) sv = (out, cl, sv')"
  shows "\<exists>durs'. process_loop router durs c sv =
     (c\<lparr>writeBuffer := writeBuffer c @ out, closeAfterWrite := cl, readBuffer := []\<rparr>, sv', durs')"
  using assms
proof (induction qs arbitrary: durs c sv out)
  case Nil
  then have "c\<lparr>writeBuffer := writeBuffer c @ out, closeAfterWrite := cl, readBuffer := []\<rparr> = c"
    by (intro Connection.equality) auto
  with Nil show ?case by (simp add: process_empty)
next
  case (Cons q qs)
  obtain out1 cl1 sv1 where one: "serve_pipeline router durs [request_seen q] sv = (out1, cl1, sv1)"
    by (metis prod_cases3)
  note pr = process_request [OF _ Cons.prems(2) _ one, of "concat (map request_bytes qs)"]
  note all = serve_pipeline_Cons [OF one, of "map request_seen qs"]
  show ?case
  proof (cases cl1)
    case True
    with pr all Cons.prems show ?thesis by (auto simp: Let_def)
  next
    case False
    let ?c = "c\<lparr>writeBuffer := writeBuffer c @ out1, closeAfterWrite := False,
        readBuffer := concat (map request_bytes qs)\<rparr>"
    obtain outs where o: "serve_pipeline router (tl durs) (map request_seen qs) sv1 = (outs, cl, sv')"
        "out = out1 @ outs"
      using all False Cons.prems(5) by (auto split: prod.splits)
    have "process_loop router durs c sv = process_loop router (tl durs) ?c sv1"
      using pr False Cons.prems(1,3,4) by (simp add: Let_def)
    with Cons.IH [of ?c "tl durs" sv1 outs] o Cons.prems(1,2) show ?thesis by simp
  qed
qed

lemma recv_chunks:
  "recv_loop (map Bytes chunks @ rs) c = recv_loop rs (c\<lparr>readBuffer := readBuffer c @ concat chunks\<rparr>)"
  by (induction chunks arbitrary: c) simp_all

lemma flush_whole:
  assumes "writeOffset c = 0"
  shows "flush [Accepts (length (writeBuffer c))] c =
     Some (if closeAfterWrite c then Close else WaitRead, c\<lparr>writeBuffer := [], writeOffset := 0\<rparr>, writeBuffer c,
           if writeBuffer c = [] then [Accepts 0] else [])"
proof (cases "writeBuffer c = []")
  case True
  then show ?thesis by (simp add: flush_done)
next
  case False
  then show ?thesis
    using assms by (simp add: flush_send(2) next_chunk_def unsent_def flush_done)
qed

subsection \<open>A connection over many calls\<close>

datatype io_event =
    Readable int "recv_result list" "send_result list" "u64 list"
  | Writable "send_result list"

fun io_apply :: "'a server Router \<Rightarrow> io_event \<Rightarrow> Connection \<times> 'a server \<Rightarrow>
    (Action \<times> Connection \<times> 'a server \<times> string) option" where
  "io_apply router (Readable now recvs sends durs) (c, sv) = onReadable router now recvs sends durs c sv"
| "io_apply router (Writable sends) (c, sv) =
     map_option (\<lambda>(a, c', out). (a, c', sv, out)) (onWritable sends c)"

text \<open>
  The bytes a call appends to the write buffer: everything the parsed requests are answered
  with, before any of it is sent.
\<close>

fun io_queued :: "'a server Router \<Rightarrow> io_event \<Rightarrow> Connection \<times> 'a server \<Rightarrow> string" where
  "io_queued router (Readable now recvs sends durs) (c, sv) =
     (case recv_loop recvs c of
        Some (Drained, c1, _) \<Rightarrow>
          drop (length (writeBuffer c)) (writeBuffer (fst (process_loop router durs (c1\<lparr>lastActive := now\<rparr>) sv)))
      | _ \<Rightarrow> [])"
| "io_queued router (Writable sends) (c, sv) = []"

text \<open>Calls until the connection closes: the final state, the bytes sent and the bytes queued.\<close>

fun io_run :: "'a server Router \<Rightarrow> io_event list \<Rightarrow> Connection \<times> 'a server \<Rightarrow>
    (Connection \<times> 'a server \<times> string \<times> string) option" where
  "io_run router [] (c, sv) = Some (c, sv, [], [])"
| "io_run router (e # es) (c, sv) =
     (case io_apply router e (c, sv) of
        None \<Rightarrow> None
      | Some (a, c', sv', out) \<Rightarrow>
          let q = io_queued router e (c, sv)
          in if a = Close then (if es = [] then Some (c', sv', out, q) else None)
             else map_option (\<lambda>(c'', sv'', outs, qs). (c'', sv'', out @ outs, q @ qs))
                    (io_run router es (c', sv')))"

lemma recv_loop_keeps:
  "recv_loop rs c = Some (d, c', rest) \<Longrightarrow>
     writeBuffer c' = writeBuffer c \<and> writeOffset c' = writeOffset c"
  by (induction rs c rule: recv_loop.induct) auto

lemma answer_request_appends:
  "answer_request router d c sv = (c', sv') \<Longrightarrow>
     prefix (writeBuffer c) (writeBuffer c') \<and> writeOffset c' = writeOffset c"
  by (auto simp: answer_request_def appendResponse_def Let_def split: prod.splits if_splits)

lemma answer_error_appends:
  "answer_error c sv = (c', sv') \<Longrightarrow>
     prefix (writeBuffer c) (writeBuffer c') \<and> writeOffset c' = writeOffset c"
  by (auto simp: answer_error_def appendResponse_def Let_def split: prod.splits if_splits)

lemma process_appends:
  "process_loop router durs c sv = (c', sv', durs') \<Longrightarrow>
     prefix (writeBuffer c) (writeBuffer c') \<and> writeOffset c' = writeOffset c"
proof (induction router durs c sv rule: process_loop.induct)
  case (1 router durs c sv)
  show ?case
  proof (cases "readBuffer c = []")
    case False
    obtain r p b where pr: "parse (cn_parser c) (readBuffer c) = (r, p, b)" by (metis prod_cases3)
    note here = process_step [OF False pr, of router durs sv]
    show ?thesis
    proof (cases r)
      case Complete
      let ?d = "case durs of [] \<Rightarrow> 0 | d # _ \<Rightarrow> d"
      obtain c2 sv2 where a: "answer_request router ?d (c\<lparr>cn_parser := p, readBuffer := b\<rparr>) sv = (c2, sv2)"
        by fastforce
      from answer_request_appends [OF a] "1.prems" here Complete a
        "1.IH" [OF False pr [symmetric] Complete refl a [symmetric]]
      show ?thesis by (auto split: if_splits dest: prefix_order.trans)
    qed (use here "1.prems" answer_error_appends in \<open>fastforce split: prod.splits\<close>)+
  qed (use "1.prems" in \<open>simp add: process_empty\<close>)
qed

lemma unsent_extend:
  "conn_inv c \<Longrightarrow> writeBuffer c' = writeBuffer c @ x \<Longrightarrow> writeOffset c' = writeOffset c \<Longrightarrow>
     unsent c' = unsent c @ x \<and> conn_inv c'"
  by (simp add: unsent_def conn_inv_def)

lemma io_apply_stream:
  assumes "conn_inv c" and "io_apply router e (c, sv) = Some (a, c', sv', out)"
  shows "unsent c @ io_queued router e (c, sv) = out @ unsent c' \<and> conn_inv c' \<and>
     (a = WaitRead \<longrightarrow> unsent c' = []) \<and> (a = WaitWrite \<longrightarrow> unsent c' \<noteq> [])"
proof (cases e)
  case (Writable sends)
  with assms obtain rest where f: "flush sends c = Some (a, c', out, rest)"
    by (auto simp: onWritable_def)
  from flush_facts [OF f] Writable assms(1) show ?thesis
    by (auto simp: flush_ok_def unsent_def)
next
  case (Readable now recvs sends durs)
  with assms(2) obtain d c1 rest where rl: "recv_loop recvs c = Some (d, c1, rest)"
    by (auto simp: onReadable_def split: option.splits)
  note keep = recv_loop_keeps [OF rl]
  show ?thesis
  proof (cases d)
    case Broken
    with rl assms Readable keep show ?thesis
      by (auto simp: onReadable_def unsent_def conn_inv_def)
  next
    case Drained
    obtain c2 sv2 ds where p: "process_loop router durs (c1\<lparr>lastActive := now\<rparr>) sv = (c2, sv2, ds)"
      by (metis prod_cases3)
    from process_appends [OF p] keep obtain x where x: "writeBuffer c2 = writeBuffer c @ x"
      "writeOffset c2 = writeOffset c" by (auto simp: prefix_def)
    have q: "io_queued router e (c, sv) = x" by (simp add: Readable rl Drained p x)
    from assms(2) Readable rl Drained p obtain rest' where f: "flush sends c2 = Some (a, c', out, rest')"
      by (auto simp: onReadable_def)
    from flush_facts [OF f] unsent_extend [OF assms(1) x] q show ?thesis
      by (auto simp: flush_ok_def unsent_def)
  qed
qed

lemma io_run_stream:
  "conn_inv c \<Longrightarrow> io_run router es (c, sv) = Some (c', sv', out, queued) \<Longrightarrow>
     unsent c @ queued = out @ unsent c' \<and> conn_inv c'"
proof (induction es arbitrary: c sv out queued)
  case (Cons e es)
  from Cons.prems(2) obtain a c1 sv1 out1 where a: "io_apply router e (c, sv) = Some (a, c1, sv1, out1)"
    by (auto split: option.splits)
  note s = io_apply_stream [OF Cons.prems(1) a]
  show ?case
  proof (cases "a = Close")
    case True
    with Cons.prems(2) a s show ?thesis by (auto simp: Let_def split: if_splits)
  next
    case False
    with Cons.prems(2) a obtain outs qs where r: "io_run router es (c1, sv1) = Some (c', sv', outs, qs)"
      "out = out1 @ outs" "queued = io_queued router e (c, sv) @ qs"
      by (auto simp: Let_def)
    with Cons.IH [of c1 sv1 outs qs] s
    have "unsent c1 @ qs = outs @ unsent c'" "conn_inv c'"
      "unsent c @ io_queued router e (c, sv) = out1 @ unsent c1" by simp_all
    with r(2,3) show ?thesis by (metis append_assoc)
  qed
qed simp

section \<open>Properties of connections\<close>

text \<open>
  C11: The byte stream is faithful. Over any sequence of readable and writable calls on a
  connection, with any pattern of partial sends, interrupts and full socket buffers, the
  bytes handed to the kernel are exactly the next bytes of the responses queued, in order,
  each once: what was pending and what was queued is what was sent and what is still pending.
  At the start nothing is pending.
\<close>

theorem response_stream_faithful:
  assumes "io_run router es (Connection_init now fd, sv) = Some (c', sv', out, queued)"
  shows "queued = out @ unsent c' \<and> writeOffset c' \<le> length (writeBuffer c')"
  using io_run_stream [OF _ assms] by (simp add: conn_inv_def Connection_init_def unsent_def)

definition sample_router :: "nat server Router" where
  "sample_router = router_of [(''GET'', ''/n'', \<lambda>q sv. (response_text (dec_nat (sv_app sv)) 200,
     sv\<lparr>sv_app := sv_app sv + 1\<rparr>))]"

definition sample_server :: "nat server" where
  "sample_server = \<lparr>sv_app = 7, sv_metrics = Metrics_init, sv_log = []\<rparr>"

definition sample_get :: client_request where
  "sample_get = (''GET'', ''/n'', ''HTTP/1.1'', [(''Host'', ''h'')], [])"

definition sample_events :: "io_event list" where
  "sample_events = [Readable 0 [Bytes (take 9 (request_bytes sample_get)), RecvEAGAIN] [] [],
     Readable 1 [Bytes (drop 9 (request_bytes sample_get)), RecvEINTR, RecvEAGAIN]
       [Accepts 30, SendEINTR, SendEAGAIN] [5],
     Writable [Accepts 40, Accepts 1000]]"

theorem response_stream_faithful_witness:
  "\<exists>c' sv' out queued. io_run sample_router sample_events (Connection_init 0 4, sample_server) =
     Some (c', sv', out, queued) \<and> sv_app sv' = 8 \<and> queued = out @ unsent c'"
proof -
  have "map_option (\<lambda>(c, sv, out, q). sv_app sv)
      (io_run sample_router sample_events (Connection_init 0 4, sample_server)) = Some 8"
    by code_simp
  then obtain c' sv' out queued where
    r: "io_run sample_router sample_events (Connection_init 0 4, sample_server) = Some (c', sv', out, queued)"
    and "sv_app sv' = 8" by auto
  with response_stream_faithful [OF r] show ?thesis by blast
qed

lemma onReadable_pipeline:
  assumes "\<forall>q\<in>set qs. request_valid q" and "concat chunks = concat (map request_bytes qs)"
    and "serve_pipeline router durs (map request_seen qs) sv = (out, cl, sv')"
  shows "onReadable router now (map Bytes chunks @ [RecvEAGAIN]) [Accepts (length out)] durs
       (Connection_init t fd) sv =
     Some (if cl then Close else WaitRead, (Connection_init now fd)\<lparr>closeAfterWrite := cl\<rparr>, sv', out)"
proof -
  let ?c = "(Connection_init now fd)\<lparr>readBuffer := concat chunks\<rparr>"
  have r: "recv_loop (map Bytes chunks @ [RecvEAGAIN]) (Connection_init t fd) =
      Some (Drained, (Connection_init t fd)\<lparr>readBuffer := concat chunks\<rparr>, [])"
    by (simp add: recv_chunks Connection_init_def)
  have c: "(Connection_init t fd)\<lparr>readBuffer := concat chunks, lastActive := now\<rparr> = ?c"
    by (simp add: Connection_init_def)
  obtain ds where p: "process_loop router durs ?c sv =
      (?c\<lparr>writeBuffer := out, closeAfterWrite := cl, readBuffer := []\<rparr>, sv', ds)"
    using process_pipeline [of qs ?c router durs sv out cl sv'] assms by (auto simp: Connection_init_def)
  have f: "flush [Accepts (length out)] (?c\<lparr>writeBuffer := out, closeAfterWrite := cl, readBuffer := []\<rparr>) =
      Some (if cl then Close else WaitRead, (Connection_init now fd)\<lparr>closeAfterWrite := cl\<rparr>, out,
            if out = [] then [Accepts 0] else [])"
    using flush_whole [of "?c\<lparr>writeBuffer := out, closeAfterWrite := cl, readBuffer := []\<rparr>"]
    by (simp add: Connection_init_def)
  show ?thesis unfolding onReadable_def r by (simp only: option.case prod.case drained.case c p f) simp
qed

text \<open>
  C12: Pipelined requests are answered in order. When well-formed requests arrive on an idle
  connection, cut into any chunks, and the socket takes everything, one call sends exactly
  the concatenated responses the router gives to these requests one after the other, each in
  the server state the previous one left, up to the first that ends the connection; nothing
  is left in the buffers, and the connection is kept or closed accordingly.
\<close>

theorem pipelined_requests_answered:
  assumes "\<forall>q\<in>set qs. request_valid q" and "concat chunks = concat (map request_bytes qs)"
    and "serve_pipeline router durs (map request_seen qs) sv = (out, cl, sv')"
  shows "onReadable router now (map Bytes chunks @ [RecvEAGAIN]) [Accepts (length out)] durs
       (Connection_init t fd) sv =
     Some (if cl then Close else WaitRead, (Connection_init now fd)\<lparr>closeAfterWrite := cl\<rparr>, sv', out)"
  using assms by (rule onReadable_pipeline)

lemma sample_seen:
  "rq_method (request_seen sample_get) = ''GET''" "rq_path (request_seen sample_get) = ''/n''"
  "rq_keepAlive (request_seen sample_get)"
  by code_simp+

lemma sample_route:
  "route sample_router (request_seen sample_get) sv =
     (response_text (dec_nat (sv_app sv)) 200, sv\<lparr>sv_app := sv_app sv + 1\<rparr>)"
  by (simp add: route_def sample_seen Let_def sample_router_def router_of_simps registered_def)

lemma sample_pipeline:
  "request_valid sample_get"
  "fst (serve_pipeline sample_router [] (map request_seen [sample_get, sample_get]) sample_server) =
     serialize (response_text ''7'' 200) False @ serialize (response_text ''8'' 200) False"
  "fst (snd (serve_pipeline sample_router [] (map request_seen [sample_get, sample_get]) sample_server)) = False"
  "fst (serve_pipeline sample_router [] [request_seen sample_get] sample_server) =
     serialize (response_text ''7'' 200) False"
proof -
  show "request_valid sample_get" by code_simp
  have "rs_keepAlive (response_text s n)" "(response_text s n)\<lparr>rs_keepAlive := True\<rparr> = response_text s n" for s n
    by (simp_all add: response_text_def HttpResponse_init_def)
  moreover have "dec_nat 7 = ''7''" "dec_nat 8 = ''8''" by code_simp+
  ultimately show
    "fst (serve_pipeline sample_router [] (map request_seen [sample_get, sample_get]) sample_server) =
       serialize (response_text ''7'' 200) False @ serialize (response_text ''8'' 200) False"
    "fst (snd (serve_pipeline sample_router [] (map request_seen [sample_get, sample_get]) sample_server)) = False"
    "fst (serve_pipeline sample_router [] [request_seen sample_get] sample_server) =
       serialize (response_text ''7'' 200) False"
    by (simp_all add: sample_route sample_seen Let_def record_response_def sample_server_def)
qed

theorem pipelined_requests_answered_witness:
  "\<exists>sv'. onReadable sample_router 9 (map Bytes [take 9 (request_bytes sample_get),
       drop 9 (request_bytes sample_get) @ request_bytes sample_get] @ [RecvEAGAIN])
       [Accepts (length (serialize (response_text ''7'' 200) False @ serialize (response_text ''8'' 200) False))]
       [] (Connection_init 0 4) sample_server =
     Some (WaitRead, (Connection_init 9 4)\<lparr>closeAfterWrite := False\<rparr>, sv',
       serialize (response_text ''7'' 200) False @ serialize (response_text ''8'' 200) False)"
proof -
  obtain sv' where s: "serve_pipeline sample_router [] (map request_seen [sample_get, sample_get]) sample_server =
      (serialize (response_text ''7'' 200) False @ serialize (response_text ''8'' 200) False, False, sv')"
    using sample_pipeline(2,3) by (metis prod.collapse)
  have v: "\<forall>q\<in>set [sample_get, sample_get]. request_valid q" using sample_pipeline(1) by simp
  have c: "concat [take 9 (request_bytes sample_get), drop 9 (request_bytes sample_get) @
      request_bytes sample_get] = concat (map request_bytes [sample_get, sample_get])" by simp
  from pipelined_requests_answered [OF v c s, of 9 0 4] show ?thesis unfolding if_False by blast
qed

text \<open>
  C40: A peer that closes its sending side loses pipelined requests. When the end of the
  stream is read in the same call, only the first of the requests that arrived before it is
  answered; the others are dropped from the buffer unanswered, and the answer sent announces
  \<open>keep-alive\<close> when its request asked for it, although the connection is then closed.
\<close>

theorem fin_drops_pipelined_requests:
  assumes "request_valid q" and "serve_pipeline router durs [request_seen q] sv = (out, cl, sv')"
  shows "onReadable router now (map Bytes [request_bytes q, concat (map request_bytes qs)] @ [Fin])
       [Accepts (length out)] durs (Connection_init t fd) sv =
     Some (Close, (Connection_init now fd)\<lparr>closeAfterWrite := True\<rparr>, sv', out)"
proof -
  let ?b = "request_bytes q @ concat (map request_bytes qs)"
  let ?c = "(Connection_init now fd)\<lparr>readBuffer := ?b, closeAfterWrite := True\<rparr>"
  have r: "recv_loop (map Bytes [request_bytes q, concat (map request_bytes qs)] @ [Fin]) (Connection_init t fd) =
      Some (Drained, (Connection_init t fd)\<lparr>readBuffer := ?b, closeAfterWrite := True\<rparr>, [])"
    by (simp add: Connection_init_def)
  have c: "(Connection_init t fd)\<lparr>readBuffer := ?b, closeAfterWrite := True, lastActive := now\<rparr> = ?c"
    by (simp add: Connection_init_def)
  have p: "process_loop router durs ?c sv =
      (?c\<lparr>writeBuffer := out, readBuffer := []\<rparr>, sv', tl durs)"
    using process_request [OF assms(1) _ _ assms(2), of ?c "concat (map request_bytes qs)"]
    by (simp add: Connection_init_def Let_def)
  have f: "flush [Accepts (length out)] (?c\<lparr>writeBuffer := out, readBuffer := []\<rparr>) =
      Some (Close, (Connection_init now fd)\<lparr>closeAfterWrite := True\<rparr>, out,
            if out = [] then [Accepts 0] else [])"
    using flush_whole [of "?c\<lparr>writeBuffer := out, readBuffer := []\<rparr>"] by (simp add: Connection_init_def)
  show ?thesis unfolding onReadable_def r by (simp only: option.case prod.case drained.case c p f) simp
qed

theorem fin_drops_pipelined_requests_witness:
  "\<exists>sv'. onReadable sample_router 9 (map Bytes [request_bytes sample_get,
       concat (map request_bytes [sample_get])] @ [Fin])
       [Accepts (length (serialize (response_text ''7'' 200) False))] [] (Connection_init 0 4) sample_server =
     Some (Close, (Connection_init 9 4)\<lparr>closeAfterWrite := True\<rparr>, sv', serialize (response_text ''7'' 200) False)"
proof -
  obtain cl sv' where "serve_pipeline sample_router [] [request_seen sample_get] sample_server =
      (serialize (response_text ''7'' 200) False, cl, sv')"
    using sample_pipeline(4) by (metis prod.collapse)
  from fin_drops_pipelined_requests [OF sample_pipeline(1) this] show ?thesis by blast
qed

text \<open>
  C13: Reads compose. As long as processing what has arrived leaves the connection open,
  processing more bytes later has exactly the effect (responses queued, server state, parser
  state, bytes kept) of processing everything at once.
\<close>

theorem processing_resumable:
  assumes "process_loop router durs c sv = (c1, sv1, durs1)" and "\<not> closeAfterWrite c1"
  shows "process_loop router durs (c\<lparr>readBuffer := readBuffer c @ later\<rparr>) sv =
     process_loop router durs1 (c1\<lparr>readBuffer := readBuffer c1 @ later\<rparr>) sv1"
  using assms by (rule process_resume)

theorem processing_resumable_witness:
  "\<exists>c1 sv1 durs1. process_loop sample_router [3]
       ((Connection_init 0 4)\<lparr>readBuffer := request_bytes sample_get @ ''GET /n''\<rparr>) sample_server = (c1, sv1, durs1)
     \<and> sv_app sv1 = 8 \<and>
     process_loop sample_router [3] ((Connection_init 0 4)\<lparr>readBuffer := request_bytes sample_get @ ''GET /n'' @
       '' HTTP/1.1'' @ crlf @ crlf\<rparr>) sample_server =
     process_loop sample_router durs1 (c1\<lparr>readBuffer := readBuffer c1 @ '' HTTP/1.1'' @ crlf @ crlf\<rparr>) sv1"
proof -
  let ?c = "(Connection_init 0 4)\<lparr>readBuffer := request_bytes sample_get @ ''GET /n''\<rparr>"
  obtain c1 sv1 durs1 where p: "process_loop sample_router [3] ?c sample_server = (c1, sv1, durs1)"
    by (metis prod_cases3)
  have "(\<lambda>(c, sv, d). (closeAfterWrite c, sv_app sv)) (process_loop sample_router [3] ?c sample_server) =
      (False, 8)" by code_simp
  with p have "\<not> closeAfterWrite c1" "sv_app sv1 = 8" by auto
  with processing_resumable [OF p, of "'' HTTP/1.1'' @ crlf @ crlf"] p show ?thesis by auto
qed

text \<open>
  C14: A request that cannot be parsed ends the connection. One error response with the
  parser's status is queued behind the earlier responses and announces \<open>close\<close>, it is counted
  and logged once, the unparsed bytes are discarded, and whatever the socket does the call
  never asks to wait for another request.
\<close>

theorem malformed_request_closes:
  assumes "readBuffer c \<noteq> []" and "parse (cn_parser c) (readBuffer c) = (Error, p, b)"
    and "process_loop router durs c sv = (c1, sv1, durs1)"
  shows "writeBuffer c1 = writeBuffer c @
       serialize ((response_error (rp_error p))\<lparr>rs_keepAlive := False\<rparr>) (rq_method (rp_req p) = ''HEAD'') \<and>
     closeAfterWrite c1 \<and> readBuffer c1 = [] \<and> sv_app sv1 = sv_app sv \<and>
     totalRequests (sv_metrics sv1) = totalRequests (sv_metrics sv) + 1 \<and>
     length (sv_log sv1) = Suc (length (sv_log sv)) \<and>
     (\<forall>sends r. flush sends c1 = Some r \<longrightarrow> fst r \<noteq> WaitRead)"
proof -
  have "flush sends c1 = Some r \<Longrightarrow> closeAfterWrite c1 \<Longrightarrow> fst r \<noteq> WaitRead" for sends r
    using flush_facts [of sends c1 r] by (auto simp: flush_ok_def)
  moreover have "process_loop router durs c sv =
      (case answer_error (c\<lparr>cn_parser := p, readBuffer := b\<rparr>) sv of (c2, sv2) \<Rightarrow> (c2, sv2, durs))"
    using process_step [OF assms(1,2)] by (simp add: Let_def)
  ultimately show ?thesis
    using assms(3)
    by (auto simp: answer_error_def appendResponse_def record_response_def recordRequest_def Let_def)
qed

definition bad_connection :: Connection where
  "bad_connection = (Connection_init 0 4)\<lparr>readBuffer := ''nonsense'' @ crlf\<rparr>"

theorem malformed_request_closes_witness:
  "\<exists>c1 sv1 durs1. process_loop sample_router [] bad_connection sample_server = (c1, sv1, durs1) \<and>
     closeAfterWrite c1 \<and> totalRequests (sv_metrics sv1) = 1"
proof -
  have f: "fst (parse (cn_parser bad_connection) (readBuffer bad_connection)) = Error"
    "readBuffer bad_connection \<noteq> []" by code_simp+
  obtain p b where p: "parse (cn_parser bad_connection) (readBuffer bad_connection) = (Error, p, b)"
    using f(1) by (metis prod.collapse)
  obtain c1 sv1 durs1 where l: "process_loop sample_router [] bad_connection sample_server = (c1, sv1, durs1)"
    by (metis prod_cases3)
  from malformed_request_closes [OF f(2) p l] l show ?thesis
    by (auto simp: sample_server_def Metrics_init_def)
qed

end
