(* ===== verification/Event_Loop.thy ===== *)
theory Event_Loop
  imports Connection_Handler
begin

section \<open>What both event loops share\<close>

text \<open>
  The parts of \<open>src/include/event_loop.h\<close> and of the two loops that are the same: the server
  configuration, readiness events, the choice of the handler call for an event, the idle
  test, and the contract of a table of connections whose size the metrics report.
\<close>

record ServerConfig =
  cfg_ip :: string
  cfg_port :: int
  cfg_threads :: int
  cfg_cacheCapacity :: int
  cfg_idleTimeoutSeconds :: int
  cfg_mode :: string

definition ServerConfig_init :: ServerConfig where
  "ServerConfig_init = \<lparr>cfg_ip = ''127.0.0.1'', cfg_port = 8080, cfg_threads = 4,
     cfg_cacheCapacity = 64, cfg_idleTimeoutSeconds = 15, cfg_mode = ''pool''\<rparr>"

text \<open>The bits of an event mask the loops test, and what a descriptor is registered for.\<close>

record epoll_event =
  EPOLLOUT :: bool
  EPOLLHUP :: bool
  EPOLLERR :: bool

datatype interest = WantIn | WantOut

text \<open>The environment of one handler call: the clock and the results of the system calls.\<close>

record call_env =
  env_now :: int
  env_recvs :: "recv_result list"
  env_sends :: "send_result list"
  env_durations :: "u64 list"

text \<open>\<open>EPOLLHUP | EPOLLERR\<close> closes, \<open>EPOLLOUT\<close> writes, anything else reads.\<close>

definition dispatch_event ::
  "'a server Router \<Rightarrow> call_env \<Rightarrow> epoll_event \<Rightarrow> Connection \<Rightarrow> 'a server \<Rightarrow>
     (Action \<times> Connection \<times> 'a server \<times> string) option" where
  "dispatch_event router env ev c sv =
     (if EPOLLHUP ev \<or> EPOLLERR ev then Some (Close, c, sv, [])
      else if EPOLLOUT ev then
        map_option (\<lambda>(a, c', out). (a, c', sv, out)) (onWritable (env_sends env) c)
      else onReadable router (env_now env) (env_recvs env) (env_sends env) (env_durations env) c sv)"

definition idle_expired :: "ServerConfig \<Rightarrow> int \<Rightarrow> Connection \<Rightarrow> bool" where
  "idle_expired config now c \<longleftrightarrow> now - lastActive c > cfg_idleTimeoutSeconds config * 1000000000"

definition gauge_opened :: "'a server \<Rightarrow> 'a server" where
  "gauge_opened sv = sv\<lparr>sv_metrics := connectionOpened (sv_metrics sv)\<rparr>"

definition gauge_closed :: "'a server \<Rightarrow> 'a server" where
  "gauge_closed sv = sv\<lparr>sv_metrics := connectionClosed (sv_metrics sv)\<rparr>"

definition active_gauge :: "'a server \<Rightarrow> i64" where
  "active_gauge sv = activeConnections (sv_metrics sv)"

lemma gauge_simps [simp]:
  "active_gauge (gauge_opened sv) = active_gauge sv + 1"
  "active_gauge (gauge_closed sv) = active_gauge sv - 1"
  by (simp_all add: active_gauge_def gauge_opened_def gauge_closed_def connectionOpened_def
      connectionClosed_def)

subsection \<open>What handlers keep of the server\<close>

text \<open>
  An invariant of the server behind a connection: the routing table keeps it, and so do the
  accounting and the access log of a response. Then every handler call keeps it.
\<close>

locale server_invariant =
  fixes router :: "'a server Router"
    and P :: "'a server \<Rightarrow> bool"
  assumes keeps_route: "P sv \<Longrightarrow> P (snd (route router rq sv))"
    and keeps_record: "P sv \<Longrightarrow> P (record_response r d sv)"
    and keeps_log: "P sv \<Longrightarrow> P (sv\<lparr>sv_log := l\<rparr>)"
begin

lemma appendResponse_keeps: "P sv \<Longrightarrow> P (snd (appendResponse rq r c sv))"
  by (simp add: appendResponse_def Let_def keeps_log)

lemma answer_error_keeps: "P sv \<Longrightarrow> P (snd (answer_error c sv))"
  by (simp add: answer_error_def Let_def case_prod_beta appendResponse_keeps keeps_record)

lemma answer_request_keeps: "P sv \<Longrightarrow> P (snd (answer_request router d c sv))"
  by (simp add: answer_request_def Let_def case_prod_beta appendResponse_keeps keeps_record keeps_route)

lemma process_keeps:
  "process_loop r durs c sv = (c', sv', durs') \<Longrightarrow> r = router \<Longrightarrow> P sv \<Longrightarrow> P sv'"
proof (induction r durs c sv rule: process_loop.induct)
  case (1 r durs c sv)
  note eq = "1.prems"(1) and P = "1.prems"(3)
  show ?case
  proof (cases "readBuffer c = []")
    case False
    obtain x p b where pr: "parse (cn_parser c) (readBuffer c) = (x, p, b)" by (metis prod_cases3)
    note here = process_step [OF False pr, of r durs sv]
    show ?thesis
    proof (cases x)
      case Complete
      let ?d = "case durs of [] \<Rightarrow> 0 | d # _ \<Rightarrow> d"
      obtain c2 sv2 where a: "answer_request r ?d (c\<lparr>cn_parser := p, readBuffer := b\<rparr>) sv = (c2, sv2)"
        by fastforce
      have "P sv2" using answer_request_keeps [OF P, of ?d "c\<lparr>cn_parser := p, readBuffer := b\<rparr>"] a "1.prems"(2) by simp
      with eq here Complete a "1.prems"(2) "1.IH" [OF False pr [symmetric] Complete refl a [symmetric]]
      show ?thesis by (auto split: if_splits)
    next
      case Error
      with here eq answer_error_keeps [OF P, of "c\<lparr>cn_parser := p, readBuffer := b\<rparr>"]
      show ?thesis by (auto simp: case_prod_beta Let_def)
    qed (use here eq P in simp)
  qed (use eq P in \<open>simp add: process_empty\<close>)
qed

lemma onReadable_keeps: "onReadable router now rs ss ds c sv = Some (a, c', sv', out) \<Longrightarrow> P sv \<Longrightarrow> P sv'"
  using process_keeps [OF _ refl] by (auto simp: onReadable_def split: option.splits prod.splits drained.splits)

lemma dispatch_keeps:
  "dispatch_event router env ev c sv = Some (a, c', sv', out) \<Longrightarrow> P sv \<Longrightarrow> P sv'"
  using onReadable_keeps by (auto simp: dispatch_event_def split: if_splits)

end

text \<open>An invariant that does not depend on the number of open connections either.\<close>

locale loop_invariant = server_invariant +
  assumes keeps_opened: "P sv \<Longrightarrow> P (gauge_opened sv)"
    and keeps_closed: "P sv \<Longrightarrow> P (gauge_closed sv)"

text \<open>What the loops rely on in a routing table: no handler changes the gauge.\<close>

definition keeps_gauge :: "'a server Router \<Rightarrow> bool" where
  "keeps_gauge router \<longleftrightarrow> (\<forall>rq sv. active_gauge (snd (route router rq sv)) = active_gauge sv)"

lemma gauge_invariant: "keeps_gauge router \<Longrightarrow> server_invariant router (\<lambda>sv. active_gauge sv = g)"
  by unfold_locales
    (simp_all add: keeps_gauge_def active_gauge_def record_response_def recordRequest_def Let_def)

lemma dispatch_gauge:
  assumes "keeps_gauge router" and "dispatch_event router env ev c sv = Some (a, c', sv', out)"
  shows "active_gauge sv' = active_gauge sv"
  using server_invariant.dispatch_keeps [OF gauge_invariant [OF assms(1)] assms(2)] by simp

lemma sample_keeps_gauge: "keeps_gauge sample_router"
  unfolding keeps_gauge_def
  by (auto simp: route_def sample_router_def router_of_simps registered_def active_gauge_def Let_def
      split: option.splits)

subsection \<open>Tables keyed by descriptor\<close>

lemma keys_delete: "fst ` set (AList.delete k ps) = fst ` set ps - {k}"
  using arg_cong [OF delete_keys [of k ps], of set] by auto

lemma map_of_key: "map_of ps k = Some v \<Longrightarrow> k \<in> fst ` set ps"
  by (metis domI dom_map_of_conv_image_fst)

lemma map_of_no_key: "map_of ps k = None \<longleftrightarrow> k \<notin> fst ` set ps"
  by (rule map_of_eq_None_iff)

lemma umap_update: "umap_inv m \<Longrightarrow> umap_inv (AList.update k v m)"
  and umap_delete: "umap_inv m \<Longrightarrow> umap_inv (AList.delete k m)"
  by (simp_all add: hashed.inv_update hashed.inv_erase)

lemma AList_update_new: "k \<notin> fst ` set ps \<Longrightarrow> AList.update k v ps = ps @ [(k, v)]"
  by (induction ps) auto

subsection \<open>The contract of a table of connections\<close>

text \<open>
  A table of open connections and the gauge that reports its size. Entering a new key raises
  the gauge by one and removing a present key lowers it by one; removing an absent one does
  nothing.
\<close>

locale connection_table =
  fixes keys :: "'s \<Rightarrow> 'k set"
    and gauge :: "'s \<Rightarrow> i64"
    and enter :: "'k \<Rightarrow> 's \<Rightarrow> 's"
    and remove :: "'k \<Rightarrow> 's \<Rightarrow> 's"
  assumes keys_enter: "keys (enter k s) = insert k (keys s)"
    and gauge_enter: "gauge (enter k s) = gauge s + 1"
    and keys_remove: "keys (remove k s) = keys s - {k}"
    and gauge_remove: "gauge (remove k s) = (if k \<in> keys s then gauge s - 1 else gauge s)"
begin

lemma enter_balanced:
  "finite (keys s) \<Longrightarrow> gauge s = of_nat (card (keys s)) \<Longrightarrow> k \<notin> keys s \<Longrightarrow>
     finite (keys (enter k s)) \<and> gauge (enter k s) = of_nat (card (keys (enter k s)))"
  by (simp add: keys_enter gauge_enter)

lemma remove_balanced:
  assumes "finite (keys s)" and "gauge s = of_nat (card (keys s))"
  shows "finite (keys (remove k s)) \<and> gauge (remove k s) = of_nat (card (keys (remove k s)))"
proof (cases "k \<in> keys s")
  case True
  with assms have "gauge s = of_nat (Suc (card (keys s - {k})))"
    by (simp only: card_Suc_Diff1)
  then have "gauge s - 1 = of_nat (card (keys s - {k}))" by (simp only: of_nat_Suc add_diff_cancel_left')
  with True assms(1) show ?thesis by (simp only: keys_remove gauge_remove if_True finite_Diff simp_thms)
qed (use assms in \<open>simp add: keys_remove gauge_remove\<close>)

lemma fold_remove_balanced:
  "finite (keys s) \<Longrightarrow> gauge s = of_nat (card (keys s)) \<Longrightarrow>
     finite (keys (fold remove ks s)) \<and> gauge (fold remove ks s) = of_nat (card (keys (fold remove ks s)))"
proof (induction ks arbitrary: s)
  case (Cons k ks)
  from remove_balanced [OF Cons.prems, of k] Cons.IH [of "remove k s"] show ?case by simp
qed simp

lemma fold_remove_keys: "keys (fold remove ks s) = keys s - set ks"
  by (induction ks arbitrary: s) (auto simp: keys_remove)

end

end
