(* ===== verification/Config.thy ===== *)
theory Config
  imports File_System Event_Loop
begin

section \<open>Configuration\<close>

text \<open>
  \<open>src/src/utils.cpp\<close> and the first half of \<open>main\<close> in \<open>src/src/main.cpp\<close>: where the
  project lives, the \<open>.env\<close> file, the process environment, the command line, and the
  \<open>ServerConfig\<close> they give. The target of \<open>/proc/self/exe\<close>, the file system, \<open>getenv\<close> and
  the arguments after the program name are inputs; \<^term>\<open>Inl\<close> is the text of the exception
  that \<open>main\<close> reports as fatal.
\<close>

subsection \<open>utils.cpp\<close>

definition env_line :: "string \<Rightarrow> (string, string) unordered_map \<Rightarrow> (string, string) unordered_map" where
  "env_line line envVariables =
     (let line = (if line \<noteq> [] \<and> last line = CR then butlast line else line)
      in if line = [] \<or> hd line = CHR ''#'' then envVariables
         else case getline (CHR ''='') line of
             None \<Rightarrow> envVariables
           | Some (key, stream) \<Rightarrow>
               (case getline LF stream of
                  None \<Rightarrow> envVariables
                | Some (v, _) \<Rightarrow> AList.update key v envVariables))"

definition parseEnvFile :: "filesystem \<Rightarrow> string \<Rightarrow> (string, string) unordered_map" where
  "parseEnvFile fs filePath =
     (case ifstream_read fs filePath of
        None \<Rightarrow> []
      | Some content \<Rightarrow> fold env_line (getlines LF content) [])"

definition envStrToInt :: "string \<Rightarrow> string + int" where
  "envStrToInt str =
     (case stoi str of
        None \<Rightarrow> Inl (''Cannot convert \"'' @ str @ ''\" to an integer'')
      | Some n \<Rightarrow> Inr n)"

definition PATH_MAX :: nat where "PATH_MAX = 4096"

definition exeDir :: "string option \<Rightarrow> string" where
  "exeDir link =
     (case link of
        None \<Rightarrow> ''.''
      | Some target \<Rightarrow>
          if target = [] then ''.''
          else
            let path = c_str (take (PATH_MAX - 1) target)
            in case find_last_of (CHR ''/'') path of None \<Rightarrow> ''.'' | Some i \<Rightarrow> substr path 0 i)"

definition projectRoot :: "string option \<Rightarrow> string" where
  "projectRoot link =
     (let dir = exeDir link
      in case find_last_of (CHR ''/'') dir of None \<Rightarrow> dir | Some i \<Rightarrow> substr dir 0 i)"

subsection \<open>main.cpp: the configuration\<close>

definition bind_result :: "'e + 'a \<Rightarrow> ('a \<Rightarrow> 'e + 'b) \<Rightarrow> 'e + 'b" where
  "bind_result r f = (case r of Inl e \<Rightarrow> Inl e | Inr x \<Rightarrow> f x)"

definition env_names :: "string list" where
  "env_names = [''SERVER_IP'', ''SERVER_PORT'', ''PORT'', ''MAX_THREADS'', ''CACHE_CAPACITY'',
     ''IDLE_TIMEOUT'', ''LOOP_MODE'']"

definition overlay_env ::
  "(string \<Rightarrow> string option) \<Rightarrow> (string, string) unordered_map \<Rightarrow> (string, string) unordered_map" where
  "overlay_env getenv env =
     fold (\<lambda>name env. case getenv name of
         Some v \<Rightarrow> if v \<noteq> [] then AList.update name v env else env
       | None \<Rightarrow> env) env_names env"

definition text_setting ::
  "(string, string) unordered_map \<Rightarrow> string \<Rightarrow> (string \<Rightarrow> ServerConfig \<Rightarrow> ServerConfig) \<Rightarrow>
     ServerConfig \<Rightarrow> string + ServerConfig" where
  "text_setting env name assign config =
     (case map_of env name of None \<Rightarrow> Inr config | Some v \<Rightarrow> Inr (assign v config))"

definition int_setting ::
  "(string, string) unordered_map \<Rightarrow> string \<Rightarrow> (int \<Rightarrow> ServerConfig \<Rightarrow> ServerConfig) \<Rightarrow>
     ServerConfig \<Rightarrow> string + ServerConfig" where
  "int_setting env name assign config =
     (case map_of env name of
        None \<Rightarrow> Inr config
      | Some v \<Rightarrow> bind_result (envStrToInt v) (\<lambda>n. Inr (assign n config)))"

definition env_config :: "(string, string) unordered_map \<Rightarrow> string + ServerConfig" where
  "env_config env =
     bind_result (text_setting env ''SERVER_IP'' (\<lambda>v c. c\<lparr>cfg_ip := v\<rparr>) ServerConfig_init) (\<lambda>config.
     bind_result (int_setting env ''SERVER_PORT'' (\<lambda>n c. c\<lparr>cfg_port := n\<rparr>) config) (\<lambda>config.
     bind_result (int_setting env ''PORT'' (\<lambda>n c. c\<lparr>cfg_port := n\<rparr>) config) (\<lambda>config.
     bind_result (int_setting env ''MAX_THREADS'' (\<lambda>n c. c\<lparr>cfg_threads := n\<rparr>) config) (\<lambda>config.
     bind_result (int_setting env ''CACHE_CAPACITY'' (\<lambda>n c. c\<lparr>cfg_cacheCapacity := n\<rparr>) config) (\<lambda>config.
     bind_result (int_setting env ''IDLE_TIMEOUT'' (\<lambda>n c. c\<lparr>cfg_idleTimeoutSeconds := n\<rparr>) config) (\<lambda>config.
     text_setting env ''LOOP_MODE'' (\<lambda>v c. c\<lparr>cfg_mode := v\<rparr>) config))))))"

definition cli_flag :: "string \<Rightarrow> string \<Rightarrow> ServerConfig \<Rightarrow> string + ServerConfig" where
  "cli_flag flag v config =
     (if flag = ''--mode'' then Inr (config\<lparr>cfg_mode := v\<rparr>)
      else if flag = ''--threads'' then bind_result (envStrToInt v) (\<lambda>n. Inr (config\<lparr>cfg_threads := n\<rparr>))
      else if flag = ''--port'' then bind_result (envStrToInt v) (\<lambda>n. Inr (config\<lparr>cfg_port := n\<rparr>))
      else if flag = ''--ip'' then Inr (config\<lparr>cfg_ip := v\<rparr>)
      else Inr config)"

fun cli_loop :: "string list \<Rightarrow> ServerConfig \<Rightarrow> string + ServerConfig" where
  "cli_loop (flag # v # args) config = bind_result (cli_flag flag v config) (cli_loop args)"
| "cli_loop [] config = Inr config"
| "cli_loop [flag] config = Inr config"

definition main_config ::
  "filesystem \<Rightarrow> string option \<Rightarrow> (string \<Rightarrow> string option) \<Rightarrow> string list \<Rightarrow> string + ServerConfig" where
  "main_config fs link getenv args =
     (let env = overlay_env getenv (parseEnvFile fs (projectRoot link @ ''/.env''))
      in bind_result (env_config env) (\<lambda>config.
         bind_result (cli_loop args config) (\<lambda>config.
         Inr (if cfg_threads config < 1 then config\<lparr>cfg_threads := 1\<rparr> else config))))"

text \<open>The choice of the loop; any mode but \<open>reactor\<close> is the pool.\<close>

datatype loop_kind = UsePool | UseReactor

definition choose_loop :: "ServerConfig \<Rightarrow> loop_kind \<times> ServerConfig" where
  "choose_loop config =
     (if cfg_mode config = ''reactor'' then (UseReactor, config)
      else (UsePool, config\<lparr>cfg_mode := ''pool''\<rparr>))"

subsection \<open>What a setting is\<close>

text \<open>The effective value of a name, and the last value of a command-line flag.\<close>

definition setting :: "(string \<Rightarrow> string option) \<Rightarrow> (string, string) unordered_map \<Rightarrow> string \<Rightarrow> string option" where
  "setting getenv file name =
     (case getenv name of Some v \<Rightarrow> if v \<noteq> [] then Some v else map_of file name | None \<Rightarrow> map_of file name)"

fun cli_value :: "string list \<Rightarrow> string \<Rightarrow> string option" where
  "cli_value (flag # v # args) name =
     (case cli_value args name of Some w \<Rightarrow> Some w | None \<Rightarrow> if flag = name then Some v else None)"
| "cli_value _ name = None"

fun cli_values :: "string list \<Rightarrow> string \<Rightarrow> string list" where
  "cli_values (flag # v # args) name = (if flag = name then v # cli_values args name else cli_values args name)"
| "cli_values _ name = []"

text \<open>The texts that are converted to integers: those in force and every one on the command line.\<close>

definition numbers_of :: "(string \<Rightarrow> string option) \<Rightarrow> string list" where
  "numbers_of lookup = concat (map (\<lambda>name. case lookup name of None \<Rightarrow> [] | Some v \<Rightarrow> [v])
     [''SERVER_PORT'', ''PORT'', ''MAX_THREADS'', ''CACHE_CAPACITY'', ''IDLE_TIMEOUT''])"

text \<open>The first value present, converted, or the default.\<close>

definition pick :: "string option list \<Rightarrow> string \<Rightarrow> string" where
  "pick os d = (case filter (\<lambda>x. x \<noteq> None) os of Some v # _ \<Rightarrow> v | _ \<Rightarrow> d)"

definition pick_int :: "string option list \<Rightarrow> int \<Rightarrow> int" where
  "pick_int os d = (case filter (\<lambda>x. x \<noteq> None) os of Some v # _ \<Rightarrow> the (stoi v) | _ \<Rightarrow> d)"

lemma pick_simps [simp]:
  "pick [] d = d" "pick (None # os) d = pick os d" "pick (Some v # os) d = v"
  "pick_int [] n = n" "pick_int (None # os) n = pick_int os n" "pick_int (Some v # os) n = the (stoi v)"
  by (simp_all add: pick_def pick_int_def)

lemma overlay_lookup:
  "map_of (overlay_env getenv env) name = (if name \<in> set env_names then setting getenv env name else map_of env name)"
proof -
  have "map_of (fold (\<lambda>name env. case getenv name of
         Some v \<Rightarrow> if v \<noteq> [] then AList.update name v env else env | None \<Rightarrow> env) names env) name =
      (if name \<in> set names then setting getenv env name else map_of env name)" for names
  proof (induction names arbitrary: env)
    case (Cons n names)
    then show ?case by (auto simp: setting_def update_conv' split: option.splits)
  qed simp
  then show ?thesis by (simp add: overlay_env_def)
qed

lemma cli_loop_result:
  "cli_loop args config = Inr c \<Longrightarrow>
     cfg_ip c = pick [cli_value args ''--ip''] (cfg_ip config) \<and>
     cfg_mode c = pick [cli_value args ''--mode''] (cfg_mode config) \<and>
     cfg_port c = pick_int [cli_value args ''--port''] (cfg_port config) \<and>
     cfg_threads c = pick_int [cli_value args ''--threads''] (cfg_threads config) \<and>
     cfg_cacheCapacity c = cfg_cacheCapacity config \<and>
     cfg_idleTimeoutSeconds c = cfg_idleTimeoutSeconds config"
proof (induction args config rule: cli_loop.induct)
  case (1 flag v args config)
  then obtain c1 where f: "cli_flag flag v config = Inr c1" and l: "cli_loop args c1 = Inr c"
    by (auto simp: bind_result_def split: sum.splits)
  from "1.IH" [of c1] l f show ?case
    by (auto simp: cli_flag_def bind_result_def envStrToInt_def split: if_splits option.splits)
qed simp_all

lemma cli_loop_ok:
  "(\<exists>c. cli_loop args config = Inr c) \<longleftrightarrow>
     (\<forall>v \<in> set (cli_values args ''--threads'' @ cli_values args ''--port''). stoi v \<noteq> None)"
proof (induction args config rule: cli_loop.induct)
  case (1 flag v args config)
  then show ?case
    by (auto simp: cli_flag_def bind_result_def envStrToInt_def split: if_splits option.splits sum.splits)
qed simp_all

lemma pick_nested:
  "pick [a] (pick [b] d) = pick [a, b] d"
  "pick_int [a] (pick_int [b] n) = pick_int [a, b] n"
  "pick_int [a] (pick_int [b, c] n) = pick_int [a, b, c] n"
  by (cases a; simp)+

definition numeric :: "string option \<Rightarrow> bool" where
  "numeric t = (case t of None \<Rightarrow> True | Some v \<Rightarrow> stoi v \<noteq> None)"

lemma numbers_numeric:
  "list_all (\<lambda>v. stoi v \<noteq> None) (numbers_of lookup) \<longleftrightarrow>
     numeric (lookup ''SERVER_PORT'') \<and> numeric (lookup ''PORT'') \<and> numeric (lookup ''MAX_THREADS'') \<and>
     numeric (lookup ''CACHE_CAPACITY'') \<and> numeric (lookup ''IDLE_TIMEOUT'')"
proof -
  have "list_all (\<lambda>v. stoi v \<noteq> None) (case t of None \<Rightarrow> [] | Some v \<Rightarrow> [v]) = numeric t" for t
    by (cases t) (simp_all add: numeric_def)
  then show ?thesis by (simp add: numbers_of_def)
qed

text \<open>A setting overwrites the field with the value picked.\<close>

lemma int_setting_result:
  assumes "int_setting env name assign config = Inr c" and "\<And>c. assign (get c) c = c"
  shows "c = assign (pick_int [map_of env name] (get config)) config \<and> numeric (map_of env name)"
  using assms by (cases "map_of env name")
    (auto simp: int_setting_def bind_result_def envStrToInt_def numeric_def split: option.splits)

lemma int_setting_ok: "numeric (map_of env name) \<Longrightarrow> \<exists>c. int_setting env name assign config = Inr c"
  by (cases "map_of env name") (auto simp: int_setting_def bind_result_def envStrToInt_def numeric_def)

lemma text_setting_result:
  assumes "\<And>c. assign (get c) c = c"
  shows "text_setting env name assign config = Inr (assign (pick [map_of env name] (get config)) config)"
  using assms by (cases "map_of env name") (simp_all add: text_setting_def)

lemma bind_result_Inr: "bind_result r f = Inr y \<longleftrightarrow> (\<exists>x. r = Inr x \<and> f x = Inr y)"
  by (cases r) (simp_all add: bind_result_def)

lemma env_config_result:
  assumes "env_config env = Inr c"
  shows "c = \<lparr>cfg_ip = pick [map_of env ''SERVER_IP''] ''127.0.0.1'',
      cfg_port = pick_int [map_of env ''PORT'', map_of env ''SERVER_PORT''] 8080,
      cfg_threads = pick_int [map_of env ''MAX_THREADS''] 4,
      cfg_cacheCapacity = pick_int [map_of env ''CACHE_CAPACITY''] 64,
      cfg_idleTimeoutSeconds = pick_int [map_of env ''IDLE_TIMEOUT''] 15,
      cfg_mode = pick [map_of env ''LOOP_MODE''] ''pool''\<rparr>"
    and "list_all (\<lambda>v. stoi v \<noteq> None) (numbers_of (map_of env))"
proof -
  from assms obtain c1 c2 c3 c4 c5 c6 where
    c1: "text_setting env ''SERVER_IP'' (\<lambda>v c. c\<lparr>cfg_ip := v\<rparr>) ServerConfig_init = Inr c1" and
    c2: "int_setting env ''SERVER_PORT'' (\<lambda>n c. c\<lparr>cfg_port := n\<rparr>) c1 = Inr c2" and
    c3: "int_setting env ''PORT'' (\<lambda>n c. c\<lparr>cfg_port := n\<rparr>) c2 = Inr c3" and
    c4: "int_setting env ''MAX_THREADS'' (\<lambda>n c. c\<lparr>cfg_threads := n\<rparr>) c3 = Inr c4" and
    c5: "int_setting env ''CACHE_CAPACITY'' (\<lambda>n c. c\<lparr>cfg_cacheCapacity := n\<rparr>) c4 = Inr c5" and
    c6: "int_setting env ''IDLE_TIMEOUT'' (\<lambda>n c. c\<lparr>cfg_idleTimeoutSeconds := n\<rparr>) c5 = Inr c6" and
    c7: "text_setting env ''LOOP_MODE'' (\<lambda>v c. c\<lparr>cfg_mode := v\<rparr>) c6 = Inr c"
    unfolding env_config_def bind_result_Inr by blast
  note ints = int_setting_result [OF c2, of cfg_port] int_setting_result [OF c3, of cfg_port]
    int_setting_result [OF c4, of cfg_threads] int_setting_result [OF c5, of cfg_cacheCapacity]
    int_setting_result [OF c6, of cfg_idleTimeoutSeconds]
  have "c1 = ServerConfig_init\<lparr>cfg_ip := pick [map_of env ''SERVER_IP''] ''127.0.0.1''\<rparr>"
    using c1 by (simp add: text_setting_result [of _ cfg_ip] ServerConfig_init_def)
  moreover have "c = c6\<lparr>cfg_mode := pick [map_of env ''LOOP_MODE''] (cfg_mode c6)\<rparr>"
    using c7 by (simp add: text_setting_result [of _ cfg_mode])
  ultimately show "c = \<lparr>cfg_ip = pick [map_of env ''SERVER_IP''] ''127.0.0.1'',
      cfg_port = pick_int [map_of env ''PORT'', map_of env ''SERVER_PORT''] 8080,
      cfg_threads = pick_int [map_of env ''MAX_THREADS''] 4,
      cfg_cacheCapacity = pick_int [map_of env ''CACHE_CAPACITY''] 64,
      cfg_idleTimeoutSeconds = pick_int [map_of env ''IDLE_TIMEOUT''] 15,
      cfg_mode = pick [map_of env ''LOOP_MODE''] ''pool''\<rparr>"
    using ints by (simp add: ServerConfig_init_def pick_nested)
  show "list_all (\<lambda>v. stoi v \<noteq> None) (numbers_of (map_of env))"
    unfolding numbers_numeric using ints by simp
qed

lemma env_config_ok:
  assumes "list_all (\<lambda>v. stoi v \<noteq> None) (numbers_of (map_of env))"
  shows "\<exists>c. env_config env = Inr c"
proof -
  note n = assms [unfolded numbers_numeric]
  have t: "\<exists>c. text_setting env name assign config = Inr c" for name assign config
    by (cases "map_of env name") (simp_all add: text_setting_def)
  from n show ?thesis
    unfolding env_config_def bind_result_Inr by (meson t int_setting_ok)
qed

subsection \<open>Env files as they are written\<close>

datatype env_item = EnvBlank | EnvComment string | EnvSetting string string

fun item_text :: "env_item \<Rightarrow> string" where
  "item_text EnvBlank = []"
| "item_text (EnvComment t) = CHR ''#'' # t"
| "item_text (EnvSetting k v) = k @ CHR ''='' # v"

fun item_ok :: "env_item \<Rightarrow> bool" where
  "item_ok EnvBlank = True"
| "item_ok (EnvComment t) = (LF \<notin> set t)"
| "item_ok (EnvSetting k v) = (LF \<notin> set k \<and> CHR ''='' \<notin> set k \<and> take 1 k \<noteq> ''#'' \<and>
     LF \<notin> set v \<and> v \<noteq> [] \<and> last v \<noteq> CR)"

fun item_settings :: "env_item \<Rightarrow> (string \<times> string) list" where
  "item_settings (EnvSetting k v) = [(k, v)]"
| "item_settings _ = []"

definition render_env :: "bool \<Rightarrow> env_item list \<Rightarrow> string" where
  "render_env dos items = concat (map (\<lambda>i. item_text i @ (if dos then [CR, LF] else [LF])) items)"

lemma getlines_concat:
  "\<forall>l \<in> set ls. LF \<notin> set l \<Longrightarrow> getlines LF (concat (map (\<lambda>l. l @ [LF]) ls)) = ls"
  by (induction ls) (simp_all add: getlines_append)

lemma env_line_item:
  assumes "item_ok i"
  shows "env_line (item_text i @ (if dos then [CR] else [])) m = fold (\<lambda>(k, v). AList.update k v) (item_settings i) m"
proof (cases i)
  case (EnvSetting k v)
  let ?l = "k @ CHR ''='' # v"
  from assms have ok: "CHR ''='' \<notin> set k" "take 1 k \<noteq> ''#''" "LF \<notin> set v" "v \<noteq> []" "last v \<noteq> CR"
    by (simp_all add: EnvSetting)
  then have "hd ?l \<noteq> CHR ''#''" by (cases k) auto
  moreover have "getline (CHR ''='') ?l = Some (k, v)" using ok(1) by (simp add: getline_def until_delim_append)
  moreover have "getline LF v = Some (v, [])" using ok(3,4) by (simp add: getline_def until_delim_all)
  ultimately have "env_line ?l m = AList.update k v m" "env_line (?l @ [CR]) m = AList.update k v m"
    using ok(4,5) by (simp_all add: env_line_def Let_def butlast_append)
  then show ?thesis by (simp add: EnvSetting)
qed (simp_all add: env_line_def Let_def butlast_append)

lemma env_lines_items:
  assumes "list_all item_ok items"
  shows "map_of (fold env_line (map (\<lambda>i. item_text i @ (if dos then [CR] else [])) items) m) =
     map_of m ++ map_of (rev (concat (map item_settings items)))"
  using assms
proof (induction items arbitrary: m)
  case (Cons i items)
  have "map_of (fold (\<lambda>(k, v). AList.update k v) (item_settings i) m) =
      map_of m ++ map_of (rev (item_settings i))"
    by (cases i) (simp_all add: update_conv')
  with Cons show ?case by (simp add: env_line_item)
qed simp

section \<open>Properties of the configuration\<close>

text \<open>
  C28: Where every setting comes from. The configuration is refused exactly when one of the
  texts for a number, in force in the environment or given on the command line, is not an
  integer. Else each setting is the last one on the command line, else the non-empty one of
  the process environment, else the one of the \<open>.env\<close> file, else the default; for the port
  the name \<open>PORT\<close> goes before \<open>SERVER_PORT\<close>, and there is at least one thread.
\<close>

theorem config_precedence:
  "let s = setting getenv (parseEnvFile fs (projectRoot link @ ''/.env''));
       cli = cli_value args;
       ints = list_all (\<lambda>v. stoi v \<noteq> None)
         (numbers_of s @ cli_values args ''--threads'' @ cli_values args ''--port'')
   in case main_config fs link getenv args of
        Inl e \<Rightarrow> \<not> ints
      | Inr c \<Rightarrow> ints \<and>
          cfg_ip c = pick [cli ''--ip'', s ''SERVER_IP''] ''127.0.0.1'' \<and>
          cfg_port c = pick_int [cli ''--port'', s ''PORT'', s ''SERVER_PORT''] 8080 \<and>
          cfg_threads c = max 1 (pick_int [cli ''--threads'', s ''MAX_THREADS''] 4) \<and>
          cfg_cacheCapacity c = pick_int [s ''CACHE_CAPACITY''] 64 \<and>
          cfg_idleTimeoutSeconds c = pick_int [s ''IDLE_TIMEOUT''] 15 \<and>
          cfg_mode c = pick [cli ''--mode'', s ''LOOP_MODE''] ''pool''"
proof -
  let ?file = "parseEnvFile fs (projectRoot link @ ''/.env'')"
  let ?env = "overlay_env getenv ?file" and ?s = "setting getenv ?file"
  have look: "map_of ?env name = ?s name" if "name \<in> set env_names" for name
    using that by (simp add: overlay_lookup)
  then have names: "map_of ?env ''SERVER_IP'' = ?s ''SERVER_IP''" "map_of ?env ''SERVER_PORT'' = ?s ''SERVER_PORT''"
    "map_of ?env ''PORT'' = ?s ''PORT''" "map_of ?env ''MAX_THREADS'' = ?s ''MAX_THREADS''"
    "map_of ?env ''CACHE_CAPACITY'' = ?s ''CACHE_CAPACITY''" "map_of ?env ''IDLE_TIMEOUT'' = ?s ''IDLE_TIMEOUT''"
    "map_of ?env ''LOOP_MODE'' = ?s ''LOOP_MODE''"
    by (simp_all add: env_names_def)
  then have nums: "numbers_of (map_of ?env) = numbers_of ?s" by (simp add: numbers_of_def)
  show ?thesis
  proof (cases "env_config ?env")
    case (Inl e)
    then have "\<not> list_all (\<lambda>v. stoi v \<noteq> None) (numbers_of ?s)" using env_config_ok [of ?env] nums by auto
    with Inl show ?thesis by (simp add: main_config_def bind_result_def)
  next
    case (Inr c0)
    note c0 = env_config_result [OF this, unfolded names nums]
    show ?thesis
    proof (cases "cli_loop args c0")
      case (Inl e)
      then have "\<not> list_all (\<lambda>v. stoi v \<noteq> None) (cli_values args ''--threads'' @ cli_values args ''--port'')"
        using cli_loop_ok [of args c0] by (auto simp: list_all_iff)
      with Inl Inr show ?thesis by (auto simp: main_config_def bind_result_def)
    next
      case cli: (Inr c1)
      then have "list_all (\<lambda>v. stoi v \<noteq> None) (cli_values args ''--threads'' @ cli_values args ''--port'')"
        using cli_loop_ok [of args c0] by (auto simp: list_all_iff)
      with Inr cli c0(2) cli_loop_result [OF cli] show ?thesis
        by (simp add: main_config_def bind_result_def max_def c0(1) pick_nested)
    qed
  qed
qed

text \<open>
  C29: An env file is read back. A file of settings, comments and blank lines, with Unix or
  DOS line ends, gives each name the value of its last setting: everything after the first
  equals sign, further equals signs included.
\<close>

theorem env_file_roundtrip:
  assumes "ifstream_read fs path = Some (render_env dos items)" and "list_all item_ok items"
  shows "map_of (parseEnvFile fs path) = map_of (rev (concat (map item_settings items)))"
proof -
  let ?ls = "map (\<lambda>i. item_text i @ (if dos then [CR] else [])) items"
  have "LF \<notin> set (item_text i)" if "item_ok i" for i using that by (cases i) auto
  with assms(2) have "\<forall>l \<in> set ?ls. LF \<notin> set l" by (auto simp: list_all_iff)
  moreover have "render_env dos items = concat (map (\<lambda>l. l @ [LF]) ?ls)"
    by (simp add: render_env_def comp_def)
  ultimately have "getlines LF (render_env dos items) = ?ls" by (simp only: getlines_concat)
  with env_lines_items [OF assms(2), where m = "[]"] assms(1) show ?thesis by (simp add: parseEnvFile_def)
qed

definition sample_env_items :: "env_item list" where
  "sample_env_items = [EnvComment '' server'', EnvSetting ''PORT'' ''9000'', EnvBlank, EnvSetting ''TOKEN'' ''a=b'']"

definition sample_env_fs :: filesystem where
  "sample_env_fs = \<lparr>fs_nodes = [[''srv''] \<mapsto> Directory, [''srv'', ''.env''] \<mapsto> Regular (render_env True sample_env_items)],
     fs_cwd = []\<rparr>"

lemma sample_env_read: "ifstream_read sample_env_fs ''/srv/.env'' = Some (render_env True sample_env_items)"
  by code_simp

theorem env_file_roundtrip_witness:
  "map_of (parseEnvFile sample_env_fs ''/srv/.env'') = [''PORT'' \<mapsto> ''9000'', ''TOKEN'' \<mapsto> ''a=b'']"
proof -
  have "list_all item_ok sample_env_items" by code_simp
  from env_file_roundtrip [OF sample_env_read this] show ?thesis
    by (auto simp: sample_env_items_def fun_upd_twist)
qed

text \<open>
  The env file can override the process environment. With \<open>PORT\<close> in the file and
  \<open>SERVER_PORT\<close> in the process environment the file's port is bound, although the process
  environment is documented to go before the file.
\<close>

theorem env_file_port_overrides_process:
  "map_sum id cfg_port (main_config sample_env_fs (Some ''/srv/build/multithreaded-server'')
     [''SERVER_PORT'' \<mapsto> ''8081''] []) = Inr 9000"
  by code_simp

end
