(* ===== verification/Kv_Store.thy ===== *)
theory Kv_Store
  imports Http
begin

section \<open>The bounded key/value store\<close>

text \<open>
  \<open>KvStore\<close> of \<open>src/include/api.h\<close> and \<open>src/src/api.cpp\<close>. Each public operation
  takes the store mutex for its whole effect on \<open>entries\<close>, so one call is one atomic state
  change and concurrent clients are a sequence of calls. The operations return the response
  and the new store. The abstract store is a finite map with a capacity; \<open>kv_abs\<close> reads it
  off the entries.
\<close>

subsection \<open>State and operations\<close>

record KvStore =
  kv_entries :: "(string, string) std_map"

definition maxEntries :: nat where "maxEntries = 50"
definition maxKeyLength :: nat where "maxKeyLength = 64"
definition maxValueLength :: nat where "maxValueLength = 256"

definition KvStore_init :: KvStore where
  "KvStore_init = \<lparr>kv_entries = []\<rparr>"

definition kv_pair_json :: "string \<Rightarrow> string \<Rightarrow> string" where
  "kv_pair_json key v =
     ''{\"key\":\"'' @ jsonEscape key @ ''\",\"value\":\"'' @ jsonEscape v @ ''\"}''"

text \<open>The loop over the entries with its \<open>first\<close> flag.\<close>

fun list_loop :: "bool \<Rightarrow> (string, string) std_map \<Rightarrow> string" where
  "list_loop first [] = []"
| "list_loop first (e # es) =
     (if first then [] else '','') @ kv_pair_json (fst e) (snd e) @ list_loop False es"

definition kv_list :: "KvStore \<Rightarrow> HttpResponse" where
  "kv_list store = response_json
     (''{\"count\":'' @ dec_nat (length (kv_entries store)) @ '',\"entries\":['' @
      list_loop True (kv_entries store) @ '']}'') 200"

definition kv_get :: "string \<Rightarrow> KvStore \<Rightarrow> HttpResponse" where
  "kv_get key store =
     (if key = [] then response_json ''{\"error\":\"missing key parameter\"}'' 400
      else case map_of (kv_entries store) key of
          None \<Rightarrow> response_json ''{\"error\":\"not found\"}'' 404
        | Some v \<Rightarrow> response_json (kv_pair_json key v) 200)"

text \<open>The fields of a request body; \<^term>\<open>None\<close> is the malformed JSON body.\<close>

definition put_fields :: "HttpRequest \<Rightarrow> (string, string) std_map option" where
  "put_fields request =
     (if contains_str ''application/json'' (header request ''content-type'') then
        (case parseFlatJson (rq_body request) of (flds, ok) \<Rightarrow> if ok then Some flds else None)
      else Some (parseFormEncoded (rq_body request)))"

definition field_or_empty :: "(string, string) std_map \<Rightarrow> string \<Rightarrow> string" where
  "field_or_empty flds name = (case map_of flds name of None \<Rightarrow> [] | Some v \<Rightarrow> v)"

definition kv_put :: "HttpRequest \<Rightarrow> KvStore \<Rightarrow> HttpResponse \<times> KvStore" where
  "kv_put request store =
     (case put_fields request of
        None \<Rightarrow> (response_json ''{\"error\":\"malformed JSON body\"}'' 400, store)
      | Some flds \<Rightarrow>
          let key = field_or_empty flds ''key'';
              v = field_or_empty flds ''value''
          in if key = [] then (response_json ''{\"error\":\"key is required\"}'' 400, store)
             else if length key > maxKeyLength \<or> length v > maxValueLength
             then (response_json ''{\"error\":\"key or value too long\"}'' 413, store)
             else
               let replacing = (map_of (kv_entries store) key \<noteq> None)
               in if \<not> replacing \<and> length (kv_entries store) \<ge> maxEntries
                  then (response_json ''{\"error\":\"store is full\"}'' 507, store)
                  else (response_json (kv_pair_json key v) (if replacing then 200 else 201),
                        store\<lparr>kv_entries := map_insert key v (kv_entries store)\<rparr>))"

definition kv_remove :: "string \<Rightarrow> KvStore \<Rightarrow> HttpResponse \<times> KvStore" where
  "kv_remove key store =
     (if key = [] then (response_json ''{\"error\":\"missing key parameter\"}'' 400, store)
      else if map_of (kv_entries store) key = None
      then (response_json ''{\"error\":\"not found\"}'' 404, store)
      else (response_json ''{\"deleted\":true}'' 200,
            store\<lparr>kv_entries := map_erase key (kv_entries store)\<rparr>))"

subsection \<open>Invariant\<close>

definition kv_entry_ok :: "string \<times> string \<Rightarrow> bool" where
  "kv_entry_ok e \<longleftrightarrow> fst e \<noteq> [] \<and> length (fst e) \<le> maxKeyLength \<and> length (snd e) \<le> maxValueLength"

definition kv_inv :: "KvStore \<Rightarrow> bool" where
  "kv_inv store \<longleftrightarrow> map_inv (kv_entries store) \<and> length (kv_entries store) \<le> maxEntries \<and>
     list_all kv_entry_ok (kv_entries store)"

lemma kv_inv_init: "kv_inv KvStore_init"
  by (simp add: kv_inv_def KvStore_init_def map_inv_def)

lemma set_map_insert: "set (map_insert k v ps) \<subseteq> insert (k, v) (set ps)"
  by (induction ps) auto

lemma set_map_erase: "set (map_erase k ps) \<subseteq> set ps"
  by (auto simp: map_erase_def)

lemma kv_inv_put [inv_intros]:
  assumes "kv_inv store"
  shows "kv_inv (snd (kv_put request store))"
proof -
  have "kv_inv (store\<lparr>kv_entries := map_insert key v (kv_entries store)\<rparr>)"
    if "key \<noteq> []" "length key \<le> maxKeyLength" "length v \<le> maxValueLength"
      "map_of (kv_entries store) key \<noteq> None \<or> length (kv_entries store) < maxEntries" for key v
  proof -
    note inv = assms [unfolded kv_inv_def]
    have len: "length (map_insert key v (kv_entries store)) \<le> maxEntries"
      using that(4) inv ordered.size_update_old [of "kv_entries store" key]
        ordered.size_update_le [of "kv_entries store" key v] by fastforce
    have "list_all kv_entry_ok (map_insert key v (kv_entries store))"
      using inv that(1-3) set_map_insert [of key v "kv_entries store"]
      by (fastforce simp: list_all_iff kv_entry_ok_def)
    with len inv show ?thesis by (simp add: kv_inv_def map_inv_insert)
  qed
  then show ?thesis
    using assms by (auto simp: kv_put_def Let_def split: option.split)
qed

lemma kv_inv_remove [inv_intros]:
  assumes "kv_inv store"
  shows "kv_inv (snd (kv_remove key store))"
  using assms ordered.size_erase_le [of "kv_entries store" key] set_map_erase [of key "kv_entries store"]
  by (auto simp: kv_remove_def kv_inv_def map_inv_erase list_all_iff)

subsection \<open>The abstract store\<close>

definition kv_abs :: "KvStore \<Rightarrow> (string \<rightharpoonup> string)" where
  "kv_abs store = map_of (kv_entries store)"

text \<open>Storing and deleting on the abstract store: the status and the new map.\<close>

definition spec_put :: "string \<Rightarrow> string \<Rightarrow> (string \<rightharpoonup> string) \<Rightarrow> int \<times> (string \<rightharpoonup> string)" where
  "spec_put k v m =
     (if k = [] then (400, m)
      else if length k > maxKeyLength \<or> length v > maxValueLength then (413, m)
      else if k \<in> dom m then (200, m(k \<mapsto> v))
      else if card (dom m) \<ge> maxEntries then (507, m)
      else (201, m(k \<mapsto> v)))"

definition spec_remove :: "string \<Rightarrow> (string \<rightharpoonup> string) \<Rightarrow> int \<times> (string \<rightharpoonup> string)" where
  "spec_remove k m = (if k = [] then (400, m) else if k \<in> dom m then (200, m(k := None)) else (404, m))"

lemma kv_put_refines:
  assumes "map_inv (kv_entries store)" and "put_fields request = Some flds"
  shows "(rs_status (fst (kv_put request store)), kv_abs (snd (kv_put request store))) =
     spec_put (field_or_empty flds ''key'') (field_or_empty flds ''value'') (kv_abs store)"
  using assms ordered.size_card [OF assms(1)]
  by (auto simp: kv_put_def spec_put_def kv_abs_def Let_def domIff)

lemma kv_remove_refines:
  "(rs_status (fst (kv_remove key store)), kv_abs (snd (kv_remove key store))) =
     spec_remove key (kv_abs store)"
  by (auto simp: kv_remove_def spec_remove_def kv_abs_def)

subsection \<open>Responses read back as JSON\<close>

lemma jsonEscape_names [simp]: "jsonEscape ''key'' = ''key''" "jsonEscape ''value'' = ''value''"
  by (simp_all add: jsonEscape_def jsonEscape_char_def)

lemma kv_pair_json_object: "kv_pair_json k v = renderObject [(''key'', k), (''value'', v)]"
  by (simp add: kv_pair_json_def renderObject_def renderField_def)

lemma json_plain_names: "\<forall>c\<in>set ''key''. json_plain c" "\<forall>c\<in>set ''value''. json_plain c"
  by (simp_all add: json_plain_def)

lemma parse_kv_pair:
  assumes "\<forall>c\<in>set k. json_plain c" and "\<forall>c\<in>set v. json_plain c"
  shows "parseFlatJson (kv_pair_json k v) = ([(''key'', k), (''value'', v)], True)"
  using parseFlatJson_render [of "[(''key'', k), (''value'', v)]" "[]"] assms json_plain_names
  by (simp add: kv_pair_json_object fields_plain_def)

lemma list_loop_join:
  "list_loop True es = join '','' (map (\<lambda>e. kv_pair_json (fst e) (snd e)) es) \<and>
   list_loop False es = concat (map (\<lambda>e. '','' @ kv_pair_json (fst e) (snd e)) es)"
proof (induction es)
  case (Cons e es)
  have "concat (map (\<lambda>e. '','' @ kv_pair_json (fst e) (snd e)) es) =
      (if es = [] then [] else '','' @ join '','' (map (\<lambda>e. kv_pair_json (fst e) (snd e)) es))"
    using Cons.IH by (cases es) auto
  with Cons.IH show ?case by (simp add: join_Cons)
qed simp

section \<open>Properties of the store\<close>

text \<open>A sequence of client calls, in the order in which they take the mutex.\<close>

datatype kv_call = KvList | KvGet string | KvPut HttpRequest | KvRemove string

fun kv_apply :: "kv_call \<Rightarrow> KvStore \<Rightarrow> HttpResponse \<times> KvStore" where
  "kv_apply KvList store = (kv_list store, store)"
| "kv_apply (KvGet key) store = (kv_get key store, store)"
| "kv_apply (KvPut request) store = kv_put request store"
| "kv_apply (KvRemove key) store = kv_remove key store"

definition kv_run :: "kv_call list \<Rightarrow> KvStore \<Rightarrow> KvStore" where
  "kv_run cs = fold (\<lambda>c store. snd (kv_apply c store)) cs"

lemma kv_inv_apply [inv_intros]: "kv_inv store \<Longrightarrow> kv_inv (snd (kv_apply c store))"
  by (cases c) (simp_all add: inv_intros)

lemma kv_inv_run: "kv_inv store \<Longrightarrow> kv_inv (kv_run cs store)"
  by (induction cs arbitrary: store) (simp_all add: kv_run_def kv_inv_apply)

text \<open>
  C6: The store is bounded. After any sequence of calls from the empty store, in whatever
  order concurrent clients' calls take the mutex, it holds at most 50 entries with distinct
  sorted keys, no key is empty or longer than 64 bytes, and no value is longer than 256 bytes.
\<close>

theorem kv_store_bounded:
  "length (kv_entries (kv_run cs KvStore_init)) \<le> 50 \<and>
   map_inv (kv_entries (kv_run cs KvStore_init)) \<and>
   list_all (\<lambda>e. fst e \<noteq> [] \<and> length (fst e) \<le> 64 \<and> length (snd e) \<le> 256)
     (kv_entries (kv_run cs KvStore_init))"
  using kv_inv_run [OF kv_inv_init, of cs]
  by (simp add: kv_inv_def list_all_iff kv_entry_ok_def maxEntries_def maxKeyLength_def
      maxValueLength_def)

text \<open>
  C7: The store implements a finite map with a capacity. A body that decodes to fields is
  stored exactly as the abstract store says (400 without a key, 413 beyond the length limits,
  200 for a replacement also when full, 507 for a new key when full, 201 otherwise), and a
  body that does not decode is answered with 400 and changes nothing.
\<close>

theorem kv_put_refines_map:
  assumes "map_inv (kv_entries store)"
  shows "(rs_status (fst (kv_put request store)), kv_abs (snd (kv_put request store))) =
     (case put_fields request of
        None \<Rightarrow> (400, kv_abs store)
      | Some flds \<Rightarrow>
          spec_put (field_or_empty flds ''key'') (field_or_empty flds ''value'') (kv_abs store))"
proof (cases "put_fields request")
  case None
  then show ?thesis by (simp add: kv_put_def)
next
  case (Some flds)
  with kv_put_refines [OF assms Some] show ?thesis by simp
qed

definition sample_put :: HttpRequest where
  "sample_put = HttpRequest_init\<lparr>rq_method := ''POST'', rq_path := ''/api/kv'',
     rq_body := ''key=a&value=b+c''\<rparr>"

theorem kv_put_refines_map_witness:
  "rs_status (fst (kv_put sample_put KvStore_init)) = 201 \<and>
   kv_abs (snd (kv_put sample_put KvStore_init)) = [''a'' \<mapsto> ''b c'']"
proof -
  have f: "put_fields sample_put = Some [(''key'', ''a''), (''value'', ''b c'')]" by code_simp
  have "map_inv (kv_entries KvStore_init)" by (simp add: KvStore_init_def map_inv_def)
  from kv_put_refines_map [OF this, of sample_put] show ?thesis
    by (simp add: f spec_put_def field_or_empty_def kv_abs_def KvStore_init_def maxEntries_def
        maxKeyLength_def maxValueLength_def)
qed

text \<open>
  C8: What was stored is what is read. When a put answers 200 or 201, a get of its key
  answers 200, and the JSON of the answer decodes to exactly the key and the value that were
  stored, whenever these have no control characters other than tab, line feed and carriage
  return; every other key keeps its value.
\<close>

theorem kv_get_after_put:
  assumes "map_inv (kv_entries store)" and "put_fields request = Some flds"
    and "k = field_or_empty flds ''key''" and "v = field_or_empty flds ''value''"
    and "rs_status (fst (kv_put request store)) \<in> {200, 201}"
    and "list_all json_plain k" and "list_all json_plain v"
  shows "rs_status (kv_get k (snd (kv_put request store))) = 200 \<and>
     parseFlatJson (rs_body (kv_get k (snd (kv_put request store)))) =
       ([(''key'', k), (''value'', v)], True) \<and>
     (\<forall>k'. k' = k \<or> kv_abs (snd (kv_put request store)) k' = kv_abs store k')"
proof -
  let ?s = "snd (kv_put request store)"
  from kv_put_refines [OF assms(1,2)] assms(3-5)
  have ne: "k \<noteq> []" and abs: "kv_abs ?s = (kv_abs store)(k \<mapsto> v)"
    by (auto simp: spec_put_def split: if_splits)
  then have "kv_get k ?s = response_json (kv_pair_json k v) 200"
    by (simp add: kv_get_def kv_abs_def)
  with parse_kv_pair [of k v] assms(6,7) abs show ?thesis
    by (simp add: list_all_iff)
qed

theorem kv_get_after_put_witness:
  "parseFlatJson (rs_body (kv_get ''a'' (snd (kv_put sample_put KvStore_init)))) =
     ([(''key'', ''a''), (''value'', ''b c'')], True)"
proof -
  have f: "put_fields sample_put = Some [(''key'', ''a''), (''value'', ''b c'')]" by code_simp
  have i: "map_inv (kv_entries KvStore_init)" by (simp add: KvStore_init_def map_inv_def)
  have s: "rs_status (fst (kv_put sample_put KvStore_init)) \<in> {200, 201}" by code_simp
  have "list_all json_plain ''a''" "list_all json_plain ''b c''" by code_simp+
  then show ?thesis
    using kv_get_after_put [OF i f, of "''a''" "''b c''"] s by (simp add: field_or_empty_def)
qed

text \<open>
  The listing is the whole store: its count is the number of entries and its array holds
  the JSON object of every entry, in key order, separated by commas.
\<close>

theorem kv_list_complete:
  "rs_status (kv_list store) = 200 \<and>
   rs_body (kv_list store) =
     ''{\"count\":'' @ dec_nat (length (kv_entries store)) @ '',\"entries\":['' @
     join '','' (map (\<lambda>e. renderObject [(''key'', fst e), (''value'', snd e)]) (kv_entries store)) @ '']}''"
  using list_loop_join [of "kv_entries store"] by (simp add: kv_list_def kv_pair_json_object)

end
