(* ===== verification/Lru_Cache.thy ===== *)
theory Lru_Cache
  imports Prelude
begin

section \<open>The LRU cache\<close>

text \<open>
  \<open>LRUCache\<close> of \<open>src/include/lru_cache.h\<close> and \<open>src/src/lru_cache.cpp\<close>. The
  \<open>std::list\<close> is a list of nodes, front first, each with the identity an iterator refers
  to; the index maps a key to such an identity, so the model keeps the aliasing between the
  two structures and the invariant says what it has to be. Every operation holds the cache
  mutex throughout and is one atomic step. The specification is a list of pairs in order of
  last use.
\<close>

subsection \<open>State and operations\<close>

type_synonym iterator = nat

type_synonym lru_node = "iterator \<times> string \<times> string"

record LRUCache =
  lru_capacity :: nat
  lru_entries :: "lru_node list"
  lru_index :: "(string, iterator) unordered_map"
  lru_hitCount :: u64
  lru_missCount :: u64

definition LRUCache_init :: "nat \<Rightarrow> LRUCache" where
  "LRUCache_init capacity = \<lparr>lru_capacity = (if capacity = 0 then 1 else capacity),
     lru_entries = [], lru_index = [], lru_hitCount = 0, lru_missCount = 0\<rparr>"

text \<open>
  \<open>entries.splice(entries.begin(), entries, it)\<close>; an assignment through an iterator;
  the value it refers to; and a node identity not in use, for \<open>emplace_front\<close>.
\<close>

definition splice_front :: "iterator \<Rightarrow> lru_node list \<Rightarrow> lru_node list" where
  "splice_front it es = filter (\<lambda>n. fst n = it) es @ filter (\<lambda>n. fst n \<noteq> it) es"

definition assign_value :: "iterator \<Rightarrow> string \<Rightarrow> lru_node list \<Rightarrow> lru_node list" where
  "assign_value it v es = map (\<lambda>n. if fst n = it then (it, fst (snd n), v) else n) es"

definition value_at :: "iterator \<Rightarrow> lru_node list \<Rightarrow> string" where
  "value_at it es = (case map_of es it of None \<Rightarrow> [] | Some kv \<Rightarrow> snd kv)"

definition fresh_node :: "lru_node list \<Rightarrow> iterator" where
  "fresh_node es = Suc (fold (\<lambda>n m. max (fst n) m) es 0)"

definition lru_get :: "string \<Rightarrow> LRUCache \<Rightarrow> string option \<times> LRUCache" where
  "lru_get key c =
     (case map_of (lru_index c) key of
        None \<Rightarrow> (None, c\<lparr>lru_missCount := lru_missCount c + 1\<rparr>)
      | Some it \<Rightarrow>
          let es = splice_front it (lru_entries c)
          in (Some (value_at it es), c\<lparr>lru_entries := es, lru_hitCount := lru_hitCount c + 1\<rparr>))"

definition lru_put :: "string \<Rightarrow> string \<Rightarrow> LRUCache \<Rightarrow> LRUCache" where
  "lru_put key v c =
     (case map_of (lru_index c) key of
        Some it \<Rightarrow> c\<lparr>lru_entries := splice_front it (assign_value it v (lru_entries c))\<rparr>
      | None \<Rightarrow>
          let it = fresh_node (lru_entries c);
              es = (it, key, v) # lru_entries c;
              ix = AList.update key it (lru_index c)
          in if length ix > lru_capacity c
             then c\<lparr>lru_index := AList.delete (fst (snd (last es))) ix, lru_entries := butlast es\<rparr>
             else c\<lparr>lru_index := ix, lru_entries := es\<rparr>)"

definition lru_hits :: "LRUCache \<Rightarrow> u64" where "lru_hits c = lru_hitCount c"
definition lru_misses :: "LRUCache \<Rightarrow> u64" where "lru_misses c = lru_missCount c"

subsection \<open>Specification: pairs in order of last use\<close>

definition spec_touch :: "string \<Rightarrow> (string \<times> string) list \<Rightarrow> (string \<times> string) list" where
  "spec_touch key l =
     (case map_of l key of None \<Rightarrow> l | Some v \<Rightarrow> (key, v) # filter (\<lambda>p. fst p \<noteq> key) l)"

definition spec_store ::
  "nat \<Rightarrow> string \<Rightarrow> string \<Rightarrow> (string \<times> string) list \<Rightarrow> (string \<times> string) list" where
  "spec_store cap key v l = take cap ((key, v) # filter (\<lambda>p. fst p \<noteq> key) l)"

definition lru_abs :: "LRUCache \<Rightarrow> (string \<times> string) list" where
  "lru_abs c = map snd (lru_entries c)"

subsection \<open>Invariant\<close>

text \<open>The index refers to exactly the nodes of the list, each under its own key.\<close>

definition lru_inv :: "LRUCache \<Rightarrow> bool" where
  "lru_inv c \<longleftrightarrow>
     0 < lru_capacity c \<and> length (lru_entries c) \<le> lru_capacity c \<and>
     distinct (map fst (lru_entries c)) \<and> distinct (map fst (lru_abs c)) \<and>
     umap_inv (lru_index c) \<and>
     map_of (lru_index c) = map_of (map (\<lambda>n. (fst (snd n), fst n)) (lru_entries c))"

lemma lru_inv_init: "lru_inv (LRUCache_init capacity)"
  by (simp add: lru_inv_def LRUCache_init_def lru_abs_def umap_inv_def)

lemma fold_max_ge: "n \<in> set es \<Longrightarrow> fst n \<le> fold (\<lambda>n m. max (fst n) m) es (a::nat)"
proof (induction es arbitrary: a)
  case (Cons e es)
  have mono: "x \<le> y \<Longrightarrow> x \<le> fold (\<lambda>n m. max (fst n) m) es y" for x y :: nat
    by (induction es arbitrary: y) auto
  from Cons show ?case by (auto intro: mono)
qed simp

lemma fresh_node_fresh: "fresh_node es \<notin> fst ` set es"
  using fold_max_ge [of _ es 0] by (fastforce simp: fresh_node_def)

text \<open>A key in the index has one node, and the list splits around it.\<close>

lemma index_node:
  assumes "lru_inv c" and "map_of (lru_index c) key = Some it"
  obtains v pre post where "lru_entries c = pre @ (it, key, v) # post"
    and "it \<notin> fst ` set (pre @ post)" and "key \<notin> (fst \<circ> snd) ` set (pre @ post)"
proof -
  have "(key, it) \<in> set (map (\<lambda>n. (fst (snd n), fst n)) (lru_entries c))"
    using assms by (metis lru_inv_def map_of_SomeD)
  then obtain v where "(it, key, v) \<in> set (lru_entries c)" by force
  then obtain pre post where s: "lru_entries c = pre @ (it, key, v) # post"
    by (meson split_list)
  moreover have "it \<notin> fst ` set (pre @ post)" "key \<notin> (fst \<circ> snd) ` set (pre @ post)"
    using assms(1) s by (auto simp: lru_inv_def lru_abs_def image_iff)
  ultimately show ?thesis by (rule that)
qed

lemma index_absent:
  assumes "lru_inv c" and "map_of (lru_index c) key = None"
  shows "key \<notin> fst ` set (lru_abs c)"
  using assms by (force simp: lru_inv_def lru_abs_def map_of_eq_None_iff)

lemma index_length: "lru_inv c \<Longrightarrow> length (lru_index c) = length (lru_entries c)"
proof -
  assume inv: "lru_inv c"
  let ?m = "map (\<lambda>n. (fst (snd n), fst n)) (lru_entries c)"
  have "map fst ?m = map fst (lru_abs c)" by (simp add: lru_abs_def)
  with inv have "card (dom (map_of ?m)) = length ?m"
    by (intro card_dom_map_of) (simp add: lru_inv_def)
  with inv hashed.size_card [of "lru_index c"] show ?thesis by (simp add: lru_inv_def)
qed

subsection \<open>The operations refine the specification\<close>

lemma filter_all_ne: "k \<notin> f ` set xs \<Longrightarrow> filter (\<lambda>x. f x \<noteq> k) xs = xs"
  by (induction xs) auto

lemma filter_none_eq: "k \<notin> f ` set xs \<Longrightarrow> filter (\<lambda>x. f x = k) xs = []"
  by (induction xs) auto

lemma map_add_absent_key: "k \<notin> fst ` set xs \<Longrightarrow> (m ++ map_of xs) k = m k"
  by (simp add: map_add_dom_app_simps(3) dom_map_of_conv_image_fst)

lemma splice_front_split:
  "it \<notin> fst ` set (pre @ post) \<Longrightarrow>
     splice_front it (pre @ (it, kv) # post) = (it, kv) # pre @ post"
  by (auto simp: splice_front_def filter_all_ne filter_none_eq image_Un)

lemma assign_value_split:
  "it \<notin> fst ` set (pre @ post) \<Longrightarrow>
     assign_value it v (pre @ (it, key, w) # post) = pre @ (it, key, v) # post"
  by (force simp: assign_value_def intro!: map_idI)

text \<open>The list after a hit or an overwrite, with the index unchanged.\<close>

lemma lru_inv_moved:
  assumes "lru_inv c" and "lru_entries c = pre @ (it, key, w) # post"
    and "lru_entries c' = (it, key, v) # pre @ post"
    and "lru_index c' = lru_index c" and "lru_capacity c' = lru_capacity c"
  shows "lru_inv c'"
proof -
  let ?ix = "\<lambda>es. map (\<lambda>n. (fst (snd n), fst n)) (es :: lru_node list)"
  have "distinct (map fst (?ix (lru_entries c)))"
    using assms(1) by (simp add: lru_inv_def lru_abs_def comp_def)
  then have "map_of (?ix (lru_entries c')) = map_of (?ix (lru_entries c))"
    unfolding assms(2,3) by (subst map_of_inject_set) (auto simp: comp_def)
  with assms show ?thesis by (auto simp: lru_inv_def lru_abs_def)
qed

lemma spec_touch_split:
  "key \<notin> fst ` set (pre @ post) \<Longrightarrow> spec_touch key (pre @ (key, v) # post) = (key, v) # pre @ post"
  by (auto simp: spec_touch_def filter_all_ne image_Un map_add_absent_key)

lemma lru_get_ok:
  assumes "lru_inv c"
  shows "fst (lru_get key c) = map_of (lru_abs c) key" (is ?res)
    and "lru_abs (snd (lru_get key c)) = spec_touch key (lru_abs c)" (is ?abs)
    and "lru_inv (snd (lru_get key c))" (is ?inv)
proof -
  have "?res \<and> ?abs \<and> ?inv"
  proof (cases "map_of (lru_index c) key")
    case None
    with index_absent [OF assms] have "map_of (lru_abs c) key = None"
      by (simp add: map_of_eq_None_iff)
    with None assms show ?thesis
      by (simp add: lru_get_def spec_touch_def lru_abs_def lru_inv_def)
  next
    case (Some it)
    from index_node [OF assms Some] obtain v pre post
      where s: "lru_entries c = pre @ (it, key, v) # post" and it: "it \<notin> fst ` set (pre @ post)"
        and key: "key \<notin> (fst \<circ> snd) ` set (pre @ post)" .
    let ?c = "c\<lparr>lru_entries := (it, key, v) # pre @ post, lru_hitCount := lru_hitCount c + 1\<rparr>"
    have g: "lru_get key c = (Some v, ?c)"
      by (simp add: lru_get_def Some s splice_front_split [OF it] Let_def value_at_def)
    have k: "key \<notin> fst ` set (map snd pre @ map snd post)" using key by force
    have "lru_inv ?c" by (rule lru_inv_moved [OF assms s]) simp_all
    moreover have "map_of (lru_abs c) key = Some v"
      using k by (simp add: lru_abs_def s map_add_absent_key image_Un)
    ultimately show ?thesis
      by (simp add: g lru_abs_def s spec_touch_split [OF k])
  qed
  then show ?res ?abs ?inv by simp_all
qed

text \<open>A new key: the node goes to the front, and the last node leaves a full cache.\<close>

lemma lru_put_new:
  assumes "lru_inv c" and "map_of (lru_index c) key = None"
  shows "lru_abs (lru_put key v c) = spec_store (lru_capacity c) key v (lru_abs c) \<and>
    lru_inv (lru_put key v c)"
proof -
  note inv = assms(1) [unfolded lru_inv_def]
  let ?es = "lru_entries c" and ?it = "fresh_node (lru_entries c)"
  let ?ix = "AList.update key ?it (lru_index c)"
  let ?c = "c\<lparr>lru_index := ?ix, lru_entries := (?it, key, v) # ?es\<rparr>"
  have key: "key \<notin> fst ` set (lru_abs c)" by (rule index_absent [OF assms])
  have len: "length ?ix = Suc (length ?es)"
    using hashed.size_update_new [of "lru_index c" key ?it] inv assms(2)
      index_length [OF assms(1)] by simp
  have fits: "lru_inv ?c" if "length ?es < lru_capacity c"
    using that inv key fresh_node_fresh [of ?es] hashed.inv_update [of "lru_index c"]
    by (simp add: lru_inv_def lru_abs_def update_conv' image_image)
  show ?thesis
  proof (cases "length ?es < lru_capacity c")
    case True
    with key fits show ?thesis
      by (simp add: lru_put_def assms(2) Let_def len lru_abs_def spec_store_def filter_all_ne take_Cons')
  next
    case False
    then have full: "length ?es = lru_capacity c" and ne: "?es \<noteq> []" using inv by auto
    obtain es j k w where es: "?es = es @ [(j, k, w)]"
      using ne by (metis rev_exhaust surj_pair)
    let ?d = "c\<lparr>lru_index := AList.delete k ?ix, lru_entries := (?it, key, v) # es\<rparr>"
    have p: "lru_put key v c = ?d"
      using full by (simp add: lru_put_def assms(2) Let_def len) (simp add: es)
    have ks: "key \<noteq> k" "key \<notin> fst ` set (map snd es)" "k \<notin> fst ` snd ` set es"
      using key inv by (auto simp: lru_abs_def es image_image)
    have gone: "map_of (map (\<lambda>n. (fst (snd n), fst n)) es) k = None"
      using ks(3) by (simp add: map_of_eq_None_iff image_image)
    have "map_of (AList.delete k ?ix) = (map_of (lru_index c))(key \<mapsto> ?it, k := None)"
      by (simp add: delete_conv' update_conv')
    also have "\<dots> = map_of (map (\<lambda>n. (fst (snd n), fst n)) ((?it, key, v) # es))"
      using inv ks(1) gone by (auto simp: es fun_eq_iff map_add_def split: option.split)
    finally have ix: "map_of (AList.delete k ?ix) = \<dots>" .
    have "umap_inv (AList.delete k ?ix)"
      using inv by (simp add: hashed.inv_erase hashed.inv_update)
    then have "lru_inv ?d"
      using inv ks full ix fresh_node_fresh [of ?es]
      by (simp add: lru_inv_def lru_abs_def es image_image)
    moreover have "lru_abs ?d = spec_store (lru_capacity c) key v (lru_abs c)"
      using ks by (simp add: lru_abs_def spec_store_def es full [symmetric] filter_all_ne)
    ultimately show ?thesis by (simp add: p)
  qed
qed

lemma lru_put_ok:
  assumes "lru_inv c"
  shows "lru_abs (lru_put key v c) = spec_store (lru_capacity c) key v (lru_abs c)" (is ?abs)
    and "lru_inv (lru_put key v c)" (is ?inv)
    and "lru_capacity (lru_put key v c) = lru_capacity c" (is ?cap)
proof -
  note inv = assms [unfolded lru_inv_def]
  have "?abs \<and> ?inv"
  proof (cases "map_of (lru_index c) key")
    case (Some it)
    from index_node [OF assms Some] obtain w pre post
      where s: "lru_entries c = pre @ (it, key, w) # post" and it: "it \<notin> fst ` set (pre @ post)"
        and key: "key \<notin> (fst \<circ> snd) ` set (pre @ post)" .
    let ?c = "c\<lparr>lru_entries := (it, key, v) # pre @ post\<rparr>"
    have p: "lru_put key v c = ?c"
      by (simp add: lru_put_def Some s assign_value_split [OF it] splice_front_split [OF it])
    have "lru_inv ?c" by (rule lru_inv_moved [OF assms s]) simp_all
    moreover have "length (pre @ post) < lru_capacity c" using inv s by simp
    moreover have "key \<notin> fst ` set (map snd pre)" "key \<notin> fst ` set (map snd post)"
      using key by force+
    ultimately show ?thesis
      by (auto simp: p lru_abs_def s spec_store_def filter_all_ne min_def take_Cons')
  next
    case None
    show ?thesis by (rule lru_put_new [OF assms None])
  qed
  then show ?abs ?inv by simp_all
  show ?cap by (simp add: lru_put_def Let_def split: option.split)
qed

lemma lru_get_capacity: "lru_capacity (snd (lru_get key c)) = lru_capacity c"
  by (simp add: lru_get_def Let_def split: option.split)

lemmas lru_correct = lru_get_ok lru_put_ok lru_get_capacity

subsection \<open>The contract of a cache, for its clients\<close>

text \<open>
  What a client may rely on: a lookup answers from the contents and does not change them, a
  store makes its pair available, and nothing appears that was not stored; entries may be
  dropped. The read-through pattern is proved correct once for every such cache: it answers
  as the backing store does and keeps the contents a part of it.
\<close>

locale cache =
  fixes get :: "'k \<Rightarrow> 'c \<Rightarrow> 'v option \<times> 'c"
    and put :: "'k \<Rightarrow> 'v \<Rightarrow> 'c \<Rightarrow> 'c"
    and contents :: "'c \<Rightarrow> 'k \<Rightarrow> 'v option"
    and inv :: "'c \<Rightarrow> bool"
  assumes get_result: "inv c \<Longrightarrow> fst (get k c) = contents c k"
    and get_contents: "inv c \<Longrightarrow> contents (snd (get k c)) = contents c"
    and inv_get: "inv c \<Longrightarrow> inv (snd (get k c))"
    and put_contents: "inv c \<Longrightarrow> contents (put k v c) \<subseteq>\<^sub>m (contents c)(k \<mapsto> v)"
    and put_stored: "inv c \<Longrightarrow> contents (put k v c) k = Some v"
    and inv_put: "inv c \<Longrightarrow> inv (put k v c)"
begin

lemma put_within:
  assumes "inv c" and "contents c \<subseteq>\<^sub>m store" and "store k = Some v"
  shows "contents (put k v c) \<subseteq>\<^sub>m store"
proof -
  have "(contents c)(k \<mapsto> v) \<subseteq>\<^sub>m store(k \<mapsto> v)" using assms(2) by (rule map_le_upd)
  also have "store(k \<mapsto> v) = store" using assms(3) by (simp add: fun_upd_idem)
  finally show ?thesis using put_contents [OF assms(1)] map_le_trans by blast
qed

lemma get_within: "inv c \<Longrightarrow> contents c \<subseteq>\<^sub>m store \<Longrightarrow> contents (snd (get k c)) \<subseteq>\<^sub>m store"
  by (simp add: get_contents)

lemma hit_from_store:
  "inv c \<Longrightarrow> contents c \<subseteq>\<^sub>m store \<Longrightarrow> fst (get k c) = Some v \<Longrightarrow> store k = Some v"
  by (metis get_result domI map_le_def)

lemma get_after_put: "inv c \<Longrightarrow> fst (get k (put k v c)) = Some v"
  by (simp add: get_result put_stored inv_put)

end

lemma map_of_filter_key: "map_of (filter (\<lambda>p. fst p \<noteq> key) l) = (map_of l)(key := None)"
  by (induction l) auto

lemma map_of_spec_touch: "map_of (spec_touch key l) = map_of l"
  by (auto simp: spec_touch_def map_of_filter_key fun_upd_idem split: option.split)

lemma map_of_take_le: "map_of (take n l) \<subseteq>\<^sub>m map_of l"
proof -
  have "map_of l = map_of (drop n l) ++ map_of (take n l)"
    by (metis append_take_drop_id map_of_append)
  then show ?thesis by simp
qed

lemma spec_store_contents: "map_of (spec_store cap key v l) \<subseteq>\<^sub>m (map_of l)(key \<mapsto> v)"
  using map_of_take_le [of cap "(key, v) # filter (\<lambda>p. fst p \<noteq> key) l"]
  by (simp add: spec_store_def map_of_filter_key)

lemma spec_store_stored: "0 < cap \<Longrightarrow> map_of (spec_store cap key v l) key = Some v"
  by (simp add: spec_store_def take_Cons')

interpretation lru: cache lru_get lru_put "\<lambda>c. map_of (lru_abs c)" lru_inv
proof unfold_locales
  fix c :: LRUCache and k v
  assume inv: "lru_inv c"
  then have "0 < lru_capacity c" by (simp add: lru_inv_def)
  with inv show "map_of (lru_abs (lru_put k v c)) k = Some v"
    by (simp add: lru_put_ok spec_store_stored)
qed (simp_all add: lru_get_ok lru_put_ok map_of_spec_touch spec_store_contents)

subsection \<open>Sequences of calls\<close>

datatype lru_call = LruGet string | LruPut string string

fun lru_apply :: "lru_call \<Rightarrow> LRUCache \<Rightarrow> string option \<times> LRUCache" where
  "lru_apply (LruGet key) c = lru_get key c"
| "lru_apply (LruPut key v) c = (None, lru_put key v c)"

fun spec_apply ::
  "nat \<Rightarrow> lru_call \<Rightarrow> (string \<times> string) list \<Rightarrow> string option \<times> (string \<times> string) list" where
  "spec_apply cap (LruGet key) l = (map_of l key, spec_touch key l)"
| "spec_apply cap (LruPut key v) l = (None, spec_store cap key v l)"

definition call_key :: "lru_call \<Rightarrow> string" where
  "call_key c = (case c of LruGet k \<Rightarrow> k | LruPut k v \<Rightarrow> k)"

definition is_get :: "lru_call \<Rightarrow> bool" where
  "is_get c = (case c of LruGet k \<Rightarrow> True | LruPut k v \<Rightarrow> False)"

lemma lru_apply_refines:
  assumes "lru_inv c"
  shows "fst (lru_apply a c) = fst (spec_apply (lru_capacity c) a (lru_abs c))"
    and "lru_abs (snd (lru_apply a c)) = snd (spec_apply (lru_capacity c) a (lru_abs c))"
    and "lru_inv (snd (lru_apply a c))"
    and "lru_capacity (snd (lru_apply a c)) = lru_capacity c"
  using assms by (cases a; simp add: lru_correct)+

lemma lru_run_refines:
  assumes "lru_inv c"
  shows "fst (calls_run lru_apply cs c) = fst (calls_run (spec_apply (lru_capacity c)) cs (lru_abs c)) \<and>
     lru_abs (snd (calls_run lru_apply cs c)) =
       snd (calls_run (spec_apply (lru_capacity c)) cs (lru_abs c)) \<and>
     lru_inv (snd (calls_run lru_apply cs c)) \<and>
     lru_capacity (snd (calls_run lru_apply cs c)) = lru_capacity c"
  using assms
proof (induction cs arbitrary: c)
  case (Cons a cs)
  with Cons.IH [OF lru_apply_refines(3) [OF Cons.prems, of a]] lru_apply_refines [OF Cons.prems, of a]
  show ?case by (simp add: case_prod_beta)
qed simp

text \<open>The entry of a key stays within the keys used since: the LRU order.\<close>

definition held_before :: "string set \<Rightarrow> string \<Rightarrow> string \<Rightarrow> (string \<times> string) list \<Rightarrow> bool" where
  "held_before used k v l \<longleftrightarrow>
     distinct (map fst l) \<and> (\<exists>l1 l2. l = l1 @ (k, v) # l2 \<and> fst ` set l1 \<subseteq> used - {k})"

lemma held_beforeI:
  "l = l1 @ (k, v) # l2 \<Longrightarrow> fst ` set l1 \<subseteq> used - {k} \<Longrightarrow> distinct (map fst l) \<Longrightarrow>
     held_before used k v l"
  by (auto simp: held_before_def)

lemma held_before_lookup: "held_before used k v l \<Longrightarrow> map_of l k = Some v"
  by (auto simp: held_before_def map_add_absent_key)

lemma held_before_front:
  assumes "held_before used k v l" and "k' \<noteq> k"
  shows "held_before (insert k' used) k v ((k', w) # filter (\<lambda>p. fst p \<noteq> k') l)"
proof -
  obtain l1 l2 where l: "l = l1 @ (k, v) # l2" and u: "fst ` set l1 \<subseteq> used - {k}"
    using assms(1) by (auto simp: held_before_def)
  show ?thesis
  proof (rule held_beforeI)
    show "(k', w) # filter (\<lambda>p. fst p \<noteq> k') l =
        ((k', w) # filter (\<lambda>p. fst p \<noteq> k') l1) @ (k, v) # filter (\<lambda>p. fst p \<noteq> k') l2"
      using l assms(2) by simp
    show "fst ` set ((k', w) # filter (\<lambda>p. fst p \<noteq> k') l1) \<subseteq> insert k' used - {k}"
      using u assms(2) by auto
    show "distinct (map fst ((k', w) # filter (\<lambda>p. fst p \<noteq> k') l))"
      using assms(1) by (auto simp: held_before_def distinct_map_filter)
  qed
qed

lemma held_before_take:
  assumes "held_before used k v l" and "finite used" and "card (used - {k}) < cap"
  shows "held_before used k v (take cap l)"
proof -
  obtain l1 l2 where l: "l = l1 @ (k, v) # l2" and u: "fst ` set l1 \<subseteq> used - {k}"
    and d: "distinct (map fst l)"
    using assms(1) by (auto simp: held_before_def)
  have "length l1 = card (fst ` set l1)"
    using d l by (metis distinct_append distinct_card length_map list.set_map map_append)
  also have "\<dots> \<le> card (used - {k})" using u assms(2) by (simp add: card_mono)
  finally have "take cap l = l1 @ (k, v) # take (cap - length l1 - 1) l2"
    using assms(3) by (simp add: l take_Cons')
  with u d show ?thesis
    unfolding held_before_def by (metis distinct_take take_map)
qed

lemma held_before_touch_self:
  assumes "held_before used k v l"
  shows "held_before used' k v (spec_touch k l)"
proof -
  have "spec_touch k l = [] @ (k, v) # filter (\<lambda>p. fst p \<noteq> k) l"
    by (simp add: spec_touch_def held_before_lookup [OF assms])
  moreover have "distinct (map fst (filter (\<lambda>p. fst p \<noteq> k) l))"
    using assms by (simp add: held_before_def distinct_map_filter)
  ultimately show ?thesis by (intro held_beforeI) auto
qed

lemma held_before_mono: "held_before used k v l \<Longrightarrow> used \<subseteq> used' \<Longrightarrow> held_before used' k v l"
  by (fastforce simp: held_before_def)

lemma held_before_apply:
  assumes "held_before used k v l" and "a \<notin> range (LruPut k)"
    and "finite used" and "card (insert (call_key a) used - {k}) < cap"
  shows "held_before (insert (call_key a) used) k v (snd (spec_apply cap a l))"
proof (cases a)
  case (LruGet k')
  then show ?thesis
    using assms(1) held_before_touch_self [OF assms(1)] held_before_front [OF assms(1), of k']
      held_before_mono [OF assms(1) subset_insertI, of k']
    by (cases "k' = k") (auto simp: call_key_def spec_touch_def split: option.split)
next
  case (LruPut k' w)
  with assms have "held_before (insert k' used) k v ((k', w) # filter (\<lambda>p. fst p \<noteq> k') l)"
    by (intro held_before_front) auto
  from held_before_take [OF this, of cap] assms(3,4) LruPut show ?thesis
    by (simp add: call_key_def spec_store_def)
qed

lemma held_before_run:
  assumes "held_before used k v l" and "\<forall>a\<in>set cs. a \<notin> range (LruPut k)"
    and "finite used" and "card ((call_key ` set cs \<union> used) - {k}) < cap"
  shows "held_before (call_key ` set cs \<union> used) k v (snd (calls_run (spec_apply cap) cs l))"
  using assms
proof (induction cs arbitrary: used l)
  case (Cons a cs)
  let ?used = "insert (call_key a) used"
  have "card (?used - {k}) \<le> card ((call_key ` set (a # cs) \<union> used) - {k})"
    using Cons.prems(3) by (intro card_mono) auto
  with Cons.prems have "held_before ?used k v (snd (spec_apply cap a l))"
    by (intro held_before_apply) auto
  from Cons.IH [OF this] Cons.prems show ?case by (simp add: case_prod_beta)
qed simp

section \<open>Properties of the cache\<close>

text \<open>
  C9: The linked list with its index of iterators behaves as a list of pairs in order of last
  use: for every sequence of \<open>get\<close> and \<open>put\<close> calls on a fresh cache the answers are those
  of the specification, the contents are those of the specification, the index refers to
  exactly the nodes of the list, and at most \<open>capacity\<close> entries (one, if 0 was asked for)
  are kept.
\<close>

theorem lru_cache_refines_spec:
  "fst (calls_run lru_apply cs (LRUCache_init n)) = fst (calls_run (spec_apply (max 1 n)) cs []) \<and>
   lru_abs (snd (calls_run lru_apply cs (LRUCache_init n))) =
     snd (calls_run (spec_apply (max 1 n)) cs []) \<and>
   lru_inv (snd (calls_run lru_apply cs (LRUCache_init n))) \<and>
   length (lru_index (snd (calls_run lru_apply cs (LRUCache_init n)))) \<le> max 1 n"
proof -
  have i: "lru_capacity (LRUCache_init n) = max 1 n" "lru_abs (LRUCache_init n) = []"
    by (simp_all add: LRUCache_init_def lru_abs_def max_def)
  note r = lru_run_refines [OF lru_inv_init, of cs n, unfolded i]
  with index_length [of "snd (calls_run lru_apply cs (LRUCache_init n))"] show ?thesis
    by (auto simp: lru_inv_def)
qed

text \<open>
  C10: Eviction is least recently used. A pair that was stored is still answered after any
  further calls that do not overwrite it, as long as these calls name fewer than
  \<open>capacity\<close> other keys.
\<close>

theorem lru_keeps_recent:
  assumes "lru_inv c" and "\<forall>a\<in>set cs. a \<notin> range (LruPut k)"
    and "card (call_key ` set cs - {k}) < lru_capacity c"
  shows "fst (lru_get k (snd (calls_run lru_apply cs (lru_put k v c)))) = Some v"
proof -
  let ?l = "lru_abs (lru_put k v c)"
  note put = lru_put_ok [OF assms(1), of k v]
  have "distinct (map fst ?l)" using put(2) by (simp add: lru_inv_def)
  moreover have "?l = [] @ (k, v) # take (lru_capacity c - 1) (filter (\<lambda>p. fst p \<noteq> k) (lru_abs c))"
    using assms(3) by (simp add: put(1) spec_store_def take_Cons')
  ultimately have "held_before {} k v ?l" by (intro held_beforeI) auto
  from held_before_run [OF this assms(2)] assms(3)
  have "held_before (call_key ` set cs) k v (snd (calls_run (spec_apply (lru_capacity c)) cs ?l))"
    by simp
  with lru_run_refines [OF put(2), of cs] show ?thesis
    by (simp add: put(3) lru_get_ok held_before_lookup)
qed

theorem lru_keeps_recent_witness:
  "fst (lru_get ''a'' (snd (calls_run lru_apply [LruPut ''b'' ''2'', LruGet ''b'', LruGet ''a'',
     LruPut ''b'' ''3''] (lru_put ''a'' ''1'' (LRUCache_init 2))))) = Some ''1''"
  by (rule lru_keeps_recent [OF lru_inv_init])
    (auto simp: call_key_def LRUCache_init_def card_insert_if)

text \<open>
  Every lookup is counted once: after a sequence of calls the hit and miss counters have
  grown by the numbers of lookups that were answered and not answered, modulo \<open>2 ^ 64\<close>.
\<close>

theorem lru_counters_exact:
  "lru_hits (snd (calls_run lru_apply cs c)) =
     lru_hits c + of_nat (length (filter (\<lambda>r. r \<noteq> None) (fst (calls_run lru_apply cs c)))) \<and>
   lru_hits (snd (calls_run lru_apply cs c)) + lru_misses (snd (calls_run lru_apply cs c)) =
     lru_hits c + lru_misses c + of_nat (length (filter is_get cs))"
proof (induction cs arbitrary: c)
  case (Cons a cs)
  have "lru_hits (snd (lru_apply a c)) = lru_hits c + (if fst (lru_apply a c) \<noteq> None then 1 else 0) \<and>
      lru_hits (snd (lru_apply a c)) + lru_misses (snd (lru_apply a c)) =
        lru_hits c + lru_misses c + (if is_get a then 1 else 0)"
    by (cases a) (auto simp: lru_get_def lru_put_def lru_hits_def lru_misses_def is_get_def Let_def
        split: option.split)
  with Cons.IH [of "snd (lru_apply a c)"] show ?case by (auto simp: case_prod_beta)
qed simp

end
