(* ===== verification/Static_Files.thy ===== *)
theory Static_Files
  imports File_System Http Lru_Cache
begin

section \<open>Static files\<close>

text \<open>
  \<open>FileManager\<close> (\<open>src/src/file_manager.cpp\<close>) and \<open>StaticFileHandler\<close>
  (\<open>src/src/handlers.cpp\<close>), over the file system of \<open>File_System\<close> and the cache of
  \<open>Lru_Cache\<close>. Operations take the file system they run in as an argument and return the
  updated object.
\<close>

subsection \<open>FileManager\<close>

record FileManager =
  fm_cache :: LRUCache

text \<open>The \<open>int\<close> capacity converts to \<open>size_t\<close> modulo \<open>2 ^ 64\<close>.\<close>

definition FileManager_init :: "int \<Rightarrow> FileManager" where
  "FileManager_init cacheCapacity = \<lparr>fm_cache = LRUCache_init (nat (cacheCapacity mod 2 ^ 64))\<rparr>"

text \<open>\<open>readFile\<close>: the content, or \<^term>\<open>None\<close> for \<open>found = false\<close>.\<close>

definition readFile :: "filesystem \<Rightarrow> string \<Rightarrow> FileManager \<Rightarrow> string option \<times> FileManager" where
  "readFile fs filePath fm =
     (case lru_get filePath (fm_cache fm) of
        (Some cachedContent, c) \<Rightarrow> (Some cachedContent, fm\<lparr>fm_cache := c\<rparr>)
      | (None, c) \<Rightarrow>
          if \<not> is_regular_file fs filePath then (None, fm\<lparr>fm_cache := c\<rparr>)
          else (case ifstream_read fs filePath of
                  None \<Rightarrow> (None, fm\<lparr>fm_cache := c\<rparr>)
                | Some content \<Rightarrow> (Some content, fm\<lparr>fm_cache := lru_put filePath content c\<rparr>)))"

definition cacheHits :: "FileManager \<Rightarrow> u64" where "cacheHits fm = lru_hits (fm_cache fm)"
definition cacheMisses :: "FileManager \<Rightarrow> u64" where "cacheMisses fm = lru_misses (fm_cache fm)"

subsection \<open>StaticFileHandler\<close>

definition kMimeTypes :: "(string, string) unordered_map" where
  "kMimeTypes =
     [(''html'', ''text/html''), (''css'', ''text/css''), (''js'', ''text/javascript''),
      (''json'', ''application/json''), (''png'', ''image/png''), (''jpg'', ''image/jpeg''),
      (''jpeg'', ''image/jpeg''), (''gif'', ''image/gif''), (''svg'', ''image/svg+xml''),
      (''ico'', ''image/x-icon''), (''txt'', ''text/plain'')]"

definition mimeType :: "string \<Rightarrow> string" where
  "mimeType filePath =
     (case find_last_of (CHR ''.'') filePath of
        None \<Rightarrow> ''application/octet-stream''
      | Some dotIndex \<Rightarrow>
          (case map_of kMimeTypes (drop (dotIndex + 1) filePath) of
             None \<Rightarrow> ''application/octet-stream''
           | Some t \<Rightarrow> t))"

record StaticFileHandler =
  sh_staticRoot :: string
  sh_fileManager :: FileManager

definition StaticFileHandler_init :: "filesystem \<Rightarrow> string \<Rightarrow> int \<Rightarrow> StaticFileHandler" where
  "StaticFileHandler_init fs staticRoot cacheCapacity =
     \<lparr>sh_staticRoot = (case canonical fs staticRoot of None \<Rightarrow> staticRoot | Some c \<Rightarrow> c),
      sh_fileManager = FileManager_init cacheCapacity\<rparr>"

text \<open>\<open>resolve\<close>: the file to serve, or \<^term>\<open>None\<close> for \<open>escaped\<close>.\<close>

definition resolve :: "filesystem \<Rightarrow> string \<Rightarrow> string \<Rightarrow> string option" where
  "resolve fs staticRoot path =
     (if path = [] \<or> hd path \<noteq> slash then None
      else
        let relative = (if last path = slash then path @ ''index.html'' else path)
        in case weakly_canonical fs (path_append staticRoot (drop 1 relative)) of
             None \<Rightarrow> None
           | Some resolved \<Rightarrow> if prefix staticRoot resolved then Some resolved else None)"

definition serve_static ::
  "filesystem \<Rightarrow> HttpRequest \<Rightarrow> StaticFileHandler \<Rightarrow> HttpResponse \<times> StaticFileHandler" where
  "serve_static fs request h =
     (case resolve fs (sh_staticRoot h) (rq_path request) of
        None \<Rightarrow> (response_error 403, h)
      | Some filePath \<Rightarrow>
          (case readFile fs filePath (sh_fileManager h) of
             (None, fm) \<Rightarrow> (response_error 404, h\<lparr>sh_fileManager := fm\<rparr>)
           | (Some content, fm) \<Rightarrow>
               (HttpResponse_init\<lparr>rs_contentType := mimeType filePath, rs_body := content\<rparr>,
                h\<lparr>sh_fileManager := fm\<rparr>)))"

subsection \<open>The cache is transparent\<close>

text \<open>What a read finds on disk, and the handler without a cache.\<close>

definition disk_read :: "filesystem \<Rightarrow> string \<Rightarrow> string option" where
  "disk_read fs p = (if is_regular_file fs p then ifstream_read fs p else None)"

definition spec_static :: "filesystem \<Rightarrow> string \<Rightarrow> HttpRequest \<Rightarrow> HttpResponse" where
  "spec_static fs root request =
     (case resolve fs root (rq_path request) of
        None \<Rightarrow> response_error 403
      | Some filePath \<Rightarrow>
          (case disk_read fs filePath of
             None \<Rightarrow> response_error 404
           | Some content \<Rightarrow>
               HttpResponse_init\<lparr>rs_contentType := mimeType filePath, rs_body := content\<rparr>))"

definition coherent :: "filesystem \<Rightarrow> FileManager \<Rightarrow> bool" where
  "coherent fs fm \<longleftrightarrow> lru_inv (fm_cache fm) \<and> map_of (lru_abs (fm_cache fm)) \<subseteq>\<^sub>m disk_read fs"

lemma coherent_init: "coherent fs (FileManager_init n)"
  by (simp add: coherent_def FileManager_init_def lru_inv_init)
    (simp add: LRUCache_init_def lru_abs_def)

lemma readFile_disk:
  assumes "coherent fs fm"
  shows "fst (readFile fs p fm) = disk_read fs p" and "coherent fs (snd (readFile fs p fm))"
proof -
  let ?c = "fm_cache fm"
  from assms have inv: "lru_inv ?c" and sub: "map_of (lru_abs ?c) \<subseteq>\<^sub>m disk_read fs"
    by (simp_all add: coherent_def)
  obtain r c where g: "lru_get p ?c = (r, c)" by fastforce
  have c: "lru_inv c" "map_of (lru_abs c) \<subseteq>\<^sub>m disk_read fs"
    using lru.inv_get [OF inv, of p] lru.get_within [OF inv sub, of p] g by simp_all
  have hit: "r = Some v \<Longrightarrow> disk_read fs p = Some v" for v
    using lru.hit_from_store [OF inv sub, of p v] g by simp
  have put: "disk_read fs p = Some v \<Longrightarrow> map_of (lru_abs (lru_put p v c)) \<subseteq>\<^sub>m disk_read fs" for v
    by (rule lru.put_within [OF c])
  show "fst (readFile fs p fm) = disk_read fs p"
    by (cases r) (simp_all add: readFile_def g hit, simp add: disk_read_def split: option.split)
  show "coherent fs (snd (readFile fs p fm))"
    using c put lru.inv_put [OF c(1)]
    by (auto simp: readFile_def g coherent_def disk_read_def split: option.splits)
qed

lemma serve_static_spec:
  assumes "coherent fs (sh_fileManager h)"
  shows "fst (serve_static fs request h) = spec_static fs (sh_staticRoot h) request"
    and "coherent fs (sh_fileManager (snd (serve_static fs request h)))"
    and "sh_staticRoot (snd (serve_static fs request h)) = sh_staticRoot h"
  using readFile_disk [OF assms] assms
  by (auto simp: serve_static_def spec_static_def split: option.split prod.split)
    (metis fst_conv snd_conv option.distinct(1) option.sel)+

lemma serve_static_run:
  assumes "coherent fs (sh_fileManager h)"
  shows "fst (calls_run (serve_static fs) reqs h) = map (spec_static fs (sh_staticRoot h)) reqs \<and>
    coherent fs (sh_fileManager (snd (calls_run (serve_static fs) reqs h)))"
  using assms
proof (induction reqs arbitrary: h)
  case (Cons r reqs)
  note s = serve_static_spec [OF Cons.prems, of r]
  from Cons.IH [OF s(2)] s show ?case by (simp add: case_prod_beta)
qed simp

subsection \<open>Confinement\<close>

lemma resolve_prefix: "resolve fs root path = Some s \<Longrightarrow> prefix root s"
  by (auto simp: resolve_def Let_def split: if_splits option.splits)

lemma path_append_absolute: "absolute_path p \<Longrightarrow> absolute_path (path_append p r)"
  by (auto simp: path_append_def absolute_append)

lemma resolve_no_up:
  assumes "fs_wf fs" and "absolute_path root" and "resolve fs root path = Some s"
  shows "no_up s"
proof -
  from assms(3) obtain r where "weakly_canonical fs (path_append root r) = Some s"
    by (auto simp: resolve_def Let_def split: if_splits option.splits)
  then show ?thesis by (rule weakly_canonical_no_up [OF assms(1) path_append_absolute [OF assms(2)]])
qed

lemma disk_read_regular:
  assumes "disk_read fs s = Some v"
  obtains q where "stat fs s = Found q" and "fs_node fs q = Some (Regular v)"
  using assms
  by (auto simp: disk_read_def ifstream_read_def split: if_splits walk_result.splits option.splits
      inode.splits)

lemma spec_static_confined:
  assumes "fs_wf fs" and "real_node fs root" and "no_links_below fs root" and "no_siblings fs root"
    and "rs_status (spec_static fs (render_path root) request) = 200"
  obtains q where "prefix root q"
    and "fs_node fs q = Some (Regular (rs_body (spec_static fs (render_path root) request)))"
proof -
  let ?r = "render_path root"
  from assms(5) obtain s v where s: "resolve fs ?r (rq_path request) = Some s"
    and v: "disk_read fs s = Some v"
    by (auto simp: spec_static_def split: option.splits)
  from disk_read_regular [OF v] obtain q where q: "stat fs s = Found q" "fs_node fs q = Some (Regular v)" .
  have "prefix root q"
    using prefix_confined [OF assms(1,2,3,4) resolve_prefix [OF s]
        resolve_no_up [OF assms(1) render_absolute s] q(1)] q(2)
    by (simp add: is_dir_def)
  moreover have "rs_body (spec_static fs ?r request) = v" by (simp add: spec_static_def s v)
  ultimately show ?thesis using q(2) by (intro that) simp_all
qed

section \<open>Properties of static files\<close>

text \<open>
  C16: The cache is transparent. Over a file system that does not change, the responses to any
  sequence of requests are those of a handler that reads every file from disk, whatever the
  cache capacity; an empty file is served with status 200, an unreadable or missing one is
  answered with 404 and a path that does not resolve below the root with 403.
\<close>

theorem static_cache_transparent:
  "fst (calls_run (serve_static fs) reqs (StaticFileHandler_init fs dir n)) =
     map (spec_static fs (sh_staticRoot (StaticFileHandler_init fs dir n))) reqs"
  using serve_static_run [of fs "StaticFileHandler_init fs dir n" reqs] coherent_init
  by (simp add: StaticFileHandler_init_def)

text \<open>The canonical directory of a path, as components.\<close>

definition canonical_dir :: "filesystem \<Rightarrow> string \<Rightarrow> fpath option" where
  "canonical_dir fs p =
     (case walk fs max_links (start_dir fs p) (split_on slash (c_str p)) of
        Found q \<Rightarrow> if p = [] then None else Some q
      | _ \<Rightarrow> None)"

lemma canonical_dir_canonical:
  "canonical_dir fs p = Some q \<Longrightarrow> canonical fs p = Some (render_path q)"
  by (auto simp: canonical_dir_def canonical_def split: walk_result.splits if_splits)

lemma canonical_dir_real:
  assumes "fs_wf fs" and "canonical_dir fs p = Some q"
  shows "real_node fs q"
proof -
  have "real_node fs (start_dir fs p)"
    using assms(1) by (simp add: start_dir_def fs_wf_def is_dir_real)
  with assms(2) walk_real [OF assms(1)] show ?thesis
    by (auto simp: canonical_dir_def split: walk_result.splits if_splits)
qed

text \<open>
  C15: Static files are confined to the root. When no symbolic link lies below the static root
  and no name beside it extends its name, every response with status 200, to any request of
  any sequence and for any path bytes (\<open>..\<close>, repeated slashes, absolute paths and NUL
  included), carries exactly the content of a regular file below the root.
\<close>

theorem static_confined:
  assumes "fs_wf fs" and "canonical_dir fs dir = Some root"
    and "no_links_below fs root" and "no_siblings fs root"
    and "response \<in> set (fst (calls_run (serve_static fs) reqs (StaticFileHandler_init fs dir n)))"
    and "rs_status response = 200"
  shows "\<exists>q. prefix root q \<and> fs_node fs q = Some (Regular (rs_body response))"
proof -
  note c = canonical_dir_canonical [OF assms(2)]
  have "sh_staticRoot (StaticFileHandler_init fs dir n) = render_path root"
    by (simp add: StaticFileHandler_init_def c)
  with serve_static_run [of fs "StaticFileHandler_init fs dir n" reqs] coherent_init assms(5)
  obtain request where r: "response = spec_static fs (render_path root) request"
    by (auto simp: StaticFileHandler_init_def)
  from spec_static_confined [OF assms(1) canonical_dir_real [OF assms(1,2)] assms(3,4)] assms(6) r
  show ?thesis by blast
qed

definition sample_site :: filesystem where
  "sample_site = \<lparr>fs_nodes = map_of [([''srv''], Directory), ([''srv'', ''index.html''], Regular ''home''),
     ([''etc''], Regular ''secret'')], fs_cwd = []\<rparr>"

lemma sample_site_ok:
  "fs_wf sample_site" "no_links_below sample_site [''srv'']" "no_siblings sample_site [''srv'']"
  by (auto simp: sample_site_def fs_wf_def no_links_below_def no_siblings_def is_link_def fs_node_def
      is_dir_def proper_name_def append_eq_Cons_conv split: if_splits)

definition get_path :: "string \<Rightarrow> HttpRequest" where
  "get_path p = HttpRequest_init\<lparr>rq_method := ''GET'', rq_path := p\<rparr>"

theorem static_confined_witness:
  "\<exists>q. prefix [''srv''] q \<and> fs_node sample_site q = Some (Regular ''home'')"
proof -
  let ?rs = "fst (calls_run (serve_static sample_site) [get_path ''/x/..//'', get_path ''/../etc'']
       (StaticFileHandler_init sample_site ''./srv/'' 1))"
  have c: "canonical_dir sample_site ''./srv/'' = Some [''srv'']" by code_simp
  have r: "rs_status (hd ?rs) = 200" "rs_body (hd ?rs) = ''home''" by code_simp+
  have "hd ?rs \<in> set ?rs" by (simp add: case_prod_beta)
  from static_confined [OF sample_site_ok(1) c sample_site_ok(2,3) this r(1)] r(2)
  show ?thesis by simp
qed





end
