(* ===== verification/Net.thy ===== *)
theory Net
  imports Cpp_String
begin

unbundle bit_operations_syntax

section \<open>Listening sockets\<close>

text \<open>
  \<open>src/src/net.cpp\<close>, and the part of the two event loops that opens their descriptors. The
  kernel is the map of open descriptors; the outcome of every system call is an argument.
  \<open>inet_pton\<close> is an argument as well, and \<open>strerror(errno)\<close> is a text.
\<close>

subsection \<open>The kernel's view\<close>

record socket =
  sk_reuseaddr :: bool
  sk_reuseport :: bool
  sk_bound :: "(string \<times> 16 word) option"
  sk_listening :: bool
  sk_flags :: "32 word"

datatype descriptor = Socket socket | Epoll | EventFd

type_synonym kernel = "int \<rightharpoonup> descriptor"

record net_env =
  ne_socket :: int          \<comment> \<open>result of \<open>socket\<close>\<close>
  ne_reuseaddr :: bool      \<comment> \<open>whether each call succeeds\<close>
  ne_reuseport :: bool
  ne_pton :: "string \<Rightarrow> bool"
  ne_bind :: bool
  ne_listen :: bool
  ne_getfl :: bool
  ne_setfl :: bool
  ne_strerror :: string

definition new_socket :: socket where
  "new_socket = \<lparr>sk_reuseaddr = False, sk_reuseport = False, sk_bound = None, sk_listening = False, sk_flags = 0\<rparr>"

definition on_socket :: "(socket \<Rightarrow> socket) \<Rightarrow> int \<Rightarrow> kernel \<Rightarrow> kernel" where
  "on_socket f fd k = (case k fd of Some (Socket sk) \<Rightarrow> k(fd \<mapsto> Socket (f sk)) | _ \<Rightarrow> k)"

definition sys_close :: "int \<Rightarrow> kernel \<Rightarrow> kernel" where
  "sys_close fd k = k(fd := None)"

definition O_NONBLOCK :: "32 word" where
  "O_NONBLOCK = 0x800"

subsection \<open>Operations\<close>

definition setNonBlocking :: "net_env \<Rightarrow> int \<Rightarrow> kernel \<Rightarrow> bool \<times> kernel" where
  "setNonBlocking env fd k =
     (if \<not> ne_getfl env then (False, k)
      else if ne_setfl env then (True, on_socket (\<lambda>sk. sk\<lparr>sk_flags := sk_flags sk OR O_NONBLOCK\<rparr>) fd k)
      else (False, k))"

definition createListener ::
  "net_env \<Rightarrow> string \<Rightarrow> int \<Rightarrow> bool \<Rightarrow> string \<Rightarrow> kernel \<Rightarrow> int \<times> string \<times> kernel" where
  "createListener env ip port reusePort errorOut k =
     (let fd = ne_socket env
      in if fd < 0 then (- 1, ''socket(): '' @ ne_strerror env, k)
      else
        let k = k(fd \<mapsto> Socket new_socket);
            k = (if ne_reuseaddr env then on_socket (\<lambda>sk. sk\<lparr>sk_reuseaddr := True\<rparr>) fd k else k)
        in if reusePort \<and> \<not> ne_reuseport env
           then (- 1, ''SO_REUSEPORT: '' @ ne_strerror env, sys_close fd k)
        else
          let k = (if reusePort then on_socket (\<lambda>sk. sk\<lparr>sk_reuseport := True\<rparr>) fd k else k);
              sin_port = (word_of_int port :: 16 word)
          in if \<not> ne_pton env ip then (- 1, ''invalid bind address: '' @ ip, sys_close fd k)
          else if \<not> ne_bind env then (- 1, ''bind(): '' @ ne_strerror env, sys_close fd k)
          else
            let k = on_socket (\<lambda>sk. sk\<lparr>sk_bound := Some (ip, sin_port)\<rparr>) fd k
            in if \<not> ne_listen env then (- 1, ''listen(): '' @ ne_strerror env, sys_close fd k)
            else
              let k = on_socket (\<lambda>sk. sk\<lparr>sk_listening := True\<rparr>) fd k;
                  (ok, k) = setNonBlocking env fd k
              in if \<not> ok then (- 1, ''fcntl(): '' @ ne_strerror env, sys_close fd k)
              else (fd, errorOut, k))"

subsection \<open>The descriptors of an event loop\<close>

text \<open>
  What \<open>PoolLoop::run\<close> and \<open>ReactorLoop::setupReactor\<close> open before they serve: the listener,
  the epoll instance and the eventfd that \<open>stop\<close> writes to.
\<close>

record loop_fds =
  lf_listenFd :: int
  lf_epollFd :: int
  lf_stopFd :: int

record setup_env =
  se_net :: net_env
  se_epoll_create :: int
  se_eventfd :: int
  se_strerror :: string

definition sys_open :: "int \<Rightarrow> descriptor \<Rightarrow> kernel \<Rightarrow> kernel" where
  "sys_open fd d k = (if fd < 0 then k else k(fd \<mapsto> d))"

definition open_loop_fds ::
  "setup_env \<Rightarrow> string \<Rightarrow> int \<Rightarrow> bool \<Rightarrow> string \<Rightarrow> string \<Rightarrow> kernel \<Rightarrow> (string + loop_fds) \<times> kernel" where
  "open_loop_fds env ip port reusePort listenerText epollText k =
     (let (listenFd, errorOut, k) = createListener (se_net env) ip port reusePort [] k
      in if listenFd < 0 then (Inl (listenerText @ errorOut), k)
      else
        let epollFd = se_epoll_create env;
            k = sys_open epollFd Epoll k;
            stopFd = se_eventfd env;
            k = sys_open stopFd EventFd k
        in if epollFd < 0 \<or> stopFd < 0 then (Inl (epollText @ se_strerror env), k)
           else (Inr \<lparr>lf_listenFd = listenFd, lf_epollFd = epollFd, lf_stopFd = stopFd\<rparr>, k))"

subsection \<open>Listeners are complete or absent\<close>

lemma on_socket_same [simp]: "k fd = Some (Socket sk) \<Longrightarrow> on_socket f fd k = k(fd \<mapsto> Socket (f sk))"
  by (simp add: on_socket_def)

lemma sys_close_new: "k fd = None \<Longrightarrow> sys_close fd (k(fd \<mapsto> d)) = k"
  by (auto simp: sys_close_def)

lemma nonblocking_flag: "bit O_NONBLOCK 11"
  by (simp add: O_NONBLOCK_def bit_iff_odd drop_bit_eq_div)

lemma createListener_success:
  assumes "createListener env ip port reusePort errorOut k = (fd, err, k')" and "fd \<noteq> - 1"
  shows "fd = ne_socket env" and "0 \<le> fd" and "err = errorOut"
    and "k' = k(fd \<mapsto> Socket \<lparr>sk_reuseaddr = ne_reuseaddr env, sk_reuseport = reusePort,
      sk_bound = Some (ip, word_of_int port), sk_listening = True, sk_flags = O_NONBLOCK\<rparr>)"
  using assms by (auto simp: createListener_def setNonBlocking_def Let_def new_socket_def split: if_splits)

text \<open>
  C30: A listener is returned complete or not at all. Whatever the system calls answer,
  \<open>createListener\<close> either returns a new descriptor that listens on the address, without
  blocking, with \<open>SO_REUSEPORT\<close> exactly when asked for, bound to the port modulo 2^16, and
  leaves the error text alone; or it returns -1 with a text that names the failing call, and
  the kernel's descriptors are exactly those from before.
\<close>

theorem createListener_all_or_nothing:
  assumes "k (ne_socket env) = None"
    and "createListener env ip port reusePort errorOut k = (fd, err, k')"
  shows "(\<exists>sk. fd = ne_socket env \<and> 0 \<le> fd \<and> err = errorOut \<and> k' = k(fd \<mapsto> Socket sk) \<and>
        sk_listening sk \<and> bit (sk_flags sk) 11 \<and> sk_reuseport sk = reusePort \<and>
        (\<exists>p. sk_bound sk = Some (ip, p) \<and> uint p = port mod 65536)) \<or>
     (fd = - 1 \<and> k' = k \<and> (err = ''invalid bind address: '' @ ip \<and> \<not> ne_pton env ip \<or>
        (\<exists>call \<in> {''socket(): '', ''SO_REUSEPORT: '', ''bind(): '', ''listen(): '', ''fcntl(): ''}.
          err = call @ ne_strerror env)))"
proof (cases "ne_socket env < 0")
  case True
  with assms show ?thesis by (simp add: createListener_def)
next
  case False
  note new = sys_close_new [where k = k and fd = "ne_socket env", OF assms(1)]
  have port: "uint (word_of_int port :: 16 word) = port mod 65536" by (simp add: uint_word_of_int)
  show ?thesis
  proof (cases "fd = - 1")
    case True
    with assms(2) False new show ?thesis
      by (auto simp: createListener_def setNonBlocking_def Let_def split: if_splits)
  next
    case ok: False
    note success = createListener_success [OF assms(2) ok]
    show ?thesis
      by (rule disjI1, rule exI [where x = "\<lparr>sk_reuseaddr = ne_reuseaddr env, sk_reuseport = reusePort,
        sk_bound = Some (ip, word_of_int port), sk_listening = True, sk_flags = O_NONBLOCK\<rparr>"])
        (use success port in \<open>simp add: nonblocking_flag\<close>)
  qed
qed

definition sample_net_env :: net_env where
  "sample_net_env = \<lparr>ne_socket = 3, ne_reuseaddr = True, ne_reuseport = True, ne_pton = (\<lambda>ip. ip = ''127.0.0.1''),
     ne_bind = True, ne_listen = True, ne_getfl = True, ne_setfl = True, ne_strerror = ''denied''\<rparr>"

theorem createListener_all_or_nothing_witness:
  "(\<exists>err sk p. createListener sample_net_env ''127.0.0.1'' 70000 True [] Map.empty =
     (3, err, [3 \<mapsto> Socket sk]) \<and> sk_bound sk = Some (''127.0.0.1'', p) \<and> uint p = 4464) \<and>
   (\<exists>err. createListener sample_net_env ''localhost'' 8080 True [] Map.empty = (- 1, err, Map.empty))"
proof
  obtain fd err k' where c: "createListener sample_net_env ''127.0.0.1'' 70000 True [] Map.empty = (fd, err, k')"
    by (metis prod_cases3)
  moreover from c have "fd = 3"
    by (auto simp: createListener_def setNonBlocking_def sample_net_env_def Let_def new_socket_def)
  ultimately show "\<exists>err sk p. createListener sample_net_env ''127.0.0.1'' 70000 True [] Map.empty =
     (3, err, [3 \<mapsto> Socket sk]) \<and> sk_bound sk = Some (''127.0.0.1'', p) \<and> uint p = 4464"
    using createListener_all_or_nothing [OF _ c] by auto
next
  obtain fd err k' where c: "createListener sample_net_env ''localhost'' 8080 True [] Map.empty = (fd, err, k')"
    by (metis prod_cases3)
  moreover from c have "fd = - 1"
    by (auto simp: createListener_def sample_net_env_def Let_def new_socket_def)
  ultimately show "\<exists>err. createListener sample_net_env ''localhost'' 8080 True [] Map.empty = (- 1, err, Map.empty)"
    using createListener_all_or_nothing [OF _ c] by auto
qed

end
