(* ===== verification/Pool_Loop.thy ===== *)
theory Pool_Loop
  imports Event_Loop Net
begin

section \<open>The worker-pool event loop\<close>

text \<open>
  \<open>PoolLoop\<close> of \<open>src/include/event_loop.h\<close> and \<open>src/src/pool_loop.cpp\<close>. One thread
  accepts, collects readiness events and sweeps idle connections; workers take events from a
  queue. Each step below is what one thread does between two points where others can
  intervene: one critical section, or the part of a handler that works on the connection it
  owns. The table maps a descriptor to a connection object in a store, because a worker keeps
  its \<open>shared_ptr\<close> when the table entry goes. The kernel is represented by the set of open
  client descriptors and by the epoll registrations; a registration is one-shot: it is
  disarmed when its event is reported, and \<open>accept\<close> returns a descriptor that is not open.
\<close>

subsection \<open>State\<close>

record Event =
  ev_fd :: int
  ev_events :: epoll_event

datatype worker =
    WIdle                        \<comment> \<open>waiting for the queue\<close>
  | WTook Event                  \<comment> \<open>in \<open>handleEvent\<close>, before the lookup\<close>
  | WOwns Event nat              \<comment> \<open>running the handler on a connection object\<close>
  | WReleasing Event nat Action  \<comment> \<open>before \<open>busy\<close> is cleared\<close>
  | WFinishing Event Action      \<comment> \<open>before rearming or closing\<close>
  | WExited

text \<open>How far the call of \<open>stop\<close> that cleared the flag has got.\<close>

datatype stop_phase = StopNone | StopClearing | StopListener | StopDone

record 'a PoolLoop =
  pl_running :: bool
  pl_stop :: stop_phase
  pl_listening :: bool
  pl_accepting :: bool
  pl_connections :: "(int, nat) unordered_map"
  pl_objects :: "nat \<Rightarrow> Connection"
  pl_fresh :: nat
  pl_epoll :: "(int, interest option) unordered_map"
  pl_open :: "int set"
  pl_workQueue :: "Event list"
  pl_workers :: "worker list"
  pl_server :: "'a server"

text \<open>The state in which \<open>run\<close> enters \<open>acceptLoop\<close>.\<close>

definition PoolLoop_init :: "ServerConfig \<Rightarrow> 'a server \<Rightarrow> 'a PoolLoop" where
  "PoolLoop_init config sv = \<lparr>pl_running = True, pl_stop = StopNone, pl_listening = True, pl_accepting = True,
     pl_connections = [], pl_objects = (\<lambda>_. Connection_init 0 (- 1)), pl_fresh = 0, pl_epoll = [],
     pl_open = {}, pl_workQueue = [], pl_workers = replicate (nat (cfg_threads config)) WIdle,
     pl_server = sv\<rparr>"

text \<open>\<open>run\<close> up to \<open>acceptLoop\<close>: the loop, or nothing, and the line it logs.\<close>

definition pool_start ::
  "setup_env \<Rightarrow> ServerConfig \<Rightarrow> 'a server \<Rightarrow> kernel \<Rightarrow>
     (loop_fds \<times> 'a PoolLoop) option \<times> (LogLevel \<times> string) \<times> kernel" where
  "pool_start env config sv k =
     (case open_loop_fds env (cfg_ip config) (cfg_port config) False ''Listener failed: ''
         ''epoll/eventfd failed: '' k of
        (Inl message, k) \<Rightarrow> (None, (ERR, message), k)
      | (Inr fds, k) \<Rightarrow>
          (Some (fds, PoolLoop_init config sv),
           (INFO, ''pool mode: 1 epoll thread + '' @ dec_int (cfg_threads config) @ '' workers on '' @
              cfg_ip config @ '':'' @ dec_int (cfg_port config)), k))"

subsection \<open>Operations\<close>

definition pool_accept :: "int \<Rightarrow> int \<Rightarrow> 'a PoolLoop \<Rightarrow> 'a PoolLoop" where
  "pool_accept now clientFd s =
     s\<lparr>pl_connections := AList.update clientFd (pl_fresh s) (pl_connections s),
       pl_objects := (pl_objects s)(pl_fresh s := Connection_init now clientFd),
       pl_fresh := Suc (pl_fresh s),
       pl_open := insert clientFd (pl_open s),
       pl_server := gauge_opened (pl_server s),
       pl_epoll := AList.update clientFd (Some WantIn) (pl_epoll s)\<rparr>"

definition pool_report :: "Event \<Rightarrow> 'a PoolLoop \<Rightarrow> 'a PoolLoop" where
  "pool_report ev s =
     s\<lparr>pl_epoll := AList.update (ev_fd ev) None (pl_epoll s),
       pl_workQueue := pl_workQueue s @ [ev]\<rparr>"

definition closeConnection :: "int \<Rightarrow> 'a PoolLoop \<Rightarrow> 'a PoolLoop" where
  "closeConnection fd s =
     (if map_of (pl_connections s) fd = None then s
      else s\<lparr>pl_connections := AList.delete fd (pl_connections s),
             pl_epoll := AList.delete fd (pl_epoll s),
             pl_open := pl_open s - {fd},
             pl_server := gauge_closed (pl_server s)\<rparr>)"

definition rearm :: "int \<Rightarrow> interest \<Rightarrow> 'a PoolLoop \<Rightarrow> 'a PoolLoop" where
  "rearm fd i s =
     (if map_of (pl_epoll s) fd = None then closeConnection fd s
      else s\<lparr>pl_epoll := AList.update fd (Some i) (pl_epoll s)\<rparr>)"

definition set_worker :: "nat \<Rightarrow> worker \<Rightarrow> 'a PoolLoop \<Rightarrow> 'a PoolLoop" where
  "set_worker i w s = s\<lparr>pl_workers := (pl_workers s)[i := w]\<rparr>"

text \<open>\<open>workerLoop\<close>: take the front event, or return when the loop is stopped and it is empty.\<close>

definition worker_take :: "nat \<Rightarrow> 'a PoolLoop \<Rightarrow> 'a PoolLoop option" where
  "worker_take i s =
     (if pl_workQueue s \<noteq> [] then
        Some (set_worker i (WTook (hd (pl_workQueue s))) (s\<lparr>pl_workQueue := tl (pl_workQueue s)\<rparr>))
      else if \<not> pl_running s then Some (set_worker i WExited s)
      else None)"

text \<open>\<open>handleEvent\<close>, in its four stretches.\<close>

definition handle_lookup :: "nat \<Rightarrow> Event \<Rightarrow> 'a PoolLoop \<Rightarrow> 'a PoolLoop" where
  "handle_lookup i ev s =
     (case map_of (pl_connections s) (ev_fd ev) of
        None \<Rightarrow> set_worker i WIdle s
      | Some obj \<Rightarrow>
          set_worker i (WOwns ev obj)
            (s\<lparr>pl_objects := (pl_objects s)(obj := (pl_objects s obj)\<lparr>busy := True\<rparr>)\<rparr>))"

definition handle_call ::
  "'a server Router \<Rightarrow> call_env \<Rightarrow> nat \<Rightarrow> Event \<Rightarrow> nat \<Rightarrow> 'a PoolLoop \<Rightarrow> 'a PoolLoop option" where
  "handle_call router env i ev obj s =
     (case dispatch_event router env (ev_events ev) (pl_objects s obj) (pl_server s) of
        None \<Rightarrow> None
      | Some (action, c, sv, out) \<Rightarrow>
          Some (set_worker i (WReleasing ev obj action)
            (s\<lparr>pl_objects := (pl_objects s)(obj := c), pl_server := sv\<rparr>)))"

definition handle_release :: "nat \<Rightarrow> Event \<Rightarrow> nat \<Rightarrow> Action \<Rightarrow> 'a PoolLoop \<Rightarrow> 'a PoolLoop" where
  "handle_release i ev obj action s =
     set_worker i (WFinishing ev action)
       (s\<lparr>pl_objects := (pl_objects s)(obj := (pl_objects s obj)\<lparr>busy := False\<rparr>)\<rparr>)"

definition handle_finish :: "nat \<Rightarrow> Event \<Rightarrow> Action \<Rightarrow> 'a PoolLoop \<Rightarrow> 'a PoolLoop" where
  "handle_finish i ev action s =
     (let s' = set_worker i WIdle s
      in case action of
           WaitRead \<Rightarrow> rearm (ev_fd ev) WantIn s'
         | WaitWrite \<Rightarrow> rearm (ev_fd ev) WantOut s'
         | Close \<Rightarrow> closeConnection (ev_fd ev) s')"

definition sweepIdleConnections :: "ServerConfig \<Rightarrow> int \<Rightarrow> 'a PoolLoop \<Rightarrow> 'a PoolLoop" where
  "sweepIdleConnections config now s =
     (let expired = map fst (filter (\<lambda>(fd, obj). \<not> busy (pl_objects s obj) \<and>
            idle_expired config now (pl_objects s obj)) (pl_connections s))
      in fold closeConnection expired s)"

text \<open>
  \<open>stop\<close>: the flag, then the table with its sockets, then the listener. The accept thread can
  still be draining the listener in between.
\<close>

definition stop_flag :: "'a PoolLoop \<Rightarrow> 'a PoolLoop" where
  "stop_flag s = (if \<not> pl_running s then s else s\<lparr>pl_running := False, pl_stop := StopClearing\<rparr>)"

definition stop_clear :: "'a PoolLoop \<Rightarrow> 'a PoolLoop" where
  "stop_clear s =
     (let op = map fst (pl_connections s)
      in s\<lparr>pl_connections := [],
           pl_open := pl_open s - set op,
           pl_epoll := filter (\<lambda>e. fst e \<notin> set op) (pl_epoll s),
           pl_server := fold (\<lambda>_. gauge_closed) op (pl_server s),
           pl_stop := StopListener\<rparr>)"

definition stop_listener :: "'a PoolLoop \<Rightarrow> 'a PoolLoop" where
  "stop_listener s = s\<lparr>pl_listening := False, pl_stop := StopDone\<rparr>"

definition pool_stop :: "'a PoolLoop \<Rightarrow> 'a PoolLoop option" where
  "pool_stop s =
     (case pl_stop s of
        StopNone \<Rightarrow> Some (stop_flag s)
      | StopClearing \<Rightarrow> Some (stop_clear s)
      | StopListener \<Rightarrow> Some (stop_listener s)
      | StopDone \<Rightarrow> None)"

text \<open>\<open>acceptLoop\<close> ends when the flag is cleared or when \<open>epoll_wait\<close> fails.\<close>

definition accept_leave :: "bool \<Rightarrow> 'a PoolLoop \<Rightarrow> 'a PoolLoop option" where
  "accept_leave failed s =
     (if failed \<or> \<not> pl_running s then Some (s\<lparr>pl_accepting := False\<rparr>) else None)"

subsection \<open>Steps\<close>

datatype pool_label =
    Accept int int
  | Report Event
  | Worker nat call_env
  | Sweep int
  | StopLoop
  | Leave bool

definition worker_step :: "'a server Router \<Rightarrow> nat \<Rightarrow> call_env \<Rightarrow> 'a PoolLoop \<Rightarrow> 'a PoolLoop option" where
  "worker_step router i env s =
     (if i < length (pl_workers s) then
        (case pl_workers s ! i of
           WIdle \<Rightarrow> worker_take i s
         | WTook ev \<Rightarrow> Some (handle_lookup i ev s)
         | WOwns ev obj \<Rightarrow> handle_call router env i ev obj s
         | WReleasing ev obj action \<Rightarrow> Some (handle_release i ev obj action s)
         | WFinishing ev action \<Rightarrow> Some (handle_finish i ev action s)
         | WExited \<Rightarrow> None)
      else None)"

fun pool_apply ::
  "ServerConfig \<Rightarrow> 'a server Router \<Rightarrow> pool_label \<Rightarrow> 'a PoolLoop \<Rightarrow> 'a PoolLoop option" where
  "pool_apply config router (Accept now fd) s =
     (if pl_accepting s \<and> pl_listening s \<and> fd \<notin> pl_open s then Some (pool_accept now fd s) else None)"
| "pool_apply config router (Report ev) s =
     (case map_of (pl_epoll s) (ev_fd ev) of
        Some (Some i) \<Rightarrow> if pl_accepting s then Some (pool_report ev s) else None
      | _ \<Rightarrow> None)"
| "pool_apply config router (Worker i env) s = worker_step router i env s"
| "pool_apply config router (Sweep now) s =
     (if pl_accepting s then Some (sweepIdleConnections config now s) else None)"
| "pool_apply config router StopLoop s = pool_stop s"
| "pool_apply config router (Leave failed) s = accept_leave failed s"

definition pool_step ::
  "ServerConfig \<Rightarrow> 'a server Router \<Rightarrow> 'a PoolLoop \<Rightarrow> pool_label \<Rightarrow> 'a PoolLoop \<Rightarrow> bool" where
  "pool_step config router s l t \<longleftrightarrow> pool_apply config router l s = Some t"

subsection \<open>The connection table and the gauge\<close>

abbreviation pool_fds :: "'a PoolLoop \<Rightarrow> int set" where
  "pool_fds s \<equiv> fst ` set (pl_connections s)"

abbreviation pool_gauge :: "'a PoolLoop \<Rightarrow> i64" where
  "pool_gauge s \<equiv> active_gauge (pl_server s)"

lemma closeConnection_fds: "pool_fds (closeConnection fd s) = pool_fds s - {fd}"
  by (auto simp: closeConnection_def keys_delete map_of_eq_None_iff)

interpretation pool: connection_table pool_fds pool_gauge "pool_accept now" closeConnection for now
proof unfold_locales
  fix fd and s :: "'a PoolLoop"
  show "pool_gauge (closeConnection fd s) = (if fd \<in> pool_fds s then pool_gauge s - 1 else pool_gauge s)"
    by (simp add: closeConnection_def map_of_no_key)
qed (simp_all add: pool_accept_def dom_update closeConnection_fds)

text \<open>
  The table, the registrations and the open descriptors agree, and the gauge counts them.
\<close>

definition fds_agree :: "'a PoolLoop \<Rightarrow> bool" where
  "fds_agree s \<longleftrightarrow> umap_inv (pl_connections s) \<and> umap_inv (pl_epoll s) \<and>
     pool_fds s = pl_open s \<and> fst ` set (pl_epoll s) = pl_open s"

definition pool_table :: "'a PoolLoop \<Rightarrow> bool" where
  "pool_table s \<longleftrightarrow> fds_agree s \<and> pool_gauge s = of_nat (card (pool_fds s))"







lemma pool_table_worker [simp]: "pool_table (set_worker i w s) = pool_table s"
  by (simp add: pool_table_def fds_agree_def set_worker_def)









subsection \<open>Invariants of the server behind the pool\<close>

context loop_invariant
begin

lemma close_keeps: "P (pl_server s) \<Longrightarrow> P (pl_server (closeConnection fd s))"
  by (simp add: closeConnection_def keeps_closed)

lemma rearm_keeps: "P (pl_server s) \<Longrightarrow> P (pl_server (rearm fd i s))"
  by (simp add: rearm_def close_keeps)

lemma sweep_keeps: "P (pl_server s) \<Longrightarrow> P (pl_server (sweepIdleConnections config now s))"
proof -
  have "P (pl_server u) \<Longrightarrow> P (pl_server (fold closeConnection ks u))" for ks and u :: "'a PoolLoop"
    by (induction ks arbitrary: u) (simp_all add: close_keeps)
  then show "P (pl_server s) \<Longrightarrow> P (pl_server (sweepIdleConnections config now s))"
    by (simp add: sweepIdleConnections_def Let_def)
qed

lemma stop_keeps: "P (pl_server s) \<Longrightarrow> pool_stop s = Some t \<Longrightarrow> P (pl_server t)"
proof -
  have "P sv \<Longrightarrow> P (fold (\<lambda>_. gauge_closed) xs sv)" for xs :: "int list" and sv
    by (induction xs arbitrary: sv) (simp_all add: keeps_closed)
  then show "P (pl_server s) \<Longrightarrow> pool_stop s = Some t \<Longrightarrow> P (pl_server t)"
    by (auto simp: pool_stop_def stop_flag_def stop_clear_def stop_listener_def Let_def
        split: stop_phase.splits if_splits)
qed

lemma worker_step_keeps:
  assumes "P (pl_server s)" and "worker_step router i env s = Some t"
  shows "P (pl_server t)"
proof -
  have set: "pl_server (set_worker i w u) = pl_server u" for w and u :: "'a PoolLoop"
    by (simp add: set_worker_def)
  show ?thesis
  proof (cases "pl_workers s ! i")
    case (WOwns ev obj)
    with assms show ?thesis
      by (auto simp: worker_step_def handle_call_def set dispatch_keeps split: if_splits option.splits)
  next
    case (WFinishing ev action)
    with assms show ?thesis
      by (auto simp: worker_step_def handle_finish_def set Let_def close_keeps rearm_keeps
          split: if_splits Action.splits)
  qed (use assms in \<open>auto simp: worker_step_def worker_take_def handle_lookup_def handle_release_def set
      split: if_splits option.splits\<close>)
qed

lemma pool_step_keeps:
  assumes "P (pl_server s)" and "pool_step config router s l t"
  shows "P (pl_server t)"
proof (cases l)
  case (Accept now fd)
  then have "t = pool_accept now fd s" using assms(2) by (simp add: pool_step_def split: if_splits)
  with assms(1) show ?thesis by (simp add: pool_accept_def keeps_opened)
next
  case (Report ev)
  then have "t = pool_report ev s" using assms(2) by (simp add: pool_step_def split: if_splits option.splits)
  with assms(1) show ?thesis by (simp add: pool_report_def)
next
  case (Worker i env)
  with assms worker_step_keeps show ?thesis by (simp add: pool_step_def)
next
  case (Sweep now)
  then have "t = sweepIdleConnections config now s" using assms(2) by (simp add: pool_step_def split: if_splits)
  with assms(1) show ?thesis by (simp only: sweep_keeps)
next
  case StopLoop
  with assms stop_keeps show ?thesis by (simp add: pool_step_def)
next
  case (Leave failed)
  then have "t = s\<lparr>pl_accepting := False\<rparr>"
    using assms(2) by (simp add: pool_step_def accept_leave_def split: if_splits)
  with assms(1) show ?thesis by simp
qed

lemma pool_keeps:
  assumes "steps (pool_step config router) s ls t" and "P (pl_server s)"
  shows "P (pl_server t)"
  using assms by (induction rule: steps.induct) (auto intro: pool_step_keeps)

end

subsection \<open>Ownership\<close>

text \<open>
  One token per open connection: its armed registration, its event in the queue, or the
  worker that has taken the event.
\<close>

fun holds :: "worker \<Rightarrow> int option" where
  "holds (WTook ev) = Some (ev_fd ev)"
| "holds (WOwns ev obj) = Some (ev_fd ev)"
| "holds (WReleasing ev obj a) = Some (ev_fd ev)"
| "holds (WFinishing ev a) = Some (ev_fd ev)"
| "holds _ = None"


definition armed :: "int \<Rightarrow> 'a PoolLoop \<Rightarrow> nat" where
  "armed fd s = (case map_of (pl_epoll s) fd of Some (Some i) \<Rightarrow> 1 | _ \<Rightarrow> 0)"

definition tokens :: "int \<Rightarrow> 'a PoolLoop \<Rightarrow> nat" where
  "tokens fd s = armed fd s + count_if (\<lambda>e. ev_fd e = fd) (pl_workQueue s) +
     count_if (\<lambda>w. holds w = Some fd) (pl_workers s)"









lemma tokens_other:
  "tokens fd (s\<lparr>pl_objects := f\<rparr>) = tokens fd s"
  "tokens fd (s\<lparr>pl_objects := f, pl_server := sv\<rparr>) = tokens fd s"
  by (simp_all add: tokens_def armed_def)


















subsection \<open>Runs\<close>






section \<open>Properties of the worker pool\<close>










end
