(* ===== verification/Reactor_Loop.thy ===== *)
theory Reactor_Loop
  imports Event_Loop Net
begin

section \<open>The multi-reactor event loop\<close>

text \<open>
  \<open>ReactorLoop\<close> of \<open>src/include/event_loop.h\<close> and \<open>src/src/reactor_loop.cpp\<close>. Every thread
  owns a \<open>Reactor\<close>: its listener, its epoll instance and its table of connections. What the
  threads share is the process (the set of open client descriptors) and the server behind the
  handler. An operation works on one reactor and on what is shared; a step of the loop is one
  turn of one thread: an accepted connection, a readiness event, a sweep, or its return.
\<close>

subsection \<open>State\<close>

record Reactor =
  re_fds :: loop_fds
  re_stopEvent :: bool
  re_returned :: bool
  re_connections :: "(int, Connection) unordered_map"
  re_epoll :: "(int, interest) unordered_map"

record 'a ReactorLoop =
  rl_running :: bool
  rl_reactors :: "Reactor list"
  rl_open :: "int set"
  rl_server :: "'a server"

definition Reactor_init :: "loop_fds \<Rightarrow> Reactor" where
  "Reactor_init fds = \<lparr>re_fds = fds, re_stopEvent = False, re_returned = False, re_connections = [], re_epoll = []\<rparr>"

text \<open>A reactor with the state its thread shares with the others.\<close>

type_synonym 'a turn = "Reactor \<times> int set \<times> 'a server"

subsection \<open>Starting\<close>





subsection \<open>Operations of one thread\<close>

definition reactor_accept :: "int \<Rightarrow> int \<Rightarrow> 'a turn \<Rightarrow> 'a turn" where
  "reactor_accept now clientFd = (\<lambda>(r, op, sv).
     (r\<lparr>re_connections := AList.update clientFd (Connection_init now clientFd) (re_connections r),
        re_epoll := AList.update clientFd WantIn (re_epoll r)\<rparr>,
      insert clientFd op, gauge_opened sv))"

definition reactor_close :: "int \<Rightarrow> 'a turn \<Rightarrow> 'a turn" where
  "reactor_close fd = (\<lambda>(r, op, sv).
     if map_of (re_connections r) fd = None then (r, op, sv)
     else (r\<lparr>re_connections := AList.delete fd (re_connections r),
             re_epoll := AList.delete fd (re_epoll r)\<rparr>,
           op - {fd}, gauge_closed sv))"

text \<open>\<open>EPOLL_CTL_MOD\<close>, which fails for a descriptor that is not registered.\<close>

definition reactor_modify :: "int \<Rightarrow> interest \<Rightarrow> 'a turn \<Rightarrow> 'a turn" where
  "reactor_modify fd i = (\<lambda>(r, op, sv).
     if map_of (re_epoll r) fd = None then reactor_close fd (r, op, sv)
     else (r\<lparr>re_epoll := AList.update fd i (re_epoll r)\<rparr>, op, sv))"

definition reactor_event ::
  "'a server Router \<Rightarrow> call_env \<Rightarrow> int \<Rightarrow> epoll_event \<Rightarrow> 'a turn \<Rightarrow> 'a turn option" where
  "reactor_event router env fd ev = (\<lambda>(r, op, sv).
     case map_of (re_connections r) fd of
       None \<Rightarrow> Some (r, op, sv)
     | Some connection \<Rightarrow>
         (case dispatch_event router env ev connection sv of
            None \<Rightarrow> None
          | Some (action, c, sv, out) \<Rightarrow>
              let t = (r\<lparr>re_connections := AList.update fd c (re_connections r)\<rparr>, op, sv)
              in Some (case action of
                         Close \<Rightarrow> reactor_close fd t
                       | WaitWrite \<Rightarrow> reactor_modify fd WantOut t
                       | WaitRead \<Rightarrow> reactor_modify fd WantIn t)))"

definition reactor_sweep :: "ServerConfig \<Rightarrow> int \<Rightarrow> 'a turn \<Rightarrow> 'a turn" where
  "reactor_sweep config now t =
     (let expired = map fst (filter (\<lambda>(fd, c). idle_expired config now c) (re_connections (fst t)))
      in fold reactor_close expired t)"

subsection \<open>Steps of the loop\<close>

text \<open>\<open>stop\<close> clears the flag and writes to every eventfd; it closes nothing.\<close>

definition reactor_stop :: "'a ReactorLoop \<Rightarrow> 'a ReactorLoop" where
  "reactor_stop s =
     (if \<not> rl_running s then s
      else s\<lparr>rl_running := False,
             rl_reactors := map (\<lambda>r. if lf_stopFd (re_fds r) \<ge> 0 then r\<lparr>re_stopEvent := True\<rparr> else r)
               (rl_reactors s)\<rparr>)"

text \<open>
  \<open>reactorLoop\<close> returns on the stop event, when the flag is found cleared, or when
  \<open>epoll_wait\<close> fails.
\<close>

definition reactor_leave :: "bool \<Rightarrow> bool \<Rightarrow> 'a turn \<Rightarrow> 'a turn option" where
  "reactor_leave run failed = (\<lambda>(r, op, sv).
     if failed \<or> re_stopEvent r \<or> \<not> run then Some (r\<lparr>re_returned := True\<rparr>, op, sv) else None)"

datatype reactor_op =
    OpAccept int int
  | OpEvent call_env int epoll_event
  | OpSweep int
  | OpLeave bool

datatype reactor_label = Thread nat reactor_op | StopReactors

fun turn_op ::
  "ServerConfig \<Rightarrow> 'a server Router \<Rightarrow> bool \<Rightarrow> reactor_op \<Rightarrow> 'a turn \<Rightarrow> 'a turn option" where
  "turn_op config router run (OpAccept now fd) t =
     (if fd \<in> fst (snd t) then None else Some (reactor_accept now fd t))"
| "turn_op config router run (OpEvent env fd ev) t = reactor_event router env fd ev t"
| "turn_op config router run (OpSweep now) t = Some (reactor_sweep config now t)"
| "turn_op config router run (OpLeave failed) t = reactor_leave run failed t"

fun reactor_apply ::
  "ServerConfig \<Rightarrow> 'a server Router \<Rightarrow> reactor_label \<Rightarrow> 'a ReactorLoop \<Rightarrow> 'a ReactorLoop option" where
  "reactor_apply config router (Thread i a) s =
     (if i < length (rl_reactors s) \<and> \<not> re_returned (rl_reactors s ! i) then
        (case turn_op config router (rl_running s) a (rl_reactors s ! i, rl_open s, rl_server s) of
           None \<Rightarrow> None
         | Some (r, op, sv) \<Rightarrow>
             Some (s\<lparr>rl_reactors := (rl_reactors s)[i := r], rl_open := op, rl_server := sv\<rparr>))
      else None)"
| "reactor_apply config router StopReactors s = Some (reactor_stop s)"

definition reactor_step ::
  "ServerConfig \<Rightarrow> 'a server Router \<Rightarrow> 'a ReactorLoop \<Rightarrow> reactor_label \<Rightarrow> 'a ReactorLoop \<Rightarrow> bool" where
  "reactor_step config router s l t \<longleftrightarrow> reactor_apply config router l s = Some t"

subsection \<open>One thread's table\<close>











subsection \<open>All threads\<close>







subsection \<open>Invariants of the server behind the reactors\<close>

abbreviation turn_server :: "'a turn \<Rightarrow> 'a server" where
  "turn_server t \<equiv> snd (snd t)"

context loop_invariant
begin

lemma reactor_close_keeps: "P (turn_server t) \<Longrightarrow> P (turn_server (reactor_close fd t))"
  by (cases t) (simp add: reactor_close_def keeps_closed)

lemma reactor_modify_keeps: "P (turn_server t) \<Longrightarrow> P (turn_server (reactor_modify fd i t))"
  using reactor_close_keeps [of t fd] by (cases t) (simp add: reactor_modify_def)

lemma reactor_sweep_keeps: "P (turn_server t) \<Longrightarrow> P (turn_server (reactor_sweep config now t))"
proof -
  have "P (turn_server u) \<Longrightarrow> P (turn_server (fold reactor_close ks u))" for ks and u :: "'a turn"
    by (induction ks arbitrary: u) (simp_all add: reactor_close_keeps)
  then show "P (turn_server t) \<Longrightarrow> P (turn_server (reactor_sweep config now t))"
    by (simp add: reactor_sweep_def Let_def)
qed

lemma reactor_event_keeps:
  "P (turn_server t) \<Longrightarrow> reactor_event router env fd ev t = Some u \<Longrightarrow> P (turn_server u)"
  by (auto simp: reactor_event_def Let_def dispatch_keeps reactor_close_keeps reactor_modify_keeps
      split: prod.splits option.splits Action.splits)

lemma turn_op_keeps:
  "P (turn_server t) \<Longrightarrow> turn_op config router run a t = Some u \<Longrightarrow> P (turn_server u)"
  by (cases a) (auto simp: reactor_accept_def reactor_leave_def keeps_opened reactor_sweep_keeps
      reactor_event_keeps split: if_splits prod.splits)

lemma reactor_step_keeps: "P (rl_server s) \<Longrightarrow> reactor_step config router s l t \<Longrightarrow> P (rl_server t)"
  using turn_op_keeps
  by (cases l) (fastforce simp: reactor_step_def reactor_stop_def split: if_splits option.splits)+

lemma reactors_keep:
  assumes "steps (reactor_step config router) s ls t" and "P (rl_server s)"
  shows "P (rl_server t)"
  using assms by (induction rule: steps.induct) (auto intro: reactor_step_keeps)

end

subsection \<open>Runs\<close>

fun reactor_run ::
  "ServerConfig \<Rightarrow> 'a server Router \<Rightarrow> reactor_label list \<Rightarrow> 'a ReactorLoop \<Rightarrow> 'a ReactorLoop option" where
  "reactor_run config router [] s = Some s"
| "reactor_run config router (l # ls) s =
     (case reactor_apply config router l s of None \<Rightarrow> None | Some t \<Rightarrow> reactor_run config router ls t)"




section \<open>Properties of the reactors\<close>



definition sample_reactors :: "nat ReactorLoop" where
  "sample_reactors = \<lparr>rl_running = True, rl_reactors = map (\<lambda>i. Reactor_init \<lparr>lf_listenFd = 3 * i,
     lf_epollFd = 3 * i + 1, lf_stopFd = 3 * i + 2\<rparr>) [0, 1, 2, 3], rl_open = {}, rl_server = sample_server\<rparr>"

definition hangup_event :: epoll_event where
  "hangup_event = \<lparr>EPOLLOUT = False, EPOLLHUP = True, EPOLLERR = False\<rparr>"

definition no_call :: call_env where
  "no_call = \<lparr>env_now = 1, env_recvs = [RecvEAGAIN], env_sends = [], env_durations = []\<rparr>"

definition shutdown_trace :: "reactor_label list" where
  "shutdown_trace = [Thread 0 (OpAccept 0 20), Thread 1 (OpAccept 0 21), Thread 1 (OpEvent no_call 21 hangup_event),
     StopReactors, Thread 0 (OpLeave False), Thread 1 (OpLeave False), Thread 2 (OpLeave False), Thread 3 (OpLeave False)]"




text \<open>
  A stop leaves the reactors' connections open. After a stop and the return of every
  reactor thread, a connection that was open still is, and \<open>activeConnections\<close> still counts
  it, although a stop is documented to close live connections.
\<close>

theorem reactor_stop_leaves_connections_open:
  "map_option (\<lambda>s. (list_all re_returned (rl_reactors s), rl_open s, active_gauge (rl_server s)))
     (reactor_run ServerConfig_init sample_router shutdown_trace sample_reactors) = Some (True, {20}, 1)"
  by code_simp

end
