(* ===== verification/App.thy ===== *)
theory App
  imports Config Kv_Store Static_Files Pool_Loop Reactor_Loop
begin

section \<open>The application\<close>

text \<open>
  The second half of \<open>main\<close> in \<open>src/src/main.cpp\<close>: the objects of the server, the routing
  table with its handlers, and the loop that is started. A handler's closure holds references
  to these objects, so it works on the server state; the uptime that \<open>/api/stats\<close> reports is
  a reading of the clock, given as a function of the state it is read in.
\<close>

subsection \<open>Objects and handlers\<close>

record app =
  ap_static :: StaticFileHandler
  ap_kv :: KvStore

definition static_handler :: "filesystem \<Rightarrow> app server Handler" where
  "static_handler fs request sv =
     (case serve_static fs request (ap_static (sv_app sv)) of
        (response, h) \<Rightarrow> (response, sv\<lparr>sv_app := (sv_app sv)\<lparr>ap_static := h\<rparr>\<rparr>))"

definition healthz_handler :: "app server Handler" where
  "healthz_handler request sv = (response_json ''{\"status\":\"ok\"}'' 200, sv)"

definition stats_handler :: "(app server \<Rightarrow> int) \<Rightarrow> ServerConfig \<Rightarrow> app server Handler" where
  "stats_handler uptime config request sv =
     (response_json (metrics_toJson (uptime sv) (cfg_mode config) (cfg_threads config)
        (cacheHits (sh_fileManager (ap_static (sv_app sv))))
        (cacheMisses (sh_fileManager (ap_static (sv_app sv)))) (sv_metrics sv)) 200, sv)"

definition kv_query_handler :: "app server Handler" where
  "kv_query_handler request sv =
     (let key = queryParam request ''key''
      in (if key = [] then kv_list (ap_kv (sv_app sv)) else kv_get key (ap_kv (sv_app sv)), sv))"

definition kv_post_handler :: "app server Handler" where
  "kv_post_handler request sv =
     (case kv_put request (ap_kv (sv_app sv)) of
        (response, store) \<Rightarrow> (response, sv\<lparr>sv_app := (sv_app sv)\<lparr>ap_kv := store\<rparr>\<rparr>))"

definition kv_delete_handler :: "app server Handler" where
  "kv_delete_handler request sv =
     (case kv_remove (queryParam request ''key'') (ap_kv (sv_app sv)) of
        (response, store) \<Rightarrow> (response, sv\<lparr>sv_app := (sv_app sv)\<lparr>ap_kv := store\<rparr>\<rparr>))"

definition app_router :: "filesystem \<Rightarrow> (app server \<Rightarrow> int) \<Rightarrow> ServerConfig \<Rightarrow> app server Router" where
  "app_router fs uptime config =
     (let router = setFallback (static_handler fs) Router_init;
          router = router_add ''GET'' ''/healthz'' healthz_handler router;
          router = router_add ''GET'' ''/api/stats'' (stats_handler uptime config) router;
          router = router_add ''GET'' ''/api/kv'' kv_query_handler router;
          router = router_add ''POST'' ''/api/kv'' kv_post_handler router
      in router_add ''DELETE'' ''/api/kv'' kv_delete_handler router)"

text \<open>
  \<open>main\<close> up to \<open>loop->run()\<close>. The handler of \<open>/api/stats\<close> refers to the configuration as the
  choice of the loop leaves it.
\<close>

definition app_init :: "filesystem \<Rightarrow> string option \<Rightarrow> ServerConfig \<Rightarrow> app server" where
  "app_init fs link config =
     \<lparr>sv_app = \<lparr>ap_static = StaticFileHandler_init fs (projectRoot link @ ''/static'') (cfg_cacheCapacity config),
        ap_kv = KvStore_init\<rparr>,
      sv_metrics = Metrics_init, sv_log = []\<rparr>"

definition main_start ::
  "filesystem \<Rightarrow> (app server \<Rightarrow> int) \<Rightarrow> string option \<Rightarrow> (string \<Rightarrow> string option) \<Rightarrow> string list \<Rightarrow>
     string + loop_kind \<times> ServerConfig \<times> app server Router \<times> app server" where
  "main_start fs uptime link getenv args =
     bind_result (main_config fs link getenv args) (\<lambda>config.
       let sv = app_init fs link config;
           (kind, config) = choose_loop config
       in Inr (kind, config, app_router fs uptime config, sv))"

subsection \<open>The routing table\<close>

lemma app_routes:
  "routes (app_router fs uptime config) =
     [((''DELETE'', ''/api/kv''), kv_delete_handler), ((''GET'', ''/api/kv''), kv_query_handler),
      ((''GET'', ''/api/stats''), stats_handler uptime config), ((''GET'', ''/healthz''), healthz_handler),
      ((''POST'', ''/api/kv''), kv_post_handler)]"
  by (simp add: app_router_def Let_def router_add_def setFallback_def Router_init_def)

lemma app_known: "knownPaths (app_router fs uptime config) = {''/api/kv'', ''/api/stats'', ''/healthz''}"
  by (simp add: app_router_def Let_def router_add_def setFallback_def Router_init_def)

lemma app_fallback: "fallback (app_router fs uptime config) = Some (static_handler fs)"
  by (simp add: app_router_def Let_def router_add_def setFallback_def Router_init_def)

definition method_not_allowed :: "string \<Rightarrow> HttpResponse" where
  "method_not_allowed allowed = (response_error 405)\<lparr>rs_extraHeaders := [(''Allow'', allowed)]\<rparr>"

lemma app_route:
  "route (app_router fs uptime config) rq sv =
     (let m = (if rq_method rq = ''HEAD'' then ''GET'' else rq_method rq)
      in if rq_path rq = ''/api/kv'' then
           (if m = ''GET'' then kv_query_handler rq sv
            else if m = ''POST'' then kv_post_handler rq sv
            else if m = ''DELETE'' then kv_delete_handler rq sv
            else (method_not_allowed ''DELETE, GET, HEAD, POST'', sv))
         else if rq_path rq = ''/api/stats'' then
           (if m = ''GET'' then stats_handler uptime config rq sv else (method_not_allowed ''GET, HEAD'', sv))
         else if rq_path rq = ''/healthz'' then
           (if m = ''GET'' then healthz_handler rq sv else (method_not_allowed ''GET, HEAD'', sv))
         else static_handler fs rq sv)"
proof -
  have e: "rs_extraHeaders (response_error 405) = []" by (simp add: response_error_def HttpResponse_init_def Let_def)
  show ?thesis
    by (simp add: route_def app_routes app_known app_fallback Let_def method_not_allowed_def e)
qed

text \<open>No handler touches the gauge.\<close>

lemma app_keeps_gauge: "keeps_gauge (app_router fs uptime config)"
proof -
  have "active_gauge (sv\<lparr>sv_app := a\<rparr>) = active_gauge sv" for sv :: "app server" and a
    by (simp add: active_gauge_def)
  then show ?thesis
    by (simp add: keeps_gauge_def app_route Let_def static_handler_def kv_query_handler_def kv_post_handler_def
        kv_delete_handler_def stats_handler_def healthz_handler_def case_prod_beta)
qed

lemma app_init_gauge: "active_gauge (app_init fs link config) = 0"
  by (simp add: app_init_def active_gauge_def Metrics_init_def)

subsection \<open>The invariant of the application\<close>

text \<open>The store within its limits, and a cache that holds what is on disk.\<close>

definition app_inv :: "filesystem \<Rightarrow> app server \<Rightarrow> bool" where
  "app_inv fs sv \<longleftrightarrow> kv_inv (ap_kv (sv_app sv)) \<and> coherent fs (sh_fileManager (ap_static (sv_app sv)))"

lemma coherent_serve:
  "coherent fs (sh_fileManager h) \<Longrightarrow> coherent fs (sh_fileManager (snd (serve_static fs rq h)))"
  by (rule serve_static_spec(2))

interpretation application: loop_invariant "app_router fs uptime config" "app_inv fs" for fs uptime config
proof unfold_locales
  fix sv :: "app server" and rq
  assume inv: "app_inv fs sv"
  show "app_inv fs (snd (route (app_router fs uptime config) rq sv))"
    using inv kv_inv_put [of "ap_kv (sv_app sv)" rq] kv_inv_remove [of "ap_kv (sv_app sv)" "queryParam rq ''key''"]
      coherent_serve [of fs "ap_static (sv_app sv)" rq]
    by (simp add: app_route app_inv_def Let_def static_handler_def kv_query_handler_def kv_post_handler_def
        kv_delete_handler_def stats_handler_def healthz_handler_def case_prod_beta)
qed (simp_all add: app_inv_def record_response_def gauge_opened_def gauge_closed_def)

lemma app_inv_init: "app_inv fs (app_init fs link config)"
  by (simp add: app_inv_def app_init_def kv_inv_init StaticFileHandler_init_def coherent_init)

subsection \<open>A client of the store\<close>

definition client_put :: "string \<Rightarrow> string \<Rightarrow> client_request" where
  "client_put k v =
     (let body = renderForm [(''key'', k), (''value'', v)]
      in (''POST'', ''/api/kv'', ''HTTP/1.1'', [(''Content-Type'', ''application/x-www-form-urlencoded''),
            (''Content-Length'', dec_nat (length body))], body))"

definition client_get :: "string \<Rightarrow> client_request" where
  "client_get k = (''GET'', ''/api/kv?key='' @ urlEncode k, ''HTTP/1.1'', [], [])"

lemma urlEncode_length: "length (urlEncode s) \<le> 3 * length s"
  by (induction s) (simp_all add: urlEncode_def urlEncode_char_def)

lemma urlEncode_names: "urlEncode ''key'' = ''key''" "urlEncode ''value'' = ''value''"
  by code_simp+

lemma put_body: "renderForm [(''key'', k), (''value'', v)] = ''key='' @ urlEncode k @ ''&value='' @ urlEncode v"
  by (simp add: renderForm_def renderFormPair_def urlEncode_names)

lemma urlEncode_no_space: "CHR '' '' \<notin> set (urlEncode s)"
proof -
  have x: "isxdigit d \<Longrightarrow> d \<noteq> CHR '' ''" and p: "url_plain d \<Longrightarrow> d \<noteq> CHR '' ''" for d
    by (auto simp: isxdigit_def isdigit_def url_plain_def)
  have "CHR '' '' \<notin> set (urlEncode_char c)" for c
  proof -
    have "ord_c c div 16 < 16" "ord_c c mod 16 < 16"
      using ord_c_less [of c] by (simp_all add: less_mult_imp_div_less)
    from this [THEN xdigit_char_isxdigit, THEN x] p [of c] show ?thesis by (auto simp: urlEncode_char_def)
  qed
  then show ?thesis by (auto simp: urlEncode_def)
qed

lemma put_headers:
  "collect_headers [(''Content-Type'', t), (''Content-Length'', n)] [] = [(''content-type'', t), (''content-length'', n)]"
proof -
  have "toLower ''Content-Type'' = ''content-type''" "toLower ''Content-Length'' = ''content-length''" by code_simp+
  then show ?thesis by (simp add: collect_headers_def add_header_def)
qed

lemma client_put_seen:
  "rq_method (request_seen (client_put k v)) = ''POST''" "rq_path (request_seen (client_put k v)) = ''/api/kv''"
  "rq_keepAlive (request_seen (client_put k v))"
  "put_fields (request_seen (client_put k v)) = Some [(''key'', k), (''value'', v)]"
proof -
  have f: "find_char (CHR ''?'') ''/api/kv'' = None" by simp
  note defs = client_put_def seen_request_def set_keepAlive_def split_target_def f Let_def header_def
    HttpRequest_init_def toLower_def tolower_def contains_str_def put_headers
  show "rq_method (request_seen (client_put k v)) = ''POST''" "rq_path (request_seen (client_put k v)) = ''/api/kv''"
    "rq_keepAlive (request_seen (client_put k v))"
    by (simp_all add: defs)
  have "parseFormEncoded (renderForm [(''key'', k), (''value'', v)]) = [(''key'', k), (''value'', v)]"
    by (simp add: parseFormEncoded_fold)
  moreover have "rq_body (request_seen (client_put k v)) = renderForm [(''key'', k), (''value'', v)]"
    by (simp add: client_put_def seen_request_def Let_def)
  moreover have "header (request_seen (client_put k v)) ''content-type'' = ''application/x-www-form-urlencoded''"
    by (simp add: defs)
  moreover have "\<not> contains_str ''application/json'' ''application/x-www-form-urlencoded''" by code_simp
  ultimately show "put_fields (request_seen (client_put k v)) = Some [(''key'', k), (''value'', v)]"
    by (simp add: put_fields_def)
qed

lemma client_get_seen:
  "rq_method (request_seen (client_get k)) = ''GET''" "rq_path (request_seen (client_get k)) = ''/api/kv''"
  "rq_keepAlive (request_seen (client_get k))" "queryParam (request_seen (client_get k)) ''key'' = k"
proof -
  have f: "find_char (CHR ''?'') (''/api/kv?key='' @ urlEncode k) = Some 7" by simp
  have "rq_query (request_seen (client_get k)) = renderForm [(''key'', k)]"
    by (simp add: client_get_def seen_request_def collect_headers_def set_keepAlive_def split_target_def f Let_def
        header_def HttpRequest_init_def renderForm_def renderFormPair_def urlEncode_names contains_str_def toLower_def)
  moreover have "list_all url_plain ''key''" by code_simp
  ultimately show "queryParam (request_seen (client_get k)) ''key'' = k"
    using queryParam_loop_form [of "[(''key'', k)]" "''key''"] by (simp add: queryParam_def)
  show "rq_method (request_seen (client_get k)) = ''GET''" "rq_path (request_seen (client_get k)) = ''/api/kv''"
    "rq_keepAlive (request_seen (client_get k))"
    by (simp_all add: client_get_def seen_request_def collect_headers_def set_keepAlive_def split_target_def f Let_def
        header_def HttpRequest_init_def contains_str_def toLower_def substr_def)
qed

lemma client_get_valid: "length k \<le> maxKeyLength \<Longrightarrow> request_valid (client_get k)"
  using urlEncode_length [of k] urlEncode_no_space [of k] urlEncode_chars [of CR k]
  by (auto simp: client_get_def client_request_ok_def maxKeyLength_def maxRequestLine_def maxHeaderBlock_def
      header_block_def collect_headers_def)

lemma dec_nat_length: "length (dec_nat n) \<le> n + 1"
proof (induction n rule: dec_nat.induct)
  case (1 n)
  then show ?case by (subst dec_nat.simps) auto
qed

lemma digits_header: "client_header_ok (''Content-Length'', dec_nat n)"
proof -
  have d: "\<forall>c\<in>set (dec_nat n). isdigit c" by (rule dec_nat_digits)
  have "isdigit c \<Longrightarrow> \<not> blank c \<and> c \<noteq> CR" for c by (auto simp: isdigit_def blank_def)
  with d have "\<forall>c\<in>set (dec_nat n). \<not> blank c \<and> c \<noteq> CR" by blast
  then show ?thesis
    by (auto simp: client_header_ok_def trimmed_def blank_def hd_in_set last_in_set)
qed

lemma client_put_valid:
  assumes "length k \<le> maxKeyLength" and "length v \<le> maxValueLength"
  shows "request_valid (client_put k v)"
proof -
  let ?body = "renderForm [(''key'', k), (''value'', v)]"
  have len: "length ?body \<le> 1000"
    using urlEncode_length [of k] urlEncode_length [of v] assms
    by (simp add: put_body maxKeyLength_def maxValueLength_def)
  have "client_header_ok (''Content-Type'', ''application/x-www-form-urlencoded'')" by code_simp
  moreover have "?body \<noteq> []" by (simp add: put_body)
  ultimately show ?thesis
    using len dec_nat_length [of "length ?body"] digits_header [of "length ?body"]
    by (simp add: client_put_def Let_def client_request_ok_def put_headers maxRequestLine_def maxHeaderBlock_def
        maxBody_def header_block_def header_line_def)
qed

text \<open>What the two requests of the client do, one after the other.\<close>

lemma kv_put_accepted:
  assumes "k \<noteq> []" and "length k \<le> maxKeyLength" and "length v \<le> maxValueLength"
    and "put_fields rq = Some [(''key'', k), (''value'', v)]"
    and "map_of (kv_entries store) k \<noteq> None \<or> length (kv_entries store) < maxEntries"
  shows "kv_put rq store =
     (response_json (kv_pair_json k v) (if map_of (kv_entries store) k = None then 201 else 200),
      store\<lparr>kv_entries := map_insert k v (kv_entries store)\<rparr>)"
  using assms by (auto simp: kv_put_def Let_def field_or_empty_def)

lemma kv_pipeline:
  assumes "k \<noteq> []" and "length k \<le> maxKeyLength" and "length v \<le> maxValueLength"
    and "store = ap_kv (sv_app sv)" and "map_inv (kv_entries store)"
    and "map_of (kv_entries store) k \<noteq> None \<or> length (kv_entries store) < maxEntries"
  shows "\<exists>sv'. serve_pipeline (app_router fs uptime config) durs
       (map request_seen [client_put k v, client_get k]) sv =
     (serialize (response_json (kv_pair_json k v) (if map_of (kv_entries store) k = None then 201 else 200)) False @
      serialize (response_json (kv_pair_json k v) 200) False, False, sv') \<and>
     ap_kv (sv_app sv') = store\<lparr>kv_entries := map_insert k v (kv_entries store)\<rparr> \<and>
     ap_static (sv_app sv') = ap_static (sv_app sv)"
proof -
  have keep: "(response_json p s)\<lparr>rs_keepAlive := True\<rparr> = response_json p s" for p s
    by (simp add: response_json_def HttpResponse_init_def)
  have "map_of (map_insert k v (kv_entries store)) k = Some v"
    using ordered.lookup_update_same [OF assms(5)] by simp
  then show ?thesis
    using assms(1,4) client_put_seen [of k v] client_get_seen [of k]
      kv_put_accepted [OF assms(1-3) client_put_seen(4) assms(6)]
    by (simp add: app_route kv_post_handler_def kv_query_handler_def Let_def kv_get_def keep record_response_def)
qed

subsection \<open>The server that main starts\<close>

lemma main_start_result:
  assumes "main_start fs uptime link getenv args = Inr (kind, config, router, sv)"
  shows "1 \<le> cfg_threads config" and "router = app_router fs uptime config"
    and "app_inv fs sv" and "active_gauge sv = 0"
proof -
  from assms obtain c0 where c0: "main_config fs link getenv args = Inr c0"
    and r: "(kind, config) = choose_loop c0" "router = app_router fs uptime config" "sv = app_init fs link c0"
    by (fastforce simp: main_start_def bind_result_Inr Let_def case_prod_beta prod_eq_iff)
  from c0 have "1 \<le> cfg_threads c0" by (auto simp: main_config_def Let_def bind_result_Inr)
  with r(1) show "1 \<le> cfg_threads config" by (auto simp: choose_loop_def split: if_splits)
  show "router = app_router fs uptime config" "app_inv fs sv" "active_gauge sv = 0"
    using r app_inv_init app_init_gauge by simp_all
qed

lemma app_inv_promises:
  assumes "app_inv fs sv"
  shows "kv_inv (ap_kv (sv_app sv)) \<and>
     (\<forall>rq. fst (serve_static fs rq (ap_static (sv_app sv))) = spec_static fs (sh_staticRoot (ap_static (sv_app sv))) rq)"
  using assms by (simp add: app_inv_def serve_static_spec(1))

end
