(* ===== verification/Spec2Isabelle.thy ===== *)
theory Spec2Isabelle
  imports App
begin

text \<open>
  A verification of the multithreaded HTTP server under \<open>src/\<close>: a C++ program that serves
  static files and an in-memory key/value store over HTTP/1.1, with one of two event loops.

  \<^bold>\<open>The program.\<close> \<open>main\<close> reads the configuration (\<open>src/src/utils.cpp\<close>, \<open>src/src/main.cpp\<close>),
  builds the objects of the server and a routing table over them, and runs a \<open>PoolLoop\<close> or a
  \<open>ReactorLoop\<close>. A loop owns the sockets; on a readiness event it calls the
  \<open>ConnectionHandler\<close>, which receives, feeds the incremental \<open>RequestParser\<close>, asks the
  \<open>Router\<close> for each complete request, appends the serialized response to the connection's
  write buffer, counts it in \<open>Metrics\<close>, logs it through \<open>Logger\<close>, and flushes.

  \<^bold>\<open>The theories\<close>, each with the definitions in the order of its source, the invariants and
  lemmas, and the properties of the component:

  \<^item> \<open>Prelude\<close>: fact collections, association lists as \<open>std::map\<close> and \<open>std::unordered_map\<close>
    behind the locale \<open>assoc_container\<close>, labelled steps and the locale \<open>step_invariant\<close>.
  \<^item> \<open>Cpp_String\<close>: what the source uses of \<open>std::string\<close>, \<open>getline\<close>, \<open>stoi\<close>, \<open>strtoll\<close>.
  \<^item> \<open>Codec\<close> (\<open>api.cpp\<close>: escaping and body formats), \<open>Http\<close> (\<open>http.cpp\<close>: requests and
    responses): round trips with encoders and a client-side reader, error branches.
  \<^item> \<open>Request_Parser\<close> (\<open>http.cpp\<close>): the parser as a state machine with its loop; independence
    of how the bytes are cut, the round trip with a client, bounds and error statuses.
  \<^item> \<open>Kv_Store\<close> (\<open>api.cpp\<close>), \<open>Lru_Cache\<close> (\<open>lru_cache.cpp\<close>): invariants, and refinement of a
    finite map with a capacity and of a list in order of last use.
  \<^item> \<open>File_System\<close> (POSIX path resolution and the parts of \<open>std::filesystem\<close> that are called),
    \<open>Static_Files\<close> (\<open>file_manager.cpp\<close>, \<open>handlers.cpp\<close>): confinement to the root, a cache that
    cannot be observed, and the two ways out of the root.
  \<^item> \<open>Router\<close> (\<open>router.cpp\<close>), \<open>Metrics\<close> (\<open>metrics.cpp\<close>, doubles in exact IEEE arithmetic,
    counters as 64-bit words), \<open>Logger\<close> (\<open>logger.cpp\<close>, callers and drain thread interleaved).
  \<^item> \<open>Connection_Handler\<close> (\<open>connection_handler.cpp\<close>, \<open>connection.h\<close>): receive, parse and flush
    loops; the bytes sent are the queued responses, pipelines are answered in order.
  \<^item> \<open>Net\<close> (\<open>net.cpp\<close>): listeners over a map of open descriptors.
  \<^item> \<open>Event_Loop\<close> (\<open>event_loop.h\<close>): what both loops share, and the locales they rest on:
    \<open>connection_table\<close> (a table and the gauge that counts it), \<open>server_invariant\<close> and
    \<open>loop_invariant\<close> (what handlers and loops keep of the server state).
  \<^item> \<open>Pool_Loop\<close> (\<open>pool_loop.cpp\<close>), \<open>Reactor_Loop\<close> (\<open>reactor_loop.cpp\<close>): the loops as
    transition systems; both interpret \<open>connection_table\<close> and \<open>step_invariant\<close>.
  \<^item> \<open>Config\<close> (\<open>utils.cpp\<close>, first half of \<open>main.cpp\<close>), \<open>App\<close> (second half): precedence of
    settings, the handlers and the routing table, and \<open>loop_invariant\<close> for them.
  \<^item> This theory: properties that span components, from \<open>main\<close> to the answer of a client.

  \<^bold>\<open>How code is rendered.\<close> A struct or class is a record, an operation a function that returns
  the updated record; errors are values (\<open>option\<close>, a sum, or the status in the parser). \<open>int\<close>
  values that only count or compare are \<open>int\<close>; counters that wrap, the port and flag words are
  machine words. What comes from outside (the clock, the results of system calls, the file
  system, \<open>getenv\<close>, \<open>argv\<close>) is an argument. Where a mutex covers a whole operation the
  operation is one step; the loops and the logger are relations over such steps, and their
  properties hold for every interleaving. Loops end by measure; the receive and flush loops
  consume the list of system-call results, and answer \<^term>\<open>None\<close> when that list is too
  short, so that properties name a list that is long enough.

  \<^bold>\<open>Bounds.\<close> The limits are the source's: 8 KiB request line, 16 KiB headers, 1 MiB body, 50
  entries, keys of 64 and values of 256 bytes; path resolution follows 40 symbolic links, as
  Linux does.

  \<^bold>\<open>Not modelled.\<close> In the loops, one call of the connection handler is one step, although
  the calls of different threads overlap; each component it reaches is modelled with its own
  mutex as a sequence of atomic calls. \<open>epoll_ctl(ADD)\<close> of a fresh descriptor succeeds, and
  \<open>accept\<close> returns descriptors that are not open; batching of events and the one-second
  period of the sweep only restrict when steps happen and are left out. Signal registration,
  the console output and the exit code of \<open>main\<close>, condition variables as a means of waiting,
  \<open>TCP_NODELAY\<close>, and destructors that only join threads are left out; tests, benchmarks,
  build and deployment files have no logic of the server.
\<close>

section \<open>Properties of the whole server\<close>

text \<open>
  C22: What the server answers, by method and path. A HEAD request is routed as GET. The store
  answers GET, POST and DELETE on \<open>/api/kv\<close>; \<open>/api/stats\<close> and \<open>/healthz\<close> answer GET; any
  other method on these paths is answered 405 with the exact list of allowed methods and
  changes nothing; every other path is a static file, whatever the method.
\<close>

theorem app_dispatch:
  "route (app_router fs uptime config) rq sv =
     (let m = (if rq_method rq = ''HEAD'' then ''GET'' else rq_method rq)
      in if rq_path rq = ''/api/kv'' then
           (if m = ''GET'' then kv_query_handler rq sv
            else if m = ''POST'' then kv_post_handler rq sv
            else if m = ''DELETE'' then kv_delete_handler rq sv
            else (method_not_allowed ''DELETE, GET, HEAD, POST'', sv))
         else if rq_path rq = ''/api/stats'' then
           (if m = ''GET'' then stats_handler uptime config rq sv else (method_not_allowed ''GET, HEAD'', sv))
         else if rq_path rq = ''/healthz'' then
           (if m = ''GET'' then healthz_handler rq sv else (method_not_allowed ''GET, HEAD'', sv))
         else static_handler fs rq sv)"
  by (rule app_route)

text \<open>
  C18: Store and read over one connection. A client posts a key and a value of any bytes within
  the limits, form-encoded, and asks for the key in a second request, pipelined or not; the
  bytes arrive in any chunks. If the store has room or the key, it is answered with 201 or
  200 and then with the stored pair as JSON, the store is updated by exactly this pair, and
  the connection waits for the next request.
\<close>

theorem kv_over_http:
  assumes "k \<noteq> []" and "length k \<le> 64" and "length v \<le> 256"
    and "store = ap_kv (sv_app sv)" and "map_inv (kv_entries store)"
    and "map_of (kv_entries store) k \<noteq> None \<or> length (kv_entries store) < 50"
    and "concat chunks = request_bytes (client_put k v) @ request_bytes (client_get k)"
    and "out = serialize (response_json (kv_pair_json k v) (if map_of (kv_entries store) k = None then 201 else 200)) False @
      serialize (response_json (kv_pair_json k v) 200) False"
  shows "\<exists>sv'. onReadable (app_router fs uptime config) now (map Bytes chunks @ [RecvEAGAIN]) [Accepts (length out)]
       durs (Connection_init t fd) sv = Some (WaitRead, Connection_init now fd, sv', out) \<and>
     kv_abs (ap_kv (sv_app sv')) = (kv_abs store)(k \<mapsto> v) \<and> ap_static (sv_app sv') = ap_static (sv_app sv)"
proof -
  from assms(2,3,6) have lim: "length k \<le> maxKeyLength" "length v \<le> maxValueLength"
    "map_of (kv_entries store) k \<noteq> None \<or> length (kv_entries store) < maxEntries"
    by (simp_all add: maxKeyLength_def maxValueLength_def maxEntries_def)
  from kv_pipeline [OF assms(1) lim(1,2) assms(4,5) lim(3)] obtain sv' where
    p: "serve_pipeline (app_router fs uptime config) durs (map request_seen [client_put k v, client_get k]) sv =
      (out, False, sv')"
    and st: "ap_kv (sv_app sv') = store\<lparr>kv_entries := map_insert k v (kv_entries store)\<rparr>"
      "ap_static (sv_app sv') = ap_static (sv_app sv)"
    unfolding assms(8) by blast
  have v: "\<forall>q\<in>set [client_put k v, client_get k]. request_valid q"
    using client_put_valid [OF lim(1,2)] client_get_valid [OF lim(1)] by simp
  have c: "concat chunks = concat (map request_bytes [client_put k v, client_get k])" using assms(7) by simp
  have same: "(Connection_init now fd)\<lparr>closeAfterWrite := False\<rparr> = Connection_init now fd"
    by (simp add: Connection_init_def)
  from onReadable_pipeline [OF v c p, of now t fd] same st assms(5) show ?thesis
    by (auto simp: kv_abs_def ordered.lookup_update)
qed

theorem kv_over_http_witness:
  "\<exists>sv'. onReadable (app_router sample_env_fs (\<lambda>_. 0) ServerConfig_init) 9
       (map Bytes [request_bytes (client_put ''a b'' ''1=2''), request_bytes (client_get ''a b'')] @ [RecvEAGAIN])
       [Accepts (length (serialize (response_json (kv_pair_json ''a b'' ''1=2'') 201) False @
         serialize (response_json (kv_pair_json ''a b'' ''1=2'') 200) False))]
       [] (Connection_init 0 4) (app_init sample_env_fs None ServerConfig_init) =
     Some (WaitRead, Connection_init 9 4, sv', serialize (response_json (kv_pair_json ''a b'' ''1=2'') 201) False @
       serialize (response_json (kv_pair_json ''a b'' ''1=2'') 200) False) \<and>
     kv_abs (ap_kv (sv_app sv')) = [''a b'' \<mapsto> ''1=2'']"
proof -
  let ?sv = "app_init sample_env_fs None ServerConfig_init"
  have st: "KvStore_init = ap_kv (sv_app ?sv)" by (simp add: app_init_def)
  have c: "concat [request_bytes (client_put ''a b'' ''1=2''), request_bytes (client_get ''a b'')] =
      request_bytes (client_put ''a b'' ''1=2'') @ request_bytes (client_get ''a b'')" by simp
  from kv_over_http [OF _ _ _ st _ _ c refl, of sample_env_fs "\<lambda>_. 0" ServerConfig_init 9 "[]" 0 4] show ?thesis
    by (auto simp: KvStore_init_def map_inv_Nil kv_abs_def)
qed



end
